(* ===== verification/C_Prelude.thy ===== *)
theory C_Prelude
  imports Main "HOL-Library.Monad_Syntax" "HOL-Library.Signed_Division"
begin

text \<open>
  What every component of the development shares: the result type of C code, the range of
  \<open>int\<close>, checked signed arithmetic, and the decimal notation that \<open>"%d"\<close> prints.

  C code is modelled by functions into \<^typ>\<open>'a option\<close>. \<open>None\<close> means that the C program has no
  defined result: it dereferenced \<open>NULL\<close> or a freed object, indexed outside an array, overflowed
  a signed integer, or entered a loop that never ends. Errors the program reports itself
  (a \<open>NULL\<close> or nonzero return value) are ordinary values. The \<open>do\<close> notation is that of
  \<open>HOL-Library.Monad_Syntax\<close> for \<^const>\<open>Option.bind\<close>.
\<close>

named_theorems c_ops \<open>definitions of the C primitives\<close>
named_theorems shape \<open>facts about linked structures and their updates\<close>

section \<open>Results\<close>

type_synonym 'a c = "'a option"

text \<open>Where a function may call \<open>exit\<close>, its result says so; the exit code is that of the process.\<close>

datatype 'a outcome = Exit int | Cont 'a

fun continue :: "'a outcome c \<Rightarrow> ('a \<Rightarrow> 'b outcome c) \<Rightarrow> 'b outcome c" where
  "continue None f = None"
| "continue (Some (Exit n)) f = Some (Exit n)"
| "continue (Some (Cont x)) f = f x"

lemma bind_SomeI [intro]: "m = Some x \<Longrightarrow> f x = Some y \<Longrightarrow> m \<bind> f = Some y"
  by simp

lemma bind_Some_E:
  assumes "m \<bind> f = Some y"
  obtains x where "m = Some x" and "f x = Some y"
  using assms by (cases m) auto

section \<open>Signed integers\<close>

text \<open>A C \<open>int\<close> is modelled by the mathematical integer it holds; the operations below are
  undefined where the C operation overflows.\<close>

abbreviation INT_MAX :: int where "INT_MAX \<equiv> 2147483647"
abbreviation INT_MIN :: int where "INT_MIN \<equiv> - 2147483648"

definition in_int :: "int \<Rightarrow> bool" where
  "in_int x \<longleftrightarrow> INT_MIN \<le> x \<and> x \<le> INT_MAX"

definition c_int :: "int \<Rightarrow> int c" where
  "c_int x = (if in_int x then Some x else None)"

definition c_incr :: "int \<Rightarrow> int c" where
  "c_incr x = c_int (x + 1)"

definition c_decr :: "int \<Rightarrow> int c" where
  "c_decr x = c_int (x - 1)"

text \<open>The remainder; its sign is that of the dividend.\<close>

definition c_rem :: "int \<Rightarrow> int \<Rightarrow> int c" where
  "c_rem a b = (if b = 0 \<or> (a = INT_MIN \<and> b = -1) then None else Some (a smod b))"

lemma c_int_Some [simp]: "in_int x \<Longrightarrow> c_int x = Some x"
  by (simp add: c_int_def)

lemma c_incr_Some [simp]: "0 \<le> x \<Longrightarrow> x < INT_MAX \<Longrightarrow> c_incr x = Some (x + 1)"
  by (simp add: c_incr_def c_int_def in_int_def)

lemma c_decr_Some [simp]: "0 < x \<Longrightarrow> x \<le> INT_MAX \<Longrightarrow> c_decr x = Some (x - 1)"
  by (simp add: c_decr_def c_int_def in_int_def)

lemma c_rem_Some: "0 \<le> a \<Longrightarrow> 0 < b \<Longrightarrow> c_rem a b = Some (a mod b)"
  by (simp add: c_rem_def smod_mod_positive)

section \<open>Decimal notation\<close>

text \<open>The characters \<open>printf\<close> writes for \<open>"%d"\<close>, and reading digits back.\<close>

definition digit :: "nat \<Rightarrow> char" where
  "digit d = char_of (48 + d)"

definition digit_val :: "char \<Rightarrow> nat" where
  "digit_val c = of_char c - 48"

definition is_digit :: "char \<Rightarrow> bool" where
  "is_digit c \<longleftrightarrow> 48 \<le> (of_char c :: nat) \<and> (of_char c :: nat) \<le> 57"

fun dec_nat :: "nat \<Rightarrow> string" where
  "dec_nat n = (if n < 10 then [digit n] else dec_nat (n div 10) @ [digit (n mod 10)])"

declare dec_nat.simps [simp del]

definition dec_int :: "int \<Rightarrow> string" where
  "dec_int i = (if i < 0 then CHR ''-'' # dec_nat (nat (- i)) else dec_nat (nat i))"

definition digits_val :: "string \<Rightarrow> nat" where
  "digits_val s = foldl (\<lambda>acc c. 10 * acc + digit_val c) 0 s"

lemma of_char_digit: "d < 10 \<Longrightarrow> (of_char (digit d) :: nat) = 48 + d"
  by (simp add: digit_def)

lemma is_digit_digit [simp]: "d < 10 \<Longrightarrow> is_digit (digit d)"
  by (simp add: is_digit_def of_char_digit)

lemma digit_val_digit [simp]: "d < 10 \<Longrightarrow> digit_val (digit d) = d"
  by (simp add: digit_val_def of_char_digit)

lemma dec_nat_digits: "c \<in> set (dec_nat n) \<Longrightarrow> is_digit c"
proof (induction n rule: dec_nat.induct)
  case (1 n)
  from "1.prems" have "c \<in> set (if n < 10 then [digit n] else dec_nat (n div 10) @ [digit (n mod 10)])"
    by (simp only: dec_nat.simps [of n])
  with "1.IH" show ?case by (auto split: if_splits)
qed

lemma dec_nat_nonempty [simp]: "dec_nat n \<noteq> []"
  by (subst dec_nat.simps) simp

lemma digits_val_snoc: "digits_val (s @ [c]) = 10 * digits_val s + digit_val c"
  by (simp add: digits_val_def)

lemma digits_val_dec_nat [simp]: "digits_val (dec_nat n) = n"
proof (induction n rule: dec_nat.induct)
  case (1 n)
  show ?case
  proof (cases "n < 10")
    case True
    then show ?thesis by (subst dec_nat.simps) (simp add: digits_val_def)
  next
    case False
    with 1 show ?thesis by (subst dec_nat.simps) (simp add: digits_val_snoc)
  qed
qed

lemma dec_nat_inject [simp]: "dec_nat m = dec_nat n \<longleftrightarrow> m = n"
  by (metis digits_val_dec_nat)

lemma is_digit_minus [simp]: "\<not> is_digit (CHR ''-'')"
  by (simp add: is_digit_def)

lemma hd_dec_nat: "is_digit (hd (dec_nat n))"
  by (rule dec_nat_digits [of _ n]) simp

lemma dec_int_inject [simp]: "dec_int i = dec_int j \<longleftrightarrow> i = j"
proof -
  have sign: "CHR ''-'' # xs \<noteq> dec_nat n" for xs n
    using hd_dec_nat [of n] by (metis is_digit_minus list.sel(1))
  show ?thesis
    using sign sign [symmetric] by (auto simp: dec_int_def)
qed

lemma length_dec_nat: "n < 10 ^ k \<Longrightarrow> 0 < k \<Longrightarrow> length (dec_nat n) \<le> k"
proof (induction k arbitrary: n)
  case (Suc k)
  show ?case
  proof (cases "n < 10")
    case True
    then show ?thesis by (subst dec_nat.simps) simp
  next
    case False
    with Suc.prems have "n div 10 < 10 ^ k" and "0 < k"
      by (auto intro: gr0I simp: less_mult_imp_div_less mult.commute)
    then have "length (dec_nat (n div 10)) \<le> k" by (rule Suc.IH)
    with False show ?thesis by (subst dec_nat.simps) simp
  qed
qed simp

lemma length_dec_int: "in_int i \<Longrightarrow> length (dec_int i) \<le> 11"
proof -
  assume "in_int i"
  then have "nat (- i) < 10 ^ 10" and "nat i < 10 ^ 10"
    by (auto simp: in_int_def)
  then have "length (dec_nat (nat (- i))) \<le> 10" and "length (dec_nat (nat i)) \<le> 10"
    using length_dec_nat by auto
  then show ?thesis by (auto simp: dec_int_def)
qed

end
