(* ===== verification/C_Store.thy ===== *)
theory C_Store
  imports C_Prelude
begin

text \<open>
  Heap objects. A store holds the live objects of one C struct type, indexed by address; several
  stores side by side make the heap of a program (the C types keep them apart). \<open>malloc\<close> hands out
  addresses in increasing order and never reuses one, so that a dangling pointer is recognised:
  every access to an address that is not live is undefined.

  Whether the \<open>n\<close>-th allocation succeeds, and the indeterminate contents the new object then has,
  is decided by the component \<open>alloc\<close> of the store. The theorems hold for every such oracle (or
  say which answers they need), so they cover any mixture of failing and succeeding calls.
\<close>

datatype ptr = Null | Addr nat

record 'n store =
  cells :: "nat \<Rightarrow> 'n option"
  next_addr :: nat
  alloc :: "nat \<Rightarrow> 'n option"

definition live :: "'n store \<Rightarrow> nat set" where
  "live s = dom (cells s)"

definition malloc :: "'n store \<Rightarrow> ptr \<times> 'n store" where
  "malloc s =
     (case alloc s (next_addr s) of
        None \<Rightarrow> (Null, s\<lparr>next_addr := Suc (next_addr s)\<rparr>)
      | Some junk \<Rightarrow> (Addr (next_addr s),
          s\<lparr>cells := (cells s)(next_addr s := Some junk), next_addr := Suc (next_addr s)\<rparr>))"

fun load :: "'n store \<Rightarrow> ptr \<Rightarrow> 'n c" where
  "load s Null = None"
| "load s (Addr a) = cells s a"

text \<open>An assignment through a pointer: the object is replaced by its updated value.\<close>

fun assign :: "'n store \<Rightarrow> ptr \<Rightarrow> ('n \<Rightarrow> 'n) \<Rightarrow> 'n store c" where
  "assign s Null f = None"
| "assign s (Addr a) f =
     (case cells s a of None \<Rightarrow> None | Some x \<Rightarrow> Some (s\<lparr>cells := (cells s)(a := Some (f x))\<rparr>))"

fun free :: "'n store \<Rightarrow> ptr \<Rightarrow> 'n store c" where
  "free s Null = Some s"
| "free s (Addr a) =
     (case cells s a of None \<Rightarrow> None | Some x \<Rightarrow> Some (s\<lparr>cells := (cells s)(a := None)\<rparr>))"

text \<open>An assignment into a part of the object that may be undefined, as one to an element of an array is.\<close>

definition modify :: "'n store \<Rightarrow> ptr \<Rightarrow> ('n \<Rightarrow> 'n c) \<Rightarrow> 'n store c" where
  "modify s p f = do { x \<leftarrow> load s p; x \<leftarrow> f x; assign s p (\<lambda>_. x) }"

text \<open>Addresses not handed out yet hold no object.\<close>

definition wf_store :: "'n store \<Rightarrow> bool" where
  "wf_store s \<longleftrightarrow> (\<forall>a x. cells s a = Some x \<longrightarrow> a < next_addr s)"

definition empty_store :: "(nat \<Rightarrow> 'n option) \<Rightarrow> 'n store" where
  "empty_store al = \<lparr>cells = (\<lambda>_. None), next_addr = 0, alloc = al\<rparr>"

lemma wf_empty_store [simp]: "wf_store (empty_store al)"
  by (simp add: wf_store_def empty_store_def)

lemma store_update_order [simp]:
  "s\<lparr>next_addr := n, cells := c\<rparr> = s\<lparr>cells := c, next_addr := n\<rparr>"
  by simp

lemma live_iff: "a \<in> live s \<longleftrightarrow> (\<exists>x. cells s a = Some x)"
  by (auto simp: live_def)

text \<open>What updates do to the set of live objects.\<close>

lemma live_simps [shape]:
  "live (s\<lparr>cells := c(a := Some x)\<rparr>) = insert a (live (s\<lparr>cells := c\<rparr>))"
  "live (s\<lparr>cells := c(a := None)\<rparr>) = live (s\<lparr>cells := c\<rparr>) - {a}"
  "live (s\<lparr>next_addr := n\<rparr>) = live s"
  by (auto simp: live_def)

lemma live_simps_next [shape]:
  "live (s\<lparr>cells := c, next_addr := n\<rparr>) = live (s\<lparr>cells := c\<rparr>)"
  "live (s\<lparr>cells := cells s\<rparr>) = live s"
  by (auto simp: live_def)

lemma live_cell: "cells s a = Some x \<Longrightarrow> a \<in> live s"
  by (auto simp: live_def)

lemma live_bound: "wf_store s \<Longrightarrow> cells s a = Some x \<Longrightarrow> a < next_addr s"
  by (auto simp: wf_store_def)

lemma fresh_cell: "wf_store s \<Longrightarrow> next_addr s \<le> a \<Longrightarrow> cells s a = None"
  by (cases "cells s a") (auto dest: live_bound)

lemma malloc_ok:
  "alloc s (next_addr s) = Some junk \<Longrightarrow>
   malloc s = (Addr (next_addr s),
     s\<lparr>cells := (cells s)(next_addr s := Some junk), next_addr := Suc (next_addr s)\<rparr>)"
  by (simp add: malloc_def)

lemma malloc_fail:
  "alloc s (next_addr s) = None \<Longrightarrow> malloc s = (Null, s\<lparr>next_addr := Suc (next_addr s)\<rparr>)"
  by (simp add: malloc_def)

lemma load_Some_iff: "load s p = Some x \<longleftrightarrow> (\<exists>a. p = Addr a \<and> cells s a = Some x)"
  by (cases p) auto

lemma assign_live [simp]:
  "cells s a = Some x \<Longrightarrow>
   assign s (Addr a) f = Some (s\<lparr>cells := (cells s)(a := Some (f x))\<rparr>)"
  by simp

lemma modify_live [simp]:
  "cells s a = Some x \<Longrightarrow> f x = Some y \<Longrightarrow>
   modify s (Addr a) f = Some (s\<lparr>cells := (cells s)(a := Some y)\<rparr>)"
  by (simp add: modify_def)

lemma free_live [simp]:
  "cells s a = Some x \<Longrightarrow> free s (Addr a) = Some (s\<lparr>cells := (cells s)(a := None)\<rparr>)"
  by simp

lemma wf_store_malloc: "wf_store s \<Longrightarrow> malloc s = (p, s') \<Longrightarrow> wf_store s'"
  by (auto simp: wf_store_def less_SucI malloc_def split: option.splits if_splits)

lemma wf_store_assign: "wf_store s \<Longrightarrow> assign s p f = Some s' \<Longrightarrow> wf_store s'"
  by (cases p) (auto simp: wf_store_def less_SucI split: option.splits if_splits)

lemma wf_store_free: "wf_store s \<Longrightarrow> free s p = Some s' \<Longrightarrow> wf_store s'"
  by (cases p) (auto simp: wf_store_def less_SucI split: option.splits if_splits)

lemma wf_store_upd: "wf_store s \<Longrightarrow> a < next_addr s \<Longrightarrow> wf_store (s\<lparr>cells := (cells s)(a := v)\<rparr>)"
  by (auto simp: wf_store_def)

lemma wf_store_alloc:
  "wf_store s \<Longrightarrow>
   wf_store (s\<lparr>cells := (cells s)(next_addr s := v), next_addr := Suc (next_addr s)\<rparr>)"
  by (auto simp: wf_store_def less_SucI)

text \<open>Use of a freed object is undefined, whatever the access.\<close>

lemma dangling_undefined:
  assumes "cells s a = None"
  shows "load s (Addr a) = None" and "assign s (Addr a) f = None" and "free s (Addr a) = None"
  using assms by auto

end
