(* ===== verification/C_Strings.thy ===== *)
theory C_Strings
  imports C_Prelude
begin

text \<open>
  Characters, NUL-terminated strings in arrays, and the bytes of integers. A C string is modelled by
  the list of its characters without the terminator; a \<open>char\<close> array by the list of all its
  elements. Characters are the 256 byte values; the functions of \<open>ctype.h\<close> are those of the C locale.
\<close>

abbreviation NUL :: char where "NUL \<equiv> CHR 0x00"
abbreviation NEWLINE :: char where "NEWLINE \<equiv> CHR 0x0A"

abbreviation code :: "char \<Rightarrow> nat" where "code c \<equiv> of_char c"

section \<open>Arrays that hold a string\<close>

definition cstr :: "char list \<Rightarrow> string" where
  "cstr buf = takeWhile (\<lambda>c. c \<noteq> NUL) buf"

text \<open>\<open>strncpy(dest, src, n)\<close>: at most \<open>n\<close> characters, the rest of the \<open>n\<close> filled with NUL.\<close>

definition strncpy :: "char list \<Rightarrow> string \<Rightarrow> nat \<Rightarrow> char list" where
  "strncpy dest src n = take n (src @ replicate n NUL) @ drop n dest"

definition no_nul :: "string \<Rightarrow> bool" where
  "no_nul s \<longleftrightarrow> NUL \<notin> set s"

lemma no_nul_simps [simp]:
  "no_nul []" "no_nul (c # s) \<longleftrightarrow> c \<noteq> NUL \<and> no_nul s" "no_nul (s @ t) \<longleftrightarrow> no_nul s \<and> no_nul t"
  by (auto simp: no_nul_def)

lemma no_nul_take: "no_nul s \<Longrightarrow> no_nul (take n s)"
  by (auto simp: no_nul_def dest: in_set_takeD)

lemma cstr_no_nul [simp]: "no_nul (cstr buf)"
  by (auto simp: no_nul_def cstr_def dest: set_takeWhileD)

lemma cstr_id [simp]: "no_nul s \<Longrightarrow> cstr s = s"
  by (auto simp: no_nul_def cstr_def takeWhile_eq_all_conv)

lemma cstr_append_NUL [simp]: "no_nul s \<Longrightarrow> cstr (s @ NUL # t) = s"
  by (induction s) (auto simp: cstr_def)

lemma cstr_terminated: "no_nul s \<Longrightarrow> cstr (s @ replicate n NUL @ [NUL] @ t) = s"
  by (cases n) (simp_all add: no_nul_def)

lemma length_strncpy [simp]: "n \<le> length dest \<Longrightarrow> length (strncpy dest src n) = length dest"
  by (simp add: strncpy_def)

text \<open>The idiom \<open>strncpy(a, src, N - 1); a[N - 1] = 0\<close> leaves the first \<open>N - 1\<close> characters.\<close>

lemma cstr_strncpy_terminated:
  assumes "no_nul src" and "length dest = Suc n"
  shows "cstr ((strncpy dest src n)[n := NUL]) = take n src"
proof -
  have "length (drop n dest) = Suc 0" using assms(2) by simp
  then obtain d where "drop n dest = [d]" by (metis length_0_conv length_Suc_conv)
  then have "(strncpy dest src n)[n := NUL]
      = take n src @ replicate (n - length src) NUL @ [NUL] @ []"
    by (cases "n \<le> length src") (auto simp: strncpy_def list_update_append)
  then show ?thesis
    using assms(1) cstr_terminated no_nul_take by metis
qed

section \<open>Words joined by blanks\<close>

fun joined :: "string list \<Rightarrow> string" where
  "joined [] = []"
| "joined [w] = w"
| "joined (w # v # ws) = w @ CHR '' '' # joined (v # ws)"

lemma no_nul_joined: "\<forall>a \<in> set args. no_nul a \<Longrightarrow> no_nul (joined args)"
  by (induction args rule: joined.induct) simp_all

section \<open>Integers as bytes\<close>

text \<open>Little-endian two's complement: the object representation of the integer types.\<close>

fun le_bytes :: "nat \<Rightarrow> int \<Rightarrow> char list" where
  "le_bytes 0 x = []"
| "le_bytes (Suc n) x = char_of (nat (x mod 256)) # le_bytes n (x div 256)"

fun le_val :: "char list \<Rightarrow> int" where
  "le_val [] = 0"
| "le_val (c # cs) = int (code c) + 256 * le_val cs"

definition le_signed :: "char list \<Rightarrow> int" where
  "le_signed bs =
     (let m = 256 ^ length bs; v = le_val bs in if 2 * v < m then v else v - m)"

lemma length_le_bytes [simp]: "length (le_bytes n x) = n"
  by (induction n arbitrary: x) auto

lemma le_val_le_bytes: "le_val (le_bytes n x) = x mod 256 ^ n"
proof (induction n arbitrary: x)
  case (Suc n)
  have "x mod (256 * 256 ^ n) = 256 * (x div 256 mod 256 ^ n) + x mod 256"
    by (rule zmod_zmult2_eq) simp
  then show ?case by (simp add: Suc.IH nat_less_iff)
qed simp

lemma le_signed_le_bytes:
  assumes "- (256 ^ n) \<le> 2 * x" and "2 * x < 256 ^ n"
  shows "le_signed (le_bytes n x) = x"
proof (cases "0 \<le> x")
  case True
  with assms have "x mod 256 ^ n = x" by simp
  with assms show ?thesis by (simp add: le_signed_def le_val_le_bytes)
next
  case False
  have "x mod 256 ^ n = (x + 256 ^ n) mod 256 ^ n" by simp
  also have "\<dots> = x + 256 ^ n"
    using assms False by (intro mod_pos_pos_trivial) auto
  finally show ?thesis
    using assms by (simp add: le_signed_def le_val_le_bytes)
qed

lemma le_val_range: "0 \<le> le_val bs \<and> le_val bs < 256 ^ length bs"
proof (induction bs)
  case (Cons b bs)
  have "code b < 256" by simp
  then have "int (code b) < 256" by linarith
  with Cons have "0 \<le> le_val (b # bs) \<and> le_val (b # bs) < 256 * 256 ^ length bs"
    unfolding le_val.simps by linarith
  then show ?case by simp
qed simp

lemma le_signed_range: "- (256 ^ length bs) \<le> 2 * le_signed bs \<and> 2 * le_signed bs < 256 ^ length bs"
  using le_val_range [of bs] by (simp add: le_signed_def Let_def)

end
