(* ===== verification/C_Buffers.thy ===== *)
theory C_Buffers
  imports C_Strings
begin

text \<open>
  Writing into \<open>char\<close> arrays: an assignment to one element and \<open>strncpy\<close>, which are undefined outside of
  the array, and what a sequence of assignments leaves behind.
\<close>

definition put :: "char list \<Rightarrow> nat \<Rightarrow> char \<Rightarrow> char list c" where
  "put buf i c = (if i < length buf then Some (buf[i := c]) else None)"

text \<open>The same with an index of type \<open>int\<close>.\<close>

definition put_at :: "char list \<Rightarrow> int \<Rightarrow> char \<Rightarrow> char list c" where
  "put_at buf i c = (if i < 0 then None else put buf (nat i) c)"

lemma put_at_int [simp]: "put_at buf (int i) c = put buf i c"
  by (simp add: put_at_def)

text \<open>\<open>strncpy(dest, src, n)\<close> writes \<open>n\<close> characters, whatever the length of \<open>src\<close>.\<close>

definition strncpy_to :: "char list \<Rightarrow> string \<Rightarrow> nat \<Rightarrow> char list c" where
  "strncpy_to dest src n = (if n \<le> length dest then Some (strncpy dest src n) else None)"

lemma strncpy_to_ok [simp]: "n \<le> length dest \<Longrightarrow> strncpy_to dest src n = Some (strncpy dest src n)"
  by (simp add: strncpy_to_def)

lemma put_ok: "i < length buf \<Longrightarrow> put buf i c = Some (buf[i := c])"
  by (simp add: put_def)

definition write_at :: "char list \<Rightarrow> nat \<Rightarrow> string \<Rightarrow> char list" where
  "write_at buf pos s = take pos buf @ s @ drop (pos + length s) buf"

lemma length_write_at [simp]: "pos + length s \<le> length buf \<Longrightarrow> length (write_at buf pos s) = length buf"
  by (simp add: write_at_def)

lemma write_at_Nil [simp]: "write_at buf pos [] = buf"
  by (simp add: write_at_def)

lemma write_at_append:
  "pos + length s + length t \<le> length buf \<Longrightarrow> write_at (write_at buf pos s) (pos + length s) t = write_at buf pos (s @ t)"
  by (simp add: write_at_def add.assoc [symmetric]) (simp add: ac_simps)

lemma put_write_at: "i < length buf \<Longrightarrow> put buf i c = Some (write_at buf i [c])"
  by (simp add: put_def write_at_def upd_conv_take_nth_drop)

lemma finish_buffer:
  assumes "length s < length buf" and "no_nul s"
  shows "\<exists>b. put (write_at buf 0 s) (length s) NUL = Some b \<and> cstr b = s"
proof -
  have "put (write_at buf 0 s) (length s) NUL = Some (write_at buf 0 (s @ [NUL]))"
    using assms(1) put_write_at [of "length s" "write_at buf 0 s" NUL] write_at_append [of 0 s "[NUL]" buf] by simp
  moreover have "cstr (write_at buf 0 (s @ [NUL])) = s" using assms(2) by (simp add: write_at_def)
  ultimately show ?thesis by blast
qed

end
