(* ===== verification/Lru_Spec.thy ===== *)
theory Lru_Spec
  imports C_Prelude
begin

text \<open>
  What the LRU cache promises, without pointers and hash table: the cached entries as a list from the
  least to the most recently used, the update every operation makes to it, and the trace property
  that gives the policy its name.
\<close>

section \<open>The recency list\<close>

type_synonym 'v lru = "(int \<times> 'v) list"

definition lru_keys :: "'v lru \<Rightarrow> int list" where
  "lru_keys kvs = map fst kvs"

definition lru_touch :: "int \<Rightarrow> 'v \<Rightarrow> 'v lru \<Rightarrow> 'v lru" where
  "lru_touch k v kvs = filter (\<lambda>e. fst e \<noteq> k) kvs @ [(k, v)]"

definition lru_evict :: "nat \<Rightarrow> 'v lru \<Rightarrow> 'v lru" where
  "lru_evict cap kvs = (if length kvs < cap then kvs else tl kvs)"

definition lru_put :: "nat \<Rightarrow> int \<Rightarrow> 'v \<Rightarrow> 'v lru \<Rightarrow> 'v lru" where
  "lru_put cap k v kvs =
     (if k \<in> set (lru_keys kvs) then lru_touch k v kvs else lru_evict cap kvs @ [(k, v)])"

lemma lru_keys_simps [simp]:
  "lru_keys [] = []" "lru_keys (e # kvs) = fst e # lru_keys kvs"
  "lru_keys (kvs @ kvs') = lru_keys kvs @ lru_keys kvs'" "length (lru_keys kvs) = length kvs"
  by (auto simp: lru_keys_def)

lemma lru_keys_touch [simp]: "lru_keys (lru_touch k v kvs) = filter (\<lambda>x. x \<noteq> k) (lru_keys kvs) @ [k]"
  by (induction kvs) (auto simp: lru_touch_def)

lemma lru_keys_evict [simp]:
  "lru_keys (lru_evict cap kvs) = (if length kvs < cap then lru_keys kvs else tl (lru_keys kvs))"
  by (cases kvs) (auto simp: lru_evict_def)

lemma lru_touch_absent: "k \<notin> set (lru_keys kvs) \<Longrightarrow> lru_touch k v kvs = kvs @ [(k, v)]"
  by (auto simp: lru_touch_def lru_keys_def filter_id_conv)

lemma distinct_lru_put: "distinct (lru_keys kvs) \<Longrightarrow> distinct (lru_keys (lru_put cap k v kvs))"
  by (cases kvs) (auto simp: lru_put_def)

lemma length_filter_neq:
  "distinct xs \<Longrightarrow> k \<in> set xs \<Longrightarrow> length (filter (\<lambda>x. x \<noteq> k) xs) = length xs - 1"
proof (induction xs)
  case (Cons x xs)
  then have "filter (\<lambda>x. x \<noteq> k) xs = xs" if "x = k" using that by (auto simp: filter_id_conv)
  with Cons show ?case by auto (metis Suc_pred length_pos_if_in_set)
qed simp

lemma length_lru_put:
  assumes "distinct (lru_keys kvs)" and "length kvs \<le> cap" and "0 < cap"
  shows "length (lru_put cap k v kvs) \<le> cap"
proof -
  have "length (filter (\<lambda>x. x \<noteq> k) (lru_keys kvs)) = length kvs - 1" "0 < length kvs"
    if "k \<in> set (lru_keys kvs)"
    using that assms(1) length_filter_neq [of "lru_keys kvs" k]
      length_pos_if_in_set [of k "lru_keys kvs"] by auto
  then have "length (lru_keys (lru_put cap k v kvs)) \<le> cap"
    using assms(2,3) lru_keys_simps(4) [of kvs]
    by (auto simp: lru_put_def simp del: lru_keys_simps(4))
  then show ?thesis by simp
qed

section \<open>The recency list of a trace\<close>

text \<open>After a trace of accesses the list holds the \<open>cap\<close> identifiers accessed last, in the order of
  their last access (\<^const>\<open>remdups\<close> keeps the last occurrence of every element).\<close>

definition last_n :: "nat \<Rightarrow> 'a list \<Rightarrow> 'a list" where
  "last_n n xs = drop (length xs - n) xs"

lemma remdups_append_filter:
  "remdups (xs @ ys) = filter (\<lambda>x. x \<notin> set ys) (remdups xs) @ remdups ys"
  by (induction xs) auto

lemma remdups_snoc: "remdups (xs @ [k]) = filter (\<lambda>x. x \<noteq> k) (remdups xs) @ [k]"
  by (simp add: remdups_append_filter)

lemma last_n_split: "\<exists>as. xs = as @ last_n n xs \<and> (as = [] \<or> length (last_n n xs) = n)"
  by (rule exI [of _ "take (length xs - n) xs"]) (auto simp: last_n_def)

lemma last_n_append: "length bs = n \<Longrightarrow> last_n n (as @ bs) = bs"
  by (simp add: last_n_def)

lemma last_n_all: "length xs \<le> n \<Longrightarrow> last_n n xs = xs"
  by (simp add: last_n_def)

lemma length_last_n: "length (last_n n xs) = min n (length xs)"
  by (simp add: last_n_def)

lemma last_n_touch:
  assumes "distinct r" and "0 < n"
  defines "l \<equiv> last_n n r"
  shows "last_n n (filter (\<lambda>x. x \<noteq> k) r @ [k]) =
    (if k \<in> set l then filter (\<lambda>x. x \<noteq> k) l @ [k]
     else (if length l < n then l else tl l) @ [k])"
proof -
  obtain as where r: "r = as @ l" and as: "as = [] \<or> length l = n"
    using last_n_split [of r n] unfolding l_def by auto
  have len: "length l \<le> n" by (simp add: l_def length_last_n)
  have dl: "distinct l" using assms(1) r by simp
  show ?thesis
  proof (cases "k \<in> set l")
    case True
    then have "0 < length l" by (auto simp: length_pos_if_in_set)
    with True dl have *: "length (filter (\<lambda>x. x \<noteq> k) l @ [k]) = length l"
      by (simp add: length_filter_neq)
    show ?thesis
    proof (cases "as = []")
      case True
      with r \<open>k \<in> set l\<close> * len show ?thesis by (simp add: last_n_all)
    next
      case False
      with as * have "last_n n (filter (\<lambda>x. x \<noteq> k) as @ (filter (\<lambda>x. x \<noteq> k) l @ [k]))
          = filter (\<lambda>x. x \<noteq> k) l @ [k]"
        by (intro last_n_append) auto
      with r \<open>k \<in> set l\<close> show ?thesis by simp
    qed
  next
    case False
    then have fl: "filter (\<lambda>x. x \<noteq> k) l = l" by (auto simp: filter_id_conv)
    show ?thesis
    proof (cases "length l < n")
      case True
      with as r have "r = l" by auto
      with True False fl show ?thesis by (simp add: last_n_all)
    next
      case full: False
      with len assms(2) obtain x l' where l: "l = x # l'" and "length (l' @ [k]) = n"
        by (cases l) auto
      then have "last_n n ((filter (\<lambda>x. x \<noteq> k) as @ [x]) @ (l' @ [k])) = l' @ [k]"
        by (intro last_n_append)
      with r fl l full False show ?thesis by simp
    qed
  qed
qed

text \<open>An identifier is among the \<open>n\<close> most recent ones iff it was accessed, and fewer than \<open>n\<close>
  other identifiers were accessed since.\<close>

lemma last_n_remdups_iff:
  assumes "k \<notin> set vs"
  shows "k \<in> set (last_n n (remdups (us @ k # vs))) \<longleftrightarrow> card (set vs) < n"
proof -
  define ws where "ws = filter (\<lambda>x. x \<notin> set (k # vs)) (remdups us)"
  have r: "remdups (us @ k # vs) = ws @ k # remdups vs"
    using assms remdups_append_filter [of us "k # vs"] by (simp add: ws_def)
  have len: "length (remdups vs) = card (set vs)" by (simp add: length_remdups_card_conv)
  have kw: "k \<notin> set ws" by (simp add: ws_def)
  show ?thesis
  proof (cases "card (set vs) < n")
    case True
    then have "length (ws @ k # remdups vs) - n \<le> length ws" using len by simp
    with True show ?thesis unfolding r last_n_def by simp
  next
    case False
    then have "length ws < length (ws @ k # remdups vs) - n" using len
      by simp
    with False assms show ?thesis unfolding r last_n_def
      by (auto dest: in_set_dropD simp: drop_Cons')
  qed
qed

text \<open>The number of hits of an LRU cache of the given capacity on the accesses \<open>ks\<close>, when the
  accesses \<open>us\<close> came before: an access hits iff it is among the identifiers used last.\<close>

fun hit_count :: "nat \<Rightarrow> int list \<Rightarrow> int list \<Rightarrow> int" where
  "hit_count n us [] = 0"
| "hit_count n us (k # ks) =
     (if k \<in> set (last_n n (remdups us)) then 1 else 0) + hit_count n (us @ [k]) ks"

lemma hit_count_bounds: "0 \<le> hit_count n us ks \<and> hit_count n us ks \<le> int (length ks)"
  by (induction n us ks rule: hit_count.induct) auto

end
