(* ===== verification/Backing_Store.thy ===== *)
theory Backing_Store
  imports Lru_Spec
begin

text \<open>
  The interface between the LRU cache and the disk behind it. A backing store maps identifiers to
  values and is written one value at a time; the cache is write-through (\<open>put_msg\<close> writes every value
  it caches) and reads from the store on a miss. The locale states what the cache relies on; inside
  it, coherence of the cached values with the store is proved for every such store, once.
\<close>

text \<open>The effect of the two cache operations on the recency list and the store.\<close>

definition spec_put ::
  "('d \<Rightarrow> 'v \<Rightarrow> 'd) \<Rightarrow> ('v \<Rightarrow> int) \<Rightarrow> nat \<Rightarrow> 'v \<Rightarrow> 'd \<times> 'v lru \<Rightarrow> 'd \<times> 'v lru" where
  "spec_put upd key_of cap v = (\<lambda>(d, kvs). (upd d v, lru_put cap (key_of v) v kvs))"

definition spec_get ::
  "('d \<Rightarrow> int \<Rightarrow> 'v option) \<Rightarrow> ('d \<Rightarrow> 'v \<Rightarrow> 'd) \<Rightarrow> ('v \<Rightarrow> int) \<Rightarrow> nat \<Rightarrow> int \<Rightarrow>
   'd \<times> 'v lru \<Rightarrow> 'v option \<times> ('d \<times> 'v lru)" where
  "spec_get lookup upd key_of cap k = (\<lambda>(d, kvs).
     (case map_of kvs k of
        Some v \<Rightarrow> (Some v, (d, lru_touch k v kvs))
      | None \<Rightarrow>
          (case lookup d k of
             None \<Rightarrow> (None, (d, kvs))
           | Some v \<Rightarrow> (Some v, spec_put upd key_of cap v (d, kvs)))))"

lemma map_of_lru_keys: "map_of kvs k = None \<longleftrightarrow> k \<notin> set (lru_keys kvs)"
  by (simp add: map_of_eq_None_iff lru_keys_def)

lemma distinct_spec_get:
  assumes "distinct (lru_keys kvs)"
  shows "distinct (lru_keys (snd (snd (spec_get lookup upd key_of cap k (d, kvs)))))"
  using assms distinct_lru_put [OF assms]
  by (auto simp: spec_get_def spec_put_def split: option.splits)

text \<open>A lookup of an identifier the store holds moves it to the end of the recency list.\<close>

lemma spec_get_keys:
  assumes "spec_get lookup upd key_of cap k (d, kvs) = (r, (d', kvs'))"
    and "map_of kvs k = None \<Longrightarrow> \<exists>v. lookup d k = Some v \<and> key_of v = k"
  shows "lru_keys kvs' =
    (if k \<in> set (lru_keys kvs) then filter (\<lambda>x. x \<noteq> k) (lru_keys kvs) @ [k]
     else (if length (lru_keys kvs) < cap then lru_keys kvs else tl (lru_keys kvs)) @ [k])"
proof (cases "map_of kvs k")
  case None
  with assms show ?thesis
    by (auto simp: spec_get_def spec_put_def lru_put_def map_of_lru_keys)
next
  case (Some v)
  then have "k \<in> set (lru_keys kvs)" using map_of_lru_keys [of kvs k] by auto
  with Some assms(1) show ?thesis by (auto simp: spec_get_def)
qed

locale backing_store =
  fixes lookup :: "'d \<Rightarrow> int \<Rightarrow> 'v option"
    and upd :: "'d \<Rightarrow> 'v \<Rightarrow> 'd"
    and key_of :: "'v \<Rightarrow> int"
    and good :: "'d \<Rightarrow> bool"
    and storable :: "'v \<Rightarrow> bool"
    and valid :: "int \<Rightarrow> bool"
  assumes lookup_upd_same: "good d \<Longrightarrow> storable v \<Longrightarrow> lookup (upd d v) (key_of v) = Some v"
    and lookup_upd_other:
      "good d \<Longrightarrow> storable v \<Longrightarrow> valid k \<Longrightarrow> k \<noteq> key_of v \<Longrightarrow> lookup (upd d v) k = lookup d k"
    and good_upd: "good d \<Longrightarrow> storable v \<Longrightarrow> good (upd d v)"
    and good_lookup: "good d \<Longrightarrow> valid k \<Longrightarrow> lookup d k = Some v \<Longrightarrow> storable v \<and> key_of v = k"
    and valid_key: "storable v \<Longrightarrow> valid (key_of v)"
begin

definition coherent :: "'d \<Rightarrow> 'v lru \<Rightarrow> bool" where
  "coherent d kvs \<longleftrightarrow> distinct (lru_keys kvs) \<and> (\<forall>(k, v) \<in> set kvs. valid k \<and> lookup d k = Some v)"

lemma lookup_upd: "good d \<Longrightarrow> storable v \<Longrightarrow> valid k \<Longrightarrow>
    lookup (upd d v) k = (if k = key_of v then Some v else lookup d k)"
  by (auto simp: lookup_upd_same lookup_upd_other)

lemma lookup_rewrite:
  "good d \<Longrightarrow> valid k \<Longrightarrow> valid j \<Longrightarrow> lookup d k = Some v \<Longrightarrow> lookup (upd d v) j = lookup d j"
  using good_lookup [of d k v] by (auto simp: lookup_upd)

lemma coherent_empty: "coherent d []"
  by (simp add: coherent_def)

lemma set_lru_put:
  assumes "distinct (lru_keys kvs)" and "e \<in> set (lru_put cap k v kvs)"
  shows "e = (k, v) \<or> e \<in> set kvs \<and> fst e \<noteq> k"
  using assms
  by (auto simp: lru_put_def lru_touch_def lru_evict_def lru_keys_def rev_image_eqI split: if_splits
      dest: list.set_sel(2) [rotated])
     (metis list.set_sel(2) tl_Nil empty_iff list.set(1) fst_conv image_eqI)+

lemma coherent_put:
  assumes "good d" and "coherent d kvs" and "storable v"
  shows "coherent (upd d v) (lru_put cap (key_of v) v kvs)"
proof -
  have dk: "distinct (lru_keys kvs)" using assms(2) by (simp add: coherent_def)
  have "valid k \<and> lookup (upd d v) k = Some w"
    if "(k, w) \<in> set (lru_put cap (key_of v) v kvs)" for k w
    using set_lru_put [OF dk that] assms
    by (auto simp: coherent_def lookup_upd_same valid_key lookup_upd_other)
  with distinct_lru_put [OF dk] show ?thesis by (auto simp: coherent_def)
qed

lemma coherent_touch: "coherent d kvs \<Longrightarrow> map_of kvs k = Some v \<Longrightarrow> coherent d (lru_touch k v kvs)"
  by (auto simp: coherent_def lru_touch_def lru_keys_def distinct_map_filter dest: map_of_SomeD)

text \<open>A cache in front of the store answers what the store holds, keeps coherent, and does not
  change what the store holds.\<close>

lemma get_transparent:
  assumes "good d" and "coherent d kvs" and "valid k"
    and "spec_get lookup upd key_of cap k (d, kvs) = (r, (d', kvs'))"
  shows "r = lookup d k \<and> good d' \<and> coherent d' kvs' \<and> (\<forall>j. valid j \<longrightarrow> lookup d' j = lookup d j)"
proof (cases "map_of kvs k")
  case (Some v)
  then have "lookup d k = Some v" using assms(2) by (auto simp: coherent_def dest: map_of_SomeD)
  with Some assms coherent_touch show ?thesis by (auto simp: spec_get_def)
next
  case None
  show ?thesis
  proof (cases "lookup d k")
    case (Some v)
    with good_lookup assms(1,3) have "storable v" "key_of v = k" by auto
    with None Some assms show ?thesis
      by (auto simp: spec_get_def spec_put_def good_upd lookup_rewrite intro: coherent_put)
  qed (use None assms in \<open>simp add: spec_get_def\<close>)
qed

lemma put_visible:
  assumes "good d" and "coherent d kvs" and "storable v"
    and "spec_put upd key_of cap v (d, kvs) = (d', kvs')"
  shows "good d' \<and> coherent d' kvs' \<and> map_of kvs' (key_of v) = Some v
    \<and> lookup d' (key_of v) = Some v"
proof -
  have "coherent d' kvs'" and "(key_of v, v) \<in> set kvs'"
    using assms coherent_put by (auto simp: spec_put_def lru_put_def lru_touch_def)
  then have "map_of kvs' (key_of v) = Some v"
    by (auto simp: coherent_def lru_keys_def)
  with assms \<open>coherent d' kvs'\<close> show ?thesis
    by (auto simp: spec_put_def good_upd lookup_upd_same)
qed

end

end
