(* ===== verification/Message_Store.thy ===== *)
theory Message_Store
  imports C_Store C_Buffers Backing_Store
begin

text \<open>
  \<open>practicum1/message.h\<close>, \<open>practicum1/message.c\<close>: the \<open>Message\<close> struct, its object representation
  (the bytes \<open>fwrite\<close> writes and \<open>fread\<close> reads), and the three operations \<open>create_msg\<close>,
  \<open>store_msg\<close> and \<open>retrieve_msg\<close> over a disk. The layout is that of the usual 64-bit ABI: \<open>int\<close> is
  4 bytes, \<open>time_t\<close> is 8 bytes, each aligned to its size, little-endian.

  The disk maps file names to contents; \<open>folder\<close> says whether the directory \<open>messages\<close> exists, without
  which no message file can be opened. Which names \<open>fopen\<close> can open for writing and for reading, and
  how many bytes fit into a file, is part of the disk and arbitrary.
\<close>

section \<open>The struct and its bytes\<close>

definition MAX_SENDER_LEN :: nat where "MAX_SENDER_LEN = 32"
definition MAX_RECEIVER_LEN :: nat where "MAX_RECEIVER_LEN = 32"
definition MAX_CONTENT_LEN :: nat where "MAX_CONTENT_LEN = 944"

lemmas max_lens [simp] = MAX_SENDER_LEN_def MAX_RECEIVER_LEN_def MAX_CONTENT_LEN_def

text \<open>The fields of the struct; \<open>pad1\<close> and \<open>pad2\<close> are the bytes the compiler inserts after \<open>id\<close>
  and after \<open>delivered\<close>, which are copied, written and read with the rest.\<close>

record Message =
  msg_id :: int
  pad1 :: "char list"
  time_sent :: int
  sender :: "char list"
  receiver :: "char list"
  content :: "char list"
  delivered :: int
  pad2 :: "char list"

definition wf_Message :: "Message \<Rightarrow> bool" where
  "wf_Message m \<longleftrightarrow> in_int (msg_id m) \<and> in_int (delivered m)
     \<and> - (2 ^ 63) \<le> time_sent m \<and> time_sent m < 2 ^ 63
     \<and> length (sender m) = MAX_SENDER_LEN \<and> length (receiver m) = MAX_RECEIVER_LEN
     \<and> length (content m) = MAX_CONTENT_LEN \<and> length (pad1 m) = 4 \<and> length (pad2 m) = 4"

text \<open>Size and alignment of each field, and the C rule for the size of the struct: every field
  starts at the next multiple of its alignment, and the size is rounded up to the largest one.\<close>

definition round_up :: "nat \<Rightarrow> nat \<Rightarrow> nat" where
  "round_up n a = (n + a - 1) div a * a"

fun end_of_fields :: "nat \<Rightarrow> (nat \<times> nat) list \<Rightarrow> nat" where
  "end_of_fields off [] = off"
| "end_of_fields off ((sz, al) # fs) = end_of_fields (round_up off al + sz) fs"

definition sizeof_struct :: "(nat \<times> nat) list \<Rightarrow> nat" where
  "sizeof_struct fs = round_up (end_of_fields 0 fs) (Max (set (map snd fs)))"

definition Message_fields :: "(nat \<times> nat) list" where
  "Message_fields = [(4, 4), (8, 8), (MAX_SENDER_LEN, 1), (MAX_RECEIVER_LEN, 1),
     (MAX_CONTENT_LEN, 1), (4, 4)]"

definition sizeof_Message :: nat where
  "sizeof_Message = sizeof_struct Message_fields"

lemma sizeof_Message [simp]: "sizeof_Message = 1032"
  by (simp add: sizeof_Message_def sizeof_struct_def Message_fields_def round_up_def)

definition encode_msg :: "Message \<Rightarrow> char list" where
  "encode_msg m = le_bytes 4 (msg_id m) @ pad1 m @ le_bytes 8 (time_sent m)
     @ sender m @ receiver m @ content m @ le_bytes 4 (delivered m) @ pad2 m"

definition decode_msg :: "char list \<Rightarrow> Message" where
  "decode_msg bs =
     \<lparr>msg_id = le_signed (take 4 bs), pad1 = take 4 (drop 4 bs),
      time_sent = le_signed (take 8 (drop 8 bs)),
      sender = take MAX_SENDER_LEN (drop 16 bs), receiver = take MAX_RECEIVER_LEN (drop 48 bs),
      content = take MAX_CONTENT_LEN (drop 80 bs),
      delivered = le_signed (take 4 (drop 1024 bs)), pad2 = take 4 (drop 1028 bs)\<rparr>"

lemma length_encode_msg: "wf_Message m \<Longrightarrow> length (encode_msg m) = sizeof_Message"
  by (simp add: wf_Message_def encode_msg_def)

lemma decode_encode [simp]: "wf_Message m \<Longrightarrow> decode_msg (encode_msg m) = m"
  by (cases m) (simp add: wf_Message_def decode_msg_def encode_msg_def le_signed_le_bytes in_int_def)

lemma wf_decode_msg:
  assumes "length bs = sizeof_Message"
  shows "wf_Message (decode_msg bs)"
  using assms le_signed_range [of "take 4 bs"] le_signed_range [of "take 8 (drop 8 bs)"]
    le_signed_range [of "take 4 (drop 1024 bs)"]
  by (simp add: wf_Message_def decode_msg_def in_int_def)

section \<open>The disk\<close>

record disk =
  folder :: bool
  files :: "string \<Rightarrow> char list option"
  writable :: "string \<Rightarrow> bool"
  readable :: "string \<Rightarrow> bool"
  room :: "string \<Rightarrow> nat"

text \<open>\<open>snprintf(filename, 64, "messages/%d.msg", id)\<close>\<close>

definition filename_of :: "int \<Rightarrow> string" where
  "filename_of i = take 63 (''messages/'' @ dec_int i @ ''.msg'')"

text \<open>\<open>fopen(name, "wb")\<close>, one \<open>fwrite\<close> of an item and \<open>fclose\<close>: the number of items written and the
  new disk; \<open>None\<close> stands for the \<open>NULL\<close> of \<open>fopen\<close>.\<close>

definition write_file :: "disk \<Rightarrow> string \<Rightarrow> char list \<Rightarrow> (nat \<times> disk) option" where
  "write_file d name item =
     (if folder d \<and> writable d name
      then Some (if length item \<le> room d name then 1 else 0,
                 d\<lparr>files := (files d)(name := Some (take (room d name) item))\<rparr>)
      else None)"

text \<open>\<open>fopen(name, "rb")\<close>: the file is there and may be read.\<close>

definition read_file :: "disk \<Rightarrow> string \<Rightarrow> char list option" where
  "read_file d name = (if folder d \<and> readable d name then files d name else None)"

section \<open>Operations\<close>

text \<open>\<open>now\<close> is the value \<open>time(NULL)\<close> returns.\<close>

definition create_msg ::
  "Message store \<Rightarrow> int \<Rightarrow> int \<Rightarrow> string \<Rightarrow> string \<Rightarrow> string \<Rightarrow> int \<Rightarrow> (ptr \<times> Message store) c" where
  "create_msg ms now i sndr rcv cnt dlv =
     (case malloc ms of
        (Null, ms) \<Rightarrow> Some (Null, ms)
      | (p, ms) \<Rightarrow> do {
          ms \<leftarrow> assign ms p (\<lambda>m. m\<lparr>msg_id := i, time_sent := now, delivered := dlv\<rparr>);
          ms \<leftarrow> modify ms p (\<lambda>m. do {
            a \<leftarrow> strncpy_to (sender m) sndr (MAX_SENDER_LEN - 1); Some (m\<lparr>sender := a\<rparr>) });
          ms \<leftarrow> modify ms p (\<lambda>m. do {
            a \<leftarrow> put (sender m) (MAX_SENDER_LEN - 1) NUL; Some (m\<lparr>sender := a\<rparr>) });
          ms \<leftarrow> modify ms p (\<lambda>m. do {
            a \<leftarrow> strncpy_to (receiver m) rcv (MAX_RECEIVER_LEN - 1); Some (m\<lparr>receiver := a\<rparr>) });
          ms \<leftarrow> modify ms p (\<lambda>m. do {
            a \<leftarrow> put (receiver m) (MAX_RECEIVER_LEN - 1) NUL; Some (m\<lparr>receiver := a\<rparr>) });
          ms \<leftarrow> modify ms p (\<lambda>m. do {
            a \<leftarrow> strncpy_to (content m) cnt (MAX_CONTENT_LEN - 1); Some (m\<lparr>content := a\<rparr>) });
          ms \<leftarrow> modify ms p (\<lambda>m. do {
            a \<leftarrow> put (content m) (MAX_CONTENT_LEN - 1) NUL; Some (m\<lparr>content := a\<rparr>) });
          Some (p, ms)
        })"

definition store_msg :: "disk \<Rightarrow> Message store \<Rightarrow> ptr \<Rightarrow> (int \<times> disk) c" where
  "store_msg d ms p =
     (if p = Null then Some (-1, d)
      else do {
        m \<leftarrow> load ms p;
        Some (case write_file d (filename_of (msg_id m)) (encode_msg m) of
                None \<Rightarrow> (-1, d)
              | Some (written, d) \<Rightarrow> (if written \<noteq> 1 then -1 else 0, d))
      })"

definition retrieve_msg :: "disk \<Rightarrow> Message store \<Rightarrow> int \<Rightarrow> (ptr \<times> Message store) c" where
  "retrieve_msg d ms i =
     (case read_file d (filename_of i) of
        None \<Rightarrow> Some (Null, ms)
      | Some bytes \<Rightarrow>
          (case malloc ms of
             (Null, ms) \<Rightarrow> Some (Null, ms)
           | (p, ms) \<Rightarrow>
               if length bytes < sizeof_Message
               then do { ms \<leftarrow> free ms p; Some (Null, ms) }
               else do {
                 ms \<leftarrow> assign ms p (\<lambda>_. decode_msg (take sizeof_Message bytes));
                 Some (p, ms)
               }))"

section \<open>File names\<close>

lemma filename_of_eq: "in_int i \<Longrightarrow> filename_of i = ''messages/'' @ dec_int i @ ''.msg''"
  using length_dec_int [of i] by (simp add: filename_of_def)

lemma filename_of_inject:
  "in_int i \<Longrightarrow> in_int j \<Longrightarrow> filename_of i = filename_of j \<longleftrightarrow> i = j"
  by (simp add: filename_of_eq)

section \<open>What the disk holds for an identifier\<close>

definition stored :: "disk \<Rightarrow> int \<Rightarrow> Message option" where
  "stored d i =
     (case read_file d (filename_of i) of
        None \<Rightarrow> None
      | Some bytes \<Rightarrow>
          if length bytes < sizeof_Message then None
          else Some (decode_msg (take sizeof_Message bytes)))"

definition disk_ready :: "disk \<Rightarrow> int \<Rightarrow> bool" where
  "disk_ready d i \<longleftrightarrow> folder d \<and> writable d (filename_of i) \<and> readable d (filename_of i)
     \<and> sizeof_Message \<le> room d (filename_of i)"

definition save :: "disk \<Rightarrow> Message \<Rightarrow> disk" where
  "save d m = d\<lparr>files := (files d)(filename_of (msg_id m) := Some (encode_msg m))\<rparr>"

lemma disk_ready_save [simp]: "disk_ready (save d m) i = disk_ready d i"
  by (simp add: disk_ready_def save_def)

lemma stored_save_same:
  "wf_Message m \<Longrightarrow> disk_ready d (msg_id m) \<Longrightarrow> stored (save d m) (msg_id m) = Some m"
  by (simp add: stored_def read_file_def save_def disk_ready_def length_encode_msg)

lemma stored_save_other:
  "in_int i \<Longrightarrow> wf_Message m \<Longrightarrow> i \<noteq> msg_id m \<Longrightarrow> stored (save d m) i = stored d i"
  by (simp add: stored_def read_file_def save_def filename_of_inject wf_Message_def)

lemma wf_stored: "stored d i = Some m \<Longrightarrow> wf_Message m"
  by (auto simp: stored_def intro!: wf_decode_msg split: option.splits if_splits)

text \<open>A disk on which every message file can be written and read, and every message found under an
  identifier carries that identifier, as it does when \<open>store_msg\<close> wrote it.\<close>

definition disk_good :: "disk \<Rightarrow> bool" where
  "disk_good d \<longleftrightarrow> (\<forall>i. in_int i \<longrightarrow> disk_ready d i)
     \<and> (\<forall>i m. in_int i \<longrightarrow> stored d i = Some m \<longrightarrow> msg_id m = i)"

lemma disk_good_ready: "disk_good d \<Longrightarrow> in_int i \<Longrightarrow> disk_ready d i"
  by (simp add: disk_good_def)

lemma disk_good_id: "disk_good d \<Longrightarrow> in_int i \<Longrightarrow> stored d i = Some m \<Longrightarrow> msg_id m = i"
  by (simp add: disk_good_def)

lemma wf_Message_in_int: "wf_Message m \<Longrightarrow> in_int (msg_id m)"
  by (simp add: wf_Message_def)

lemma disk_good_stored_save:
  "disk_good d \<Longrightarrow> wf_Message m \<Longrightarrow> stored (save d m) (msg_id m) = Some m"
  by (simp add: stored_save_same disk_good_ready wf_Message_in_int)

lemma disk_good_save:
  assumes "disk_good d" and "wf_Message m"
  shows "disk_good (save d m)"
proof -
  have "msg_id m' = i" if "in_int i" "stored (save d m) i = Some m'" for i m'
    using that assms disk_good_stored_save [OF assms] stored_save_other [OF that(1) assms(2)]
    by (cases "i = msg_id m") (auto intro: disk_good_id)
  with assms(1) show ?thesis by (simp add: disk_good_def)
qed

interpretation disk: backing_store stored save msg_id disk_good wf_Message in_int
  by unfold_locales
    (auto intro: disk_good_stored_save disk_good_save wf_Message_in_int wf_stored disk_good_id
      simp: stored_save_other)

lemma store_msg_ready:
  "load ms p = Some m \<Longrightarrow> wf_Message m \<Longrightarrow> disk_ready d (msg_id m) \<Longrightarrow>
   store_msg d ms p = Some (0, save d m)"
  by (cases p) (auto simp: store_msg_def write_file_def disk_ready_def save_def length_encode_msg)

lemma retrieve_msg_absent:
  "read_file d (filename_of i) = None \<Longrightarrow> retrieve_msg d ms i = Some (Null, ms)"
  by (simp add: retrieve_msg_def)

lemma retrieve_msg_stored:
  "stored d i = Some m \<Longrightarrow> alloc ms (next_addr ms) = Some junk \<Longrightarrow>
   retrieve_msg d ms i = Some (Addr (next_addr ms),
     ms\<lparr>cells := (cells ms)(next_addr ms := Some m), next_addr := Suc (next_addr ms)\<rparr>)"
  by (auto simp: stored_def retrieve_msg_def malloc_ok split: option.splits if_splits)

lemma retrieve_msg_missing:
  assumes "stored d i = None" and "wf_store ms"
  shows "\<exists>ms'. retrieve_msg d ms i = Some (Null, ms') \<and> cells ms' = cells ms
           \<and> wf_store ms' \<and> alloc ms' = alloc ms \<and> next_addr ms' \<ge> next_addr ms"
proof (cases "read_file d (filename_of i)")
  case None
  with assms show ?thesis by (simp add: retrieve_msg_absent)
next
  case (Some bytes)
  with assms(1) have short: "length bytes < sizeof_Message"
    by (auto simp: stored_def split: if_splits)
  have unmapped: "(cells ms)(next_addr ms := None) = cells ms"
    using assms(2) by (auto simp: fresh_cell)
  show ?thesis
  proof (cases "alloc ms (next_addr ms)")
    case None
    with Some assms(2) show ?thesis
      by (auto simp: retrieve_msg_def malloc_fail wf_store_def less_SucI)
  next
    case (Some junk)
    with \<open>read_file d (filename_of i) = Some bytes\<close> short unmapped assms(2) show ?thesis
      by (auto simp: retrieve_msg_def malloc_ok wf_store_def less_SucI)
  qed
qed

lemma create_msg_ok:
  assumes "alloc ms (next_addr ms) = Some junk" and "wf_Message junk"
    and "in_int i" and "in_int dlv" and "- (2 ^ 63) \<le> now" and "now < 2 ^ 63"
    and "no_nul sndr" and "no_nul rcv" and "no_nul cnt"
  shows "\<exists>m. create_msg ms now i sndr rcv cnt dlv = Some (Addr (next_addr ms),
      ms\<lparr>cells := (cells ms)(next_addr ms := Some m), next_addr := Suc (next_addr ms)\<rparr>)
    \<and> wf_Message m \<and> msg_id m = i \<and> time_sent m = now \<and> delivered m = dlv
    \<and> cstr (sender m) = take 31 sndr \<and> cstr (receiver m) = take 31 rcv
    \<and> cstr (content m) = take 943 cnt"
  using assms cstr_strncpy_terminated [of sndr "sender junk" 31]
    cstr_strncpy_terminated [of rcv "receiver junk" 31]
    cstr_strncpy_terminated [of cnt "content junk" 943]
  by (intro exI [of _ "junk\<lparr>msg_id := i, time_sent := now, delivered := dlv,
      sender := (strncpy (sender junk) sndr 31)[31 := NUL],
      receiver := (strncpy (receiver junk) rcv 31)[31 := NUL],
      content := (strncpy (content junk) cnt 943)[943 := NUL]\<rparr>"])
    (simp add: create_msg_def malloc_ok wf_Message_def put_ok)

section \<open>Sample data\<close>

text \<open>A disk to evaluate the properties on: empty, with everything accessible, then filled with the
  messages \<open>1 .. n\<close>.\<close>

definition sample_msg :: "int \<Rightarrow> Message" where
  "sample_msg i = \<lparr>msg_id = i, pad1 = replicate 4 NUL, time_sent = 0, sender = replicate 32 NUL,
     receiver = replicate 32 NUL, content = replicate 944 NUL, delivered = 0, pad2 = replicate 4 NUL\<rparr>"

definition blank_disk :: disk where
  "blank_disk = \<lparr>folder = True, files = (\<lambda>_. None), writable = (\<lambda>_. True), readable = (\<lambda>_. True),
     room = (\<lambda>_. 1032)\<rparr>"

fun sample_disk :: "nat \<Rightarrow> disk" where
  "sample_disk 0 = blank_disk"
| "sample_disk (Suc n) = save (sample_disk n) (sample_msg (int (Suc n)))"

definition sample_heap :: "Message store" where
  "sample_heap = \<lparr>cells = (\<lambda>a. if a = 0 then Some (sample_msg 7) else None), next_addr = 1,
     alloc = (\<lambda>_. Some (sample_msg 0))\<rparr>"

lemma sample_msg_id [simp]: "msg_id (sample_msg i) = i"
  by (simp add: sample_msg_def)

lemma wf_sample_msg [simp]: "in_int i \<Longrightarrow> wf_Message (sample_msg i)"
  by (simp add: sample_msg_def wf_Message_def in_int_def)

lemma disk_good_blank [simp]: "disk_good blank_disk"
  by (simp add: disk_good_def disk_ready_def stored_def read_file_def blank_disk_def)

lemma sample_disk:
  assumes "int n \<le> INT_MAX"
  shows "disk_good (sample_disk n)" and "1 \<le> k \<Longrightarrow> k \<le> int n \<Longrightarrow> stored (sample_disk n) k = Some (sample_msg k)"
proof -
  have "disk_good (sample_disk n)
    \<and> (\<forall>k. 1 \<le> k \<and> k \<le> int n \<longrightarrow> stored (sample_disk n) k = Some (sample_msg k))"
    using assms
  proof (induction n)
    case 0
    show ?case by auto
  next
    case (Suc n)
    have int: "in_int k" if "1 \<le> k" "k \<le> int (Suc n)" for k
      using that Suc.prems by (simp add: in_int_def)
    then have wf: "wf_Message (sample_msg (int (Suc n)))" by simp
    have good: "disk_good (sample_disk n)" using Suc by simp
    have "stored (sample_disk (Suc n)) k = Some (sample_msg k)" if k: "1 \<le> k" "k \<le> int (Suc n)" for k
      using disk_good_stored_save [OF good wf] stored_save_other [OF int [OF k] wf, of "sample_disk n"]
        Suc k
      by (cases "k = int (Suc n)") auto
    with disk_good_save [OF good wf] show ?case by simp
  qed
  then show "disk_good (sample_disk n)"
    and "1 \<le> k \<Longrightarrow> k \<le> int n \<Longrightarrow> stored (sample_disk n) k = Some (sample_msg k)" by auto
qed

section \<open>Properties\<close>

text \<open>The bytes \<open>fwrite\<close> puts into a message file determine the message: reading the
  struct back from them gives the same field values and padding, and the file has
  \<open>sizeof(Message)\<close> = 1032 bytes, not 1024.\<close>

theorem encode_decode_roundtrip:
  assumes "wf_Message m"
  shows "length (encode_msg m) = sizeof_Message \<and> decode_msg (encode_msg m) = m
    \<and> sizeof_Message = 1032"
  using assms by (simp add: length_encode_msg)

theorem encode_decode_roundtrip_witness:
  "length (encode_msg (sample_msg 7)) = sizeof_Message \<and> decode_msg (encode_msg (sample_msg 7)) = sample_msg 7
    \<and> sizeof_Message = 1032"
  by (rule encode_decode_roundtrip) (simp add: in_int_def)

text \<open>C8: A message that \<open>store_msg\<close> wrote is read back by \<open>retrieve_msg\<close>
  byte for byte into a new object, no other message file and no other live object changes.\<close>

theorem store_then_retrieve:
  assumes "load ms p = Some m" and "wf_Message m" and "disk_ready d (msg_id m)"
    and "alloc ms (next_addr ms) = Some junk" and "wf_store ms"
  shows "\<exists>d' q ms'. store_msg d ms p = Some (0, d')
    \<and> retrieve_msg d' ms (msg_id m) = Some (q, ms') \<and> load ms' q = Some m
    \<and> (\<forall>a \<in> live ms. cells ms' a = cells ms a)
    \<and> (\<forall>i. in_int i \<and> i \<noteq> msg_id m \<longrightarrow> stored d' i = stored d i)"
proof -
  have "stored (save d m) (msg_id m) = Some m"
    using assms(2,3) by (rule stored_save_same)
  then show ?thesis
    using assms store_msg_ready [OF assms(1,2,3)] retrieve_msg_stored [OF _ assms(4)]
    by (auto simp: live_def stored_save_other dest: live_bound)
qed

theorem store_then_retrieve_witness:
  "\<exists>d' q ms'. store_msg blank_disk sample_heap (Addr 0) = Some (0, d')
    \<and> retrieve_msg d' sample_heap (msg_id (sample_msg 7)) = Some (q, ms') \<and> load ms' q = Some (sample_msg 7)
    \<and> (\<forall>a \<in> live sample_heap. cells ms' a = cells sample_heap a)
    \<and> (\<forall>i. in_int i \<and> i \<noteq> msg_id (sample_msg 7) \<longrightarrow> stored d' i = stored blank_disk i)"
  by (rule store_then_retrieve [where junk = "sample_msg 0"])
    (auto simp: sample_heap_def wf_store_def disk_ready_def blank_disk_def in_int_def split: if_splits)

text \<open>\<open>create_msg\<close> fills a new object with the given fields; sender, receiver and
  content are cut to 31, 31 and 943 characters and always NUL-terminated inside their arrays.\<close>

theorem create_msg_fields:
  assumes "alloc ms (next_addr ms) = Some junk" and "wf_Message junk"
    and "in_int i" and "in_int dlv" and "- (2 ^ 63) \<le> now" and "now < 2 ^ 63"
    and "no_nul sndr" and "no_nul rcv" and "no_nul cnt"
  shows "\<exists>p ms' m. create_msg ms now i sndr rcv cnt dlv = Some (p, ms') \<and> p \<noteq> Null
    \<and> load ms' p = Some m \<and> wf_Message m
    \<and> msg_id m = i \<and> time_sent m = now \<and> delivered m = dlv
    \<and> cstr (sender m) = take 31 sndr \<and> cstr (receiver m) = take 31 rcv
    \<and> cstr (content m) = take 943 cnt"
  using create_msg_ok [OF assms] by auto

theorem create_msg_fields_witness:
  "\<exists>p ms' m. create_msg sample_heap 1700000000 7 ''alice'' ''bob'' ''hi'' 0 = Some (p, ms') \<and> p \<noteq> Null
    \<and> load ms' p = Some m \<and> wf_Message m
    \<and> msg_id m = 7 \<and> time_sent m = 1700000000 \<and> delivered m = 0
    \<and> cstr (sender m) = take 31 ''alice'' \<and> cstr (receiver m) = take 31 ''bob''
    \<and> cstr (content m) = take 943 ''hi''"
  by (rule create_msg_fields [where junk = "sample_msg 0"])
    (simp_all add: sample_heap_def in_int_def no_nul_def)

end
