(* ===== verification/Linked_Shape.thy ===== *)
theory Linked_Shape
  imports C_Store
begin

text \<open>
  The shape of a doubly linked list in a store, and how the pointer updates of the queue and of the
  LRU cache change it. The two programs use different node structs; both are modelled as extensions
  of the record \<open>links\<close>, so the shape facts here are proved once for every extension.
\<close>

record links =
  prv :: ptr
  nxt :: ptr

fun first_ptr :: "nat list \<Rightarrow> ptr \<Rightarrow> ptr" where
  "first_ptr [] q = q"
| "first_ptr (a # as) q = Addr a"

fun last_ptr :: "ptr \<Rightarrow> nat list \<Rightarrow> ptr" where
  "last_ptr p [] = p"
| "last_ptr p (a # as) = last_ptr (Addr a) as"

text \<open>\<open>dseg h p as q\<close>: the nodes at the addresses \<open>as\<close> are doubly linked in that order, the first
  has predecessor \<open>p\<close> and the last has successor \<open>q\<close>.\<close>

fun dseg :: "(nat \<Rightarrow> 'a links_scheme option) \<Rightarrow> ptr \<Rightarrow> nat list \<Rightarrow> ptr \<Rightarrow> bool" where
  "dseg h p [] q = True"
| "dseg h p (a # as) q =
     (case h a of
        None \<Rightarrow> False
      | Some n \<Rightarrow> prv n = p \<and> nxt n = first_ptr as q \<and> dseg h (Addr a) as q)"

lemma first_ptr_append [simp]: "first_ptr (as @ bs) q = first_ptr as (first_ptr bs q)"
  by (cases as) auto

lemma last_ptr_append [simp]: "last_ptr p (as @ bs) = last_ptr (last_ptr p as) bs"
  by (induction as arbitrary: p) auto

lemma first_ptr_eq: "first_ptr as q = (if as = [] then q else Addr (hd as))"
  by (cases as) auto

lemma last_ptr_eq: "last_ptr p as = (if as = [] then p else Addr (last as))"
  by (induction as arbitrary: p) auto

lemma dseg_Cons [simp]:
  "dseg h p (a # as) q \<longleftrightarrow>
   (\<exists>n. h a = Some n \<and> prv n = p \<and> nxt n = first_ptr as q \<and> dseg h (Addr a) as q)"
  by (cases "h a") auto

declare dseg.simps(2) [simp del]

lemma dseg_append [shape]:
  "dseg h p (as @ bs) q \<longleftrightarrow> dseg h p as (first_ptr bs q) \<and> dseg h (last_ptr p as) bs q"
  by (induction as arbitrary: p) (auto)

lemma dseg_frame [shape]: "a \<notin> set as \<Longrightarrow> dseg (h(a := v)) p as q = dseg h p as q"
  by (induction as arbitrary: p) (auto)

lemma dseg_live: "dseg h p as q \<Longrightarrow> a \<in> set as \<Longrightarrow> \<exists>n. h a = Some n"
  by (induction as arbitrary: p) (auto)

text \<open>Redirecting the two ends of a segment.\<close>

lemma dseg_set_prv:
  assumes "dseg h p (a # as) q" and "h a = Some n" and "a \<notin> set as"
    and "nxt n' = nxt n" and "prv n' = p'"
  shows "dseg (h(a := Some n')) p' (a # as) q"
  using assms by (simp add: dseg_frame)

lemma dseg_set_nxt:
  assumes "dseg h p (as @ [a]) q" and "h a = Some n" and "a \<notin> set as"
    and "prv n' = prv n" and "nxt n' = q'"
  shows "dseg (h(a := Some n')) p (as @ [a]) q'"
  using assms by (simp add: dseg_append dseg_frame)

text \<open>Updates that keep the links of a node keep the segment.\<close>

lemma dseg_same_links:
  assumes "h a = Some n" and "prv n' = prv n" and "nxt n' = nxt n"
  shows "dseg (h(a := Some n')) p as q = dseg h p as q"
  by (induction as arbitrary: p) (auto simp: assms)

text \<open>The node at a given position, with its neighbours.\<close>

lemma dseg_mid:
  "dseg h p (as @ a # bs) q \<Longrightarrow>
   \<exists>n. h a = Some n \<and> prv n = last_ptr p as \<and> nxt n = first_ptr bs q"
  by (auto simp: dseg_append)

text \<open>Following \<open>nxt\<close> visits exactly the segment: a node belongs to at most one segment between
  two given ends.\<close>

fun walk :: "(nat \<Rightarrow> 'a links_scheme option) \<Rightarrow> nat \<Rightarrow> ptr \<Rightarrow> nat list" where
  "walk h 0 p = []"
| "walk h (Suc n) Null = []"
| "walk h (Suc n) (Addr a) =
     a # (case h a of None \<Rightarrow> [] | Some x \<Rightarrow> walk h n (nxt x))"

lemma walk_dseg: "dseg h p as q \<Longrightarrow> walk h (length as) (first_ptr as q) = as"
proof (induction as arbitrary: p)
  case (Cons a as)
  then obtain n where n: "h a = Some n" "nxt n = first_ptr as q" and d: "dseg h (Addr a) as q"
    by auto
  from Cons.IH [OF d] n show ?case by simp
qed simp

lemma dseg_Null_unique:
  assumes "dseg h p as Null" and "dseg h p' bs Null"
    and "first_ptr as Null = first_ptr bs Null"
  shows "as = bs"
  using assms
proof (induction as arbitrary: p p' bs)
  case Nil
  then show ?case by (cases bs) auto
next
  case (Cons a as)
  then obtain cs where bs: "bs = a # cs" by (cases bs) auto
  with Cons.prems have "dseg h (Addr a) as Null" "dseg h (Addr a) cs Null"
    and "first_ptr as Null = first_ptr cs Null"
    by (auto)
  with bs show ?case by (auto dest: Cons.IH)
qed

lemma dseg_Null_distinct: "dseg h p as Null \<Longrightarrow> distinct as"
proof (induction as arbitrary: p)
  case (Cons a as)
  then obtain n where n: "h a = Some n" "nxt n = first_ptr as Null"
    and d: "dseg h (Addr a) as Null"
    by auto
  have "a \<notin> set as"
  proof
    assume "a \<in> set as"
    then obtain bs cs where as: "as = bs @ a # cs" by (meson split_list)
    with d n have "first_ptr as Null = first_ptr cs Null" "dseg h (Addr a) cs Null"
      by (auto simp: dseg_append)
    with d have "as = cs" by (metis dseg_Null_unique)
    with as show False by simp
  qed
  with d Cons.IH show ?case by auto
qed simp

end
