(* ===== verification/Lru_Cache.thy ===== *)
theory Lru_Cache
  imports Message_Store Linked_Shape
begin

text \<open>
  \<open>practicum1/cache.h\<close>, \<open>practicum1/cache.c\<close>: the LRU cache as the program has it. Nodes are
  heap objects linked in a doubly linked list between the dummy nodes \<open>head\<close> and \<open>tail\<close>, from the
  least to the most recently used; the open-addressing table \<open>hash_table\<close> of \<open>HASH_SIZE\<close> pointers finds
  the node of a key by linear probing. The file-scope variables of \<open>cache.c\<close>, the heap and the disk
  form the record \<open>cache\<close>; every function takes it and returns it updated.
\<close>

section \<open>State\<close>

definition CACHE_CAPACITY :: int where "CACHE_CAPACITY = 16"
definition HASH_SIZE :: int where "HASH_SIZE = 103"

record LRUNode = links +
  key :: int
  "value" :: ptr

record CacheStats =
  hits :: int
  misses :: int

record cache =
  nodes :: "LRUNode store"
  msgs :: "Message store"
  dsk :: disk
  head :: ptr
  tail :: ptr
  current_size :: int
  hash_table :: "ptr list"
  stats :: CacheStats

text \<open>The remainder of C keeps the sign of the dividend.\<close>

definition hash :: "int \<Rightarrow> int" where
  "hash k = k smod HASH_SIZE"

definition tab_get :: "ptr list \<Rightarrow> int \<Rightarrow> ptr c" where
  "tab_get ht h = (if 0 \<le> h \<and> h < int (length ht) then Some (ht ! nat h) else None)"

definition tab_set :: "ptr list \<Rightarrow> int \<Rightarrow> ptr \<Rightarrow> ptr list c" where
  "tab_set ht h p = (if 0 \<le> h \<and> h < int (length ht) then Some (ht[nat h := p]) else None)"

section \<open>The list\<close>

definition init_cache :: "cache \<Rightarrow> cache c" where
  "init_cache s = do {
     let (h, ns) = malloc (nodes s);
     let (t, ns) = malloc ns;
     ns \<leftarrow> assign ns h (\<lambda>n. n\<lparr>nxt := t\<rparr>);
     ns \<leftarrow> assign ns t (\<lambda>n. n\<lparr>prv := h\<rparr>);
     Some (s\<lparr>nodes := ns, head := h, tail := t, current_size := 0,
             stats := \<lparr>hits = 0, misses = 0\<rparr>,
             hash_table := replicate (nat HASH_SIZE) Null\<rparr>)
   }"

definition remove_node :: "LRUNode store \<Rightarrow> ptr \<Rightarrow> LRUNode store c" where
  "remove_node ns node = do {
     n \<leftarrow> load ns node;
     ns \<leftarrow> assign ns (prv n) (\<lambda>m. m\<lparr>nxt := nxt n\<rparr>);
     n \<leftarrow> load ns node;
     assign ns (nxt n) (\<lambda>m. m\<lparr>prv := prv n\<rparr>)
   }"

definition add_node_to_tail :: "LRUNode store \<Rightarrow> ptr \<Rightarrow> ptr \<Rightarrow> LRUNode store c" where
  "add_node_to_tail ns tail_p node = do {
     t \<leftarrow> load ns tail_p;
     let prev_last = prv t;
     ns \<leftarrow> assign ns prev_last (\<lambda>m. m\<lparr>nxt := node\<rparr>);
     ns \<leftarrow> assign ns node (\<lambda>m. m\<lparr>prv := prev_last\<rparr>);
     ns \<leftarrow> assign ns node (\<lambda>m. m\<lparr>nxt := tail_p\<rparr>);
     assign ns tail_p (\<lambda>m. m\<lparr>prv := node\<rparr>)
   }"

section \<open>Probing\<close>

text \<open>\<open>while (hash_table[h] && hash_table[h]->key != k) h = (h + 1) % HASH_SIZE;\<close>\<close>

partial_function (option) probe :: "LRUNode store \<Rightarrow> ptr list \<Rightarrow> int \<Rightarrow> int \<Rightarrow> int c" where
  "probe ns ht k h = do {
     p \<leftarrow> tab_get ht h;
     (if p = Null then Some h
      else do {
        n \<leftarrow> load ns p;
        (if key n \<noteq> k then probe ns ht k ((h + 1) smod HASH_SIZE) else Some h)
      })
   }"

text \<open>\<open>while (hash_table[h]) h = (h + 1) % HASH_SIZE;\<close>\<close>

partial_function (option) probe_free :: "ptr list \<Rightarrow> int \<Rightarrow> int c" where
  "probe_free ht h = do {
     p \<leftarrow> tab_get ht h;
     (if p \<noteq> Null then probe_free ht ((h + 1) smod HASH_SIZE) else Some h)
   }"

declare probe.simps [code] and probe_free.simps [code]

section \<open>Eviction, insertion, lookup\<close>

definition evict_if_needed :: "cache \<Rightarrow> cache c" where
  "evict_if_needed s =
     (if current_size s < CACHE_CAPACITY then Some s
      else do {
        hn \<leftarrow> load (nodes s) (head s);
        let lru = nxt hn;
        (if lru = tail s then Some s
         else do {
           ns \<leftarrow> remove_node (nodes s) lru;
           n \<leftarrow> load ns lru;
           h \<leftarrow> probe ns (hash_table s) (key n) (hash (key n));
           ht \<leftarrow> tab_set (hash_table s) h Null;
           ms \<leftarrow> (if value n \<noteq> Null then free (msgs s) (value n) else Some (msgs s));
           ns \<leftarrow> free ns lru;
           sz \<leftarrow> c_decr (current_size s);
           Some (s\<lparr>nodes := ns, msgs := ms, hash_table := ht, current_size := sz\<rparr>)
         })
      })"

definition update_existing :: "cache \<Rightarrow> ptr \<Rightarrow> ptr \<Rightarrow> cache c" where
  "update_existing s node p = do {
     n \<leftarrow> load (nodes s) node;
     m \<leftarrow> load (msgs s) p;
     ms \<leftarrow> assign (msgs s) (value n) (\<lambda>_. m);
     ns \<leftarrow> remove_node (nodes s) node;
     ns \<leftarrow> add_node_to_tail ns (tail s) node;
     Some (s\<lparr>nodes := ns, msgs := ms\<rparr>)
   }"

definition insert_new :: "cache \<Rightarrow> int \<Rightarrow> ptr \<Rightarrow> cache c" where
  "insert_new s h p = do {
     s \<leftarrow> evict_if_needed s;
     let (new_msg, ms) = malloc (msgs s);
     m \<leftarrow> load ms p;
     ms \<leftarrow> assign ms new_msg (\<lambda>_. m);
     let (new_node, ns) = malloc (nodes s);
     ns \<leftarrow> assign ns new_node (\<lambda>n. n\<lparr>key := msg_id m\<rparr>);
     ns \<leftarrow> assign ns new_node (\<lambda>n. n\<lparr>value := new_msg\<rparr>);
     ns \<leftarrow> add_node_to_tail ns (tail s) new_node;
     h \<leftarrow> probe_free (hash_table s) h;
     ht \<leftarrow> tab_set (hash_table s) h new_node;
     sz \<leftarrow> c_incr (current_size s);
     Some (s\<lparr>nodes := ns, msgs := ms, hash_table := ht, current_size := sz\<rparr>)
   }"

definition put_msg :: "cache \<Rightarrow> ptr \<Rightarrow> cache c" where
  "put_msg s p = do {
     m \<leftarrow> load (msgs s) p;
     h \<leftarrow> probe (nodes s) (hash_table s) (msg_id m) (hash (msg_id m));
     node \<leftarrow> tab_get (hash_table s) h;
     s \<leftarrow> (if node \<noteq> Null then update_existing s node p else insert_new s h p);
     (_, d) \<leftarrow> store_msg (dsk s) (msgs s) p;
     Some (s\<lparr>dsk := d\<rparr>)
   }"

definition get_msg_from_cache_or_disk :: "cache \<Rightarrow> int \<Rightarrow> (ptr \<times> cache) c" where
  "get_msg_from_cache_or_disk s k = do {
     h \<leftarrow> probe (nodes s) (hash_table s) k (hash k);
     node \<leftarrow> tab_get (hash_table s) h;
     hit \<leftarrow> (if node = Null then Some False else do { n \<leftarrow> load (nodes s) node; Some (key n = k) });
     (if hit
      then do {
        c \<leftarrow> c_incr (hits (stats s));
        let s = s\<lparr>stats := (stats s)\<lparr>hits := c\<rparr>\<rparr>;
        ns \<leftarrow> remove_node (nodes s) node;
        ns \<leftarrow> add_node_to_tail ns (tail s) node;
        n \<leftarrow> load ns node;
        Some (value n, s\<lparr>nodes := ns\<rparr>)
      }
      else do {
        c \<leftarrow> c_incr (misses (stats s));
        let s = s\<lparr>stats := (stats s)\<lparr>misses := c\<rparr>\<rparr>;
        (msg, ms) \<leftarrow> retrieve_msg (dsk s) (msgs s) k;
        let s = s\<lparr>msgs := ms\<rparr>;
        (if msg = Null then Some (Null, s)
         else do { s \<leftarrow> put_msg s msg; Some (msg, s) })
      })
   }"

section \<open>The evaluation run\<close>

text \<open>The loop of \<open>test_cache\<close>; the list holds the results of the calls of \<open>rand()\<close>.\<close>

fun test_accesses :: "cache \<Rightarrow> int \<Rightarrow> int list \<Rightarrow> cache c" where
  "test_accesses s num_messages [] = Some s"
| "test_accesses s num_messages (r # rs) = do {
     x \<leftarrow> c_rem r num_messages;
     i \<leftarrow> c_incr x;
     (_, s) \<leftarrow> get_msg_from_cache_or_disk s i;
     test_accesses s num_messages rs
   }"

text \<open>\<open>rand n\<close> is the result of the \<open>n\<close>-th call of \<open>rand()\<close>.\<close>

definition test_cache :: "cache \<Rightarrow> int \<Rightarrow> int \<Rightarrow> (nat \<Rightarrow> int) \<Rightarrow> (CacheStats \<times> cache) c" where
  "test_cache s total_accesses num_messages rand = do {
     let s = s\<lparr>stats := \<lparr>hits = 0, misses = 0\<rparr>\<rparr>;
     s \<leftarrow> test_accesses s num_messages (map rand [0 ..< nat total_accesses]);
     Some (stats s, s)
   }"

end
