(* ===== verification/Lru_Links.thy ===== *)
theory Lru_Links
  imports Lru_Cache
begin

text \<open>
  The pointer operations of \<open>cache.c\<close> on a well-formed list: \<open>remove_node\<close> takes a node out of the list,
  \<open>add_node_to_tail\<close> links a node in before the dummy \<open>tail\<close>, and neither changes the key and the message
  pointer of any node. Probing finds a key whose home slot is free or holds it.
\<close>

definition payload :: "LRUNode store \<Rightarrow> nat \<Rightarrow> (int \<times> ptr) option" where
  "payload ns a = map_option (\<lambda>n. (key n, value n)) (cells ns a)"

text \<open>Two node stores that differ in links only.\<close>

definition relinked :: "LRUNode store \<Rightarrow> LRUNode store \<Rightarrow> bool" where
  "relinked ns ns' \<longleftrightarrow> payload ns' = payload ns \<and> next_addr ns' = next_addr ns \<and> alloc ns' = alloc ns"

lemma relinkedI:
  "(\<And>a. payload ns' a = payload ns a) \<Longrightarrow> next_addr ns' = next_addr ns \<Longrightarrow> alloc ns' = alloc ns \<Longrightarrow>
   relinked ns ns'"
  by (auto simp: relinked_def)

lemma relinked_refl [simp]: "relinked ns ns"
  by (simp add: relinked_def)

lemma relinked_trans: "relinked ns ns' \<Longrightarrow> relinked ns' ns'' \<Longrightarrow> relinked ns ns''"
  by (simp add: relinked_def)

lemma relinked_wf: "relinked ns ns' \<Longrightarrow> wf_store ns \<Longrightarrow> wf_store ns'"
proof -
  assume r: "relinked ns ns'" and wf: "wf_store ns"
  have "\<exists>y. cells ns a = Some y" if "cells ns' a = Some x" for a x
    using r that by (cases "cells ns a") (auto simp: relinked_def payload_def fun_eq_iff dest!: spec [of _ a])
  with r wf show "wf_store ns'" by (fastforce simp: wf_store_def relinked_def)
qed

lemma relinked_payload: "relinked ns ns' \<Longrightarrow> payload ns' a = payload ns a"
  by (simp add: relinked_def)

lemma payload_Some: "payload ns a = Some (k, v) \<longleftrightarrow> (\<exists>n. cells ns a = Some n \<and> key n = k \<and> value n = v)"
  by (auto simp: payload_def)

lemma payload_None: "payload ns a = None \<longleftrightarrow> cells ns a = None"
  by (simp add: payload_def)

lemma relinked_live: "relinked ns ns' \<Longrightarrow> live ns' = live ns"
proof -
  assume r: "relinked ns ns'"
  have "cells ns' a = None \<longleftrightarrow> cells ns a = None" for a
    using relinked_payload [OF r, of a] by (simp flip: payload_None)
  then show ?thesis by (auto simp: live_def dom_def)
qed

text \<open>Probing reads keys only, so it does not see a relinking.\<close>

lemma probe_mono:
  assumes "probe ns ht k h = Some r" and "payload ns' = payload ns"
  shows "probe ns' ht k h = Some r"
proof -
  have "payload ns' = payload ns \<longrightarrow> probe ns' ht k h = Some r"
  proof (rule probe.raw_induct [where P = "\<lambda>ns ht k h r. payload ns' = payload ns \<longrightarrow>
      probe ns' ht k h = Some r", OF _ assms(1)])
    fix f ns ht k h r
    assume IH: "\<And>ns ht k h r. f ns ht k h = Some r \<Longrightarrow>
        payload ns' = payload ns \<longrightarrow> probe ns' ht k h = Some r"
      and eq: "tab_get ht h \<bind> (\<lambda>p. if p = Null then Some h
        else load ns p \<bind> (\<lambda>n. if key n \<noteq> k then f ns ht k ((h + 1) smod HASH_SIZE) else Some h))
        = Some r"
    show "payload ns' = payload ns \<longrightarrow> probe ns' ht k h = Some r"
    proof
      assume pay: "payload ns' = payload ns"
      obtain q where q: "tab_get ht h = Some q" using eq by (auto elim: bind_Some_E)
      show "probe ns' ht k h = Some r"
      proof (cases q)
        case Null
        with q eq show ?thesis by (simp add: probe.simps)
      next
        case (Addr a)
        with q eq obtain n where n: "cells ns a = Some n" by (auto elim: bind_Some_E)
        then have "payload ns' a = Some (key n, value n)" using pay by (simp add: payload_def)
        then obtain n' where "cells ns' a = Some n'" "key n' = key n" by (auto simp: payload_Some)
        with q eq n Addr IH [of ns ht k "(h + 1) smod HASH_SIZE" r] pay show ?thesis
          by (simp add: probe.simps [of ns' ht k h] split: if_splits)
      qed
    qed
  qed
  with assms(2) show ?thesis by blast
qed

lemma probe_relinked: "relinked ns ns' \<Longrightarrow> probe ns' ht k h = probe ns ht k h"
  using probe_mono [of ns ht k h _ ns'] probe_mono [of ns' ht k h _ ns]
  by (cases "probe ns ht k h"; cases "probe ns' ht k h") (auto simp: relinked_def)

lemma remove_node_dseg:
  assumes "dseg (cells ns) p (xs @ b # a # c # ys) q" and "distinct (xs @ b # a # c # ys)"
  shows "\<exists>ns'. remove_node ns (Addr a) = Some ns' \<and> dseg (cells ns') p (xs @ b # c # ys) q
    \<and> relinked ns ns'"
proof -
  obtain nb na nc where cs: "cells ns b = Some nb" "cells ns a = Some na" "cells ns c = Some nc"
    and l: "prv na = Addr b" "nxt na = Addr c"
    using assms(1) by (auto simp: dseg_append)
  define ns' where "ns' = ns\<lparr>cells := (cells ns)(b := Some (nb\<lparr>nxt := Addr c\<rparr>),
      c := Some (nc\<lparr>prv := Addr b\<rparr>))\<rparr>"
  have ne: "a \<noteq> b" "a \<noteq> c" "b \<noteq> c" using assms(2) by auto
  have "remove_node ns (Addr a) = Some ns'"
    using cs l ne by (simp add: remove_node_def ns'_def)
  moreover have "dseg (cells ns') p (xs @ b # c # ys) q"
    using assms cs by (auto simp: ns'_def dseg_append dseg_frame)
  moreover have "relinked ns ns'"
    using cs ne by (intro relinkedI) (auto simp: ns'_def payload_def)
  ultimately show ?thesis by blast
qed

lemma add_node_to_tail_dseg:
  assumes "dseg (cells ns) p (xs @ [b, t]) q" and "distinct (xs @ [b, a, t])"
    and "cells ns a = Some na"
  shows "\<exists>ns'. add_node_to_tail ns (Addr t) (Addr a) = Some ns'
    \<and> dseg (cells ns') p (xs @ [b, a, t]) q \<and> relinked ns ns'"
proof -
  obtain nb nt where cs: "cells ns b = Some nb" "cells ns t = Some nt" and l: "prv nt = Addr b"
    using assms(1) by (auto simp: dseg_append)
  define ns' where "ns' = ns\<lparr>cells := (cells ns)(b := Some (nb\<lparr>nxt := Addr a\<rparr>),
      a := Some (na\<lparr>prv := Addr b, nxt := Addr t\<rparr>), t := Some (nt\<lparr>prv := Addr a\<rparr>))\<rparr>"
  have ne: "a \<noteq> b" "a \<noteq> t" "b \<noteq> t" using assms(2) by auto
  have "add_node_to_tail ns (Addr t) (Addr a) = Some ns'"
    using cs l ne assms(3) by (simp add: add_node_to_tail_def ns'_def)
  moreover have "dseg (cells ns') p (xs @ [b, a, t]) q"
    using assms cs by (auto simp: ns'_def dseg_append dseg_frame)
  moreover have "relinked ns ns'"
    using cs ne assms(3) by (intro relinkedI) (auto simp: ns'_def payload_def)
  ultimately show ?thesis by blast
qed

text \<open>The two together: a node moves to the most recently used position.\<close>

lemma move_to_tail_dseg:
  assumes "dseg (cells ns) p (h # xs @ a # ys @ [t]) q" and "distinct (h # xs @ a # ys @ [t])"
  shows "\<exists>ns1 ns2. remove_node ns (Addr a) = Some ns1
    \<and> add_node_to_tail ns1 (Addr t) (Addr a) = Some ns2
    \<and> dseg (cells ns2) p (h # xs @ ys @ [a, t]) q \<and> relinked ns ns2"
proof -
  define zs b where "zs = butlast (h # xs)" and "b = last (h # xs)"
  have hx: "h # xs = zs @ [b]" by (simp add: zs_def b_def)
  define c us where "c = hd (ys @ [t])" and "us = tl (ys @ [t])"
  have yt: "ys @ [t] = c # us" by (simp add: c_def us_def)
  define vs d where "vs = butlast (h # xs @ ys)" and "d = last (h # xs @ ys)"
  have vd: "h # xs @ ys = vs @ [d]" by (simp add: vs_def d_def)
  have split: "h # xs @ a # ys @ [t] = zs @ b # a # c # us"
    using hx yt by (metis append_Cons append_assoc append_Nil)
  have joined: "zs @ b # c # us = vs @ [d, t]"
    using hx yt vd by (metis append_Cons append_assoc append_Nil)
  obtain ns1 where ns1: "remove_node ns (Addr a) = Some ns1"
    "dseg (cells ns1) p (vs @ [d, t]) q" "relinked ns ns1"
    using remove_node_dseg [of ns p zs b a c us q] assms split joined by auto
  obtain na where "cells ns a = Some na" using assms(1) by (auto simp: dseg_append)
  then obtain na' where na': "cells ns1 a = Some na'"
    using relinked_payload [OF ns1(3), of a] by (auto simp: payload_def)
  have "distinct (vs @ [d, a, t])"
    using assms(2) arg_cong [OF vd, of set] arg_cong [OF vd, of distinct] by auto
  then obtain ns2 where ns2: "add_node_to_tail ns1 (Addr t) (Addr a) = Some ns2"
    "dseg (cells ns2) p (vs @ [d, a, t]) q" "relinked ns1 ns2"
    using add_node_to_tail_dseg [OF ns1(2) _ na'] by blast
  have "vs @ [d, a, t] = h # xs @ ys @ [a, t]"
    using arg_cong [OF vd, of "\<lambda>l. l @ [a, t]"] by simp
  with ns1(1) ns2(1,2) relinked_trans [OF ns1(3) ns2(3)] show ?thesis by auto
qed

end
