(* ===== verification/Lru_Invariant.thy ===== *)
theory Lru_Invariant
  imports Lru_Links
begin

text \<open>
  The representation invariant of the LRU cache. An entry is a triple of the address of the node, the
  key and the address of the cached message. \<open>list_rel s es\<close> says that the entries \<open>es\<close>, from least to
  most recently used, are what the list and the heap of \<open>s\<close> hold, and that no other node is live; it
  says nothing about the table. \<open>cache_rel s es\<close> adds that no two entries share a home slot and that
  the table is exact: this is the invariant the operations keep while the cached keys do not collide.
\<close>

type_synonym entry = "nat \<times> int \<times> nat"

abbreviation e_node :: "entry \<Rightarrow> nat" where "e_node e \<equiv> fst e"
abbreviation e_key :: "entry \<Rightarrow> int" where "e_key e \<equiv> fst (snd e)"
abbreviation e_msg :: "entry \<Rightarrow> nat" where "e_msg e \<equiv> snd (snd e)"

section \<open>The table\<close>

definition slot :: "entry list \<Rightarrow> int \<Rightarrow> ptr" where
  "slot es i = (case map_of (map (\<lambda>e. (hash (e_key e), e_node e)) es) i of
                  None \<Rightarrow> Null | Some a \<Rightarrow> Addr a)"

definition table_of :: "entry list \<Rightarrow> ptr list" where
  "table_of es = map (\<lambda>i. slot es (int i)) [0 ..< nat HASH_SIZE]"

definition hashes :: "entry list \<Rightarrow> int list" where
  "hashes es = map (\<lambda>e. hash (e_key e)) es"

lemma hashes_simps [simp]:
  "hashes [] = []" "hashes (e # es) = hash (e_key e) # hashes es"
  "hashes (es @ es') = hashes es @ hashes es'"
  by (auto simp: hashes_def)

lemma hash_range: "0 \<le> k \<Longrightarrow> 0 \<le> hash k \<and> hash k < HASH_SIZE"
  by (simp add: hash_def HASH_SIZE_def smod_mod_positive)

lemma hash_small: "0 \<le> k \<Longrightarrow> k < HASH_SIZE \<Longrightarrow> hash k = k"
  by (simp add: hash_def HASH_SIZE_def smod_mod_positive)

lemma length_table_of [simp]: "length (table_of es) = nat HASH_SIZE"
  by (simp add: table_of_def)

lemma tab_get_table_of: "0 \<le> h \<Longrightarrow> h < HASH_SIZE \<Longrightarrow> tab_get (table_of es) h = Some (slot es h)"
  by (auto simp: tab_get_def table_of_def nat_less_iff)

lemma slot_empty [simp]: "slot [] h = Null"
  by (simp add: slot_def)

lemma table_of_empty: "table_of [] = replicate (nat HASH_SIZE) Null"
  by (simp add: table_of_def map_replicate_trivial map_replicate_const)

lemma slot_None: "h \<notin> set (hashes es) \<Longrightarrow> slot es h = Null"
proof -
  assume "h \<notin> set (hashes es)"
  then have "map_of (map (\<lambda>e. (hash (e_key e), e_node e)) es) h = None"
    by (simp add: map_of_eq_None_iff hashes_def image_image)
  then show ?thesis by (simp add: slot_def)
qed

lemma slot_mem: "distinct (hashes es) \<Longrightarrow> e \<in> set es \<Longrightarrow> slot es (hash (e_key e)) = Addr (e_node e)"
proof -
  assume "distinct (hashes es)" and "e \<in> set es"
  then have "map_of (map (\<lambda>e. (hash (e_key e), e_node e)) es) (hash (e_key e)) = Some (e_node e)"
    by (intro map_of_is_SomeI) (auto simp: hashes_def comp_def)
  then show ?thesis by (simp add: slot_def)
qed

lemma slot_perm:
  assumes "distinct (hashes es)" and "distinct (hashes es')" and "set es = set es'"
  shows "slot es = slot es'"
proof -
  let ?f = "\<lambda>e::entry. (hash (e_key e), e_node e)"
  have "map_of (map ?f es) = map_of (map ?f es')"
    using assms by (subst map_of_inject_set) (auto simp: hashes_def comp_def)
  then show ?thesis by (simp add: slot_def fun_eq_iff)
qed

lemma table_of_perm:
  "distinct (hashes es) \<Longrightarrow> distinct (hashes es') \<Longrightarrow> set es = set es' \<Longrightarrow> table_of es = table_of es'"
  by (simp add: table_of_def slot_perm [of es es'])

lemma slot_Cons: "slot (e # es) h = (if h = hash (e_key e) then Addr (e_node e) else slot es h)"
  by (simp add: slot_def)

lemma table_of_upd:
  assumes "0 \<le> h" and "h < HASH_SIZE" and "\<And>i. i \<noteq> h \<Longrightarrow> slot es' i = slot es i" and "slot es' h = p"
  shows "tab_set (table_of es) h p = Some (table_of es')"
proof -
  have "(table_of es)[nat h := p] ! i = table_of es' ! i" if "i < nat HASH_SIZE" for i
    using that assms by (cases "int i = h") (auto simp: table_of_def)
  then have "(table_of es)[nat h := p] = table_of es'" by (intro nth_equalityI) auto
  with assms(1,2) show ?thesis by (simp add: tab_set_def)
qed

lemma table_of_remove:
  assumes "distinct (hashes (e # es))" and "0 \<le> e_key e"
  shows "tab_set (table_of (e # es)) (hash (e_key e)) Null = Some (table_of es)"
  using hash_range [OF assms(2)] assms(1) by (intro table_of_upd) (auto simp: slot_Cons slot_None)

lemma table_of_add:
  assumes "distinct (hashes (es @ [e]))" and "0 \<le> e_key e"
  shows "tab_set (table_of es) (hash (e_key e)) (Addr (e_node e)) = Some (table_of (es @ [e]))"
proof -
  have perm: "slot (es @ [e]) = slot (e # es)"
    using assms(1) by (intro slot_perm) auto
  show ?thesis
    using hash_range [OF assms(2)] by (intro table_of_upd) (auto simp: perm slot_Cons)
qed

section \<open>The invariant\<close>

definition list_rel :: "cache \<Rightarrow> entry list \<Rightarrow> bool" where
  "list_rel s es \<longleftrightarrow>
     (\<exists>p q h t. head s = Addr h \<and> tail s = Addr t
        \<and> dseg (cells (nodes s)) p (h # map e_node es @ [t]) q
        \<and> distinct (h # map e_node es @ [t])
        \<and> live (nodes s) = set (h # map e_node es @ [t]))
   \<and> (\<forall>e \<in> set es. payload (nodes s) (e_node e) = Some (e_key e, Addr (e_msg e))
        \<and> 0 \<le> e_key e
        \<and> (\<exists>m. cells (msgs s) (e_msg e) = Some m \<and> msg_id m = e_key e \<and> wf_Message m))
   \<and> distinct (map e_msg es)
   \<and> current_size s = int (length es) \<and> int (length es) \<le> CACHE_CAPACITY
   \<and> wf_store (nodes s) \<and> wf_store (msgs s)"

definition cache_rel :: "cache \<Rightarrow> entry list \<Rightarrow> bool" where
  "cache_rel s es \<longleftrightarrow> list_rel s es \<and> distinct (hashes es) \<and> hash_table s = table_of es"

definition contents :: "cache \<Rightarrow> entry list \<Rightarrow> Message lru" where
  "contents s es = map (\<lambda>e. (e_key e, the (cells (msgs s) (e_msg e)))) es"

text \<open>The cache and its recency list.\<close>

definition cache_abs :: "cache \<Rightarrow> Message lru \<Rightarrow> bool" where
  "cache_abs s kvs \<longleftrightarrow> (\<exists>es. cache_rel s es \<and> kvs = contents s es)"

text \<open>The key \<open>k\<close> collides with no other cached key.\<close>

definition no_clash :: "int \<Rightarrow> int list \<Rightarrow> bool" where
  "no_clash k ks \<longleftrightarrow> (\<forall>k' \<in> set ks. hash k' = hash k \<longrightarrow> k' = k)"

text \<open>\<open>malloc\<close> does not fail.\<close>

definition mem_ok :: "cache \<Rightarrow> bool" where
  "mem_ok s \<longleftrightarrow> (\<forall>n. alloc (nodes s) n \<noteq> None) \<and> (\<forall>n. alloc (msgs s) n \<noteq> None)"

lemma list_relE:
  assumes "list_rel s es"
  obtains p q h t where "head s = Addr h" "tail s = Addr t"
    "dseg (cells (nodes s)) p (h # map e_node es @ [t]) q"
    "distinct (h # map e_node es @ [t])" "live (nodes s) = set (h # map e_node es @ [t])"
  using assms unfolding list_rel_def by blast

lemma list_rel_entry:
  assumes "list_rel s es" and "e \<in> set es"
  shows "payload (nodes s) (e_node e) = Some (e_key e, Addr (e_msg e))" and "0 \<le> e_key e"
    and "\<exists>m. cells (msgs s) (e_msg e) = Some m \<and> msg_id m = e_key e \<and> wf_Message m"
  using assms unfolding list_rel_def by blast+

lemma list_rel_facts:
  assumes "list_rel s es"
  shows "distinct (map e_msg es)"
    and "current_size s = int (length es)" and "int (length es) \<le> CACHE_CAPACITY"
    and "wf_store (nodes s)" and "wf_store (msgs s)"
  using assms unfolding list_rel_def by blast+

lemma cache_relD:
  assumes "cache_rel s es"
  shows "list_rel s es" and "distinct (hashes es)" and "hash_table s = table_of es"
  using assms unfolding cache_rel_def by blast+

lemmas cache_rel_entry = list_rel_entry [OF cache_relD(1)]
lemmas cache_rel_facts = list_rel_facts [OF cache_relD(1)]

lemma lru_keys_contents [simp]: "lru_keys (contents s es) = map e_key es"
  by (simp add: lru_keys_def contents_def comp_def)

lemma length_contents [simp]: "length (contents s es) = length es"
  by (simp add: contents_def)

lemma contents_simps [simp]:
  "contents s [] = []" "contents s (es @ es') = contents s es @ contents s es'"
  "contents s (e # es) = (e_key e, the (cells (msgs s) (e_msg e))) # contents s es"
  by (auto simp: contents_def)

lemma cache_rel_distinct_keys: "cache_rel s es \<Longrightarrow> distinct (map e_key es)"
  using cache_relD(2) [of s es] by (auto simp: hashes_def distinct_map inj_on_def)

section \<open>Probing\<close>

lemma probe_home:
  assumes "cache_rel s es" and "0 \<le> k" and "no_clash k (map e_key es)"
  shows "probe (nodes s) (hash_table s) k (hash k) = Some (hash k)"
    and "tab_get (hash_table s) (hash k) = Some (slot es (hash k))"
proof -
  show get: "tab_get (hash_table s) (hash k) = Some (slot es (hash k))"
    using assms(2) cache_relD(3) [OF assms(1)] hash_range tab_get_table_of by simp
  show "probe (nodes s) (hash_table s) k (hash k) = Some (hash k)"
  proof (cases "hash k \<in> set (hashes es)")
    case True
    then obtain e where e: "e \<in> set es" "hash (e_key e) = hash k" by (auto simp: hashes_def)
    with assms(3) have k: "e_key e = k" by (auto simp: no_clash_def)
    obtain n where "cells (nodes s) (e_node e) = Some n" "key n = e_key e"
      using cache_rel_entry(1) [OF assms(1) e(1)] by (auto simp: payload_Some)
    then show ?thesis
      using get slot_mem [OF cache_relD(2) [OF assms(1)] e(1)] k
      by (simp add: probe.simps)
  next
    case False
    then show ?thesis using get by (simp add: probe.simps slot_None)
  qed
qed

lemma slot_absent:
  "no_clash k (map e_key es) \<Longrightarrow> k \<notin> set (map e_key es) \<Longrightarrow> slot es (hash k) = Null"
  by (rule slot_None) (auto simp: no_clash_def hashes_def)

lemma slot_present:
  "cache_rel s es \<Longrightarrow> e \<in> set es \<Longrightarrow> slot es (hash (e_key e)) = Addr (e_node e)"
  by (blast intro: slot_mem cache_relD)

end
