(* ===== verification/Lru_Refine.thy ===== *)
theory Lru_Refine
  imports Lru_Invariant
begin

text \<open>
  The operations of \<open>cache.c\<close> implement the recency list of \<open>Lru_Spec\<close>: under the invariant, and as
  long as the key at hand does not collide with another cached key, every operation is defined, keeps
  the invariant, and changes the entries as \<open>spec_put\<close> and \<open>spec_get\<close> say.
\<close>

named_theorems cache_frame \<open>state changes the invariant does not see\<close>

lemma cache_rel_frame [simp, cache_frame]:
  "list_rel (s\<lparr>stats := st\<rparr>) es = list_rel s es"
  "list_rel (s\<lparr>dsk := d\<rparr>) es = list_rel s es"
  "list_rel (s\<lparr>hash_table := ht\<rparr>) es = list_rel s es"
  "cache_rel (s\<lparr>stats := st\<rparr>) es = cache_rel s es"
  "cache_rel (s\<lparr>dsk := d\<rparr>) es = cache_rel s es"
  "contents (s\<lparr>stats := st\<rparr>) es = contents s es"
  "contents (s\<lparr>dsk := d\<rparr>) es = contents s es"
  "contents (s\<lparr>nodes := ns\<rparr>) es = contents s es"
  "mem_ok (s\<lparr>stats := st\<rparr>) = mem_ok s"
  "mem_ok (s\<lparr>dsk := d\<rparr>) = mem_ok s"
  by (simp_all add: cache_rel_def list_rel_def contents_def mem_ok_def)

lemma mem_okE:
  assumes "mem_ok s"
  obtains jn jm where "alloc (nodes s) n = Some jn" "alloc (msgs s) m = Some jm"
  using assms unfolding mem_ok_def by blast

section \<open>Initialisation\<close>

definition fresh_heap :: "cache \<Rightarrow> bool" where
  "fresh_heap s \<longleftrightarrow> mem_ok s \<and> live (nodes s) = {} \<and> wf_store (nodes s) \<and> wf_store (msgs s)"

lemma init_cache_rel:
  assumes "fresh_heap s"
  shows "\<exists>s'. init_cache s = Some s' \<and> cache_rel s' [] \<and> mem_ok s' \<and> msgs s' = msgs s
    \<and> head s' = Addr (next_addr (nodes s)) \<and> tail s' = Addr (Suc (next_addr (nodes s)))
    \<and> next_addr (nodes s') = Suc (Suc (next_addr (nodes s)))
    \<and> dsk s' = dsk s \<and> stats s' = \<lparr>hits = 0, misses = 0\<rparr>"
proof -
  let ?a = "next_addr (nodes s)"
  obtain j1 j2 where j: "alloc (nodes s) ?a = Some j1" "alloc (nodes s) (Suc ?a) = Some j2"
    using assms(1) unfolding fresh_heap_def mem_ok_def by blast
  show ?thesis
    using assms j
    by (auto simp: init_cache_def malloc_ok cache_rel_def list_rel_def table_of_empty mem_ok_def
        fresh_heap_def CACHE_CAPACITY_def wf_store_def less_SucI live_def)
qed

section \<open>Moving an entry to the most recently used position\<close>

lemma move_to_tail_list:
  assumes "list_rel s (xs @ e # ys)"
  shows "\<exists>ns1 ns2. remove_node (nodes s) (Addr (e_node e)) = Some ns1
    \<and> add_node_to_tail ns1 (tail s) (Addr (e_node e)) = Some ns2 \<and> relinked (nodes s) ns2
    \<and> list_rel (s\<lparr>nodes := ns2\<rparr>) (xs @ ys @ [e])"
proof -
  obtain p q h t where l: "head s = Addr h" "tail s = Addr t"
    "dseg (cells (nodes s)) p (h # map e_node xs @ e_node e # map e_node ys @ [t]) q"
    "distinct (h # map e_node xs @ e_node e # map e_node ys @ [t])"
    "live (nodes s) = set (h # map e_node xs @ e_node e # map e_node ys @ [t])"
    using assms by (auto elim!: list_relE)
  obtain ns1 ns2 where ns: "remove_node (nodes s) (Addr (e_node e)) = Some ns1"
    "add_node_to_tail ns1 (Addr t) (Addr (e_node e)) = Some ns2"
    "dseg (cells ns2) p (h # map e_node xs @ map e_node ys @ [e_node e, t]) q"
    "relinked (nodes s) ns2"
    using move_to_tail_dseg [OF l(3,4)] by blast
  have "live ns2 = set (h # map e_node (xs @ ys @ [e]) @ [t])"
    unfolding relinked_live [OF ns(4)] l(5) by auto
  moreover have "dseg (cells ns2) p (h # map e_node (xs @ ys @ [e]) @ [t]) q"
    using ns(3) by simp
  moreover have "distinct (h # map e_node (xs @ ys @ [e]) @ [t])" using l(4) by auto
  ultimately have "\<exists>p q h t. head s = Addr h \<and> tail s = Addr t
     \<and> dseg (cells ns2) p (h # map e_node (xs @ ys @ [e]) @ [t]) q
     \<and> distinct (h # map e_node (xs @ ys @ [e]) @ [t])
     \<and> live ns2 = set (h # map e_node (xs @ ys @ [e]) @ [t])"
    using l(1,2) by blast
  then have "list_rel (s\<lparr>nodes := ns2\<rparr>) (xs @ ys @ [e])"
    using assms ns(4) relinked_wf [OF ns(4)]
    unfolding list_rel_def by (auto simp: relinked_payload)
  with ns l(2) show ?thesis by auto
qed

lemma cache_rel_rotate:
  assumes "cache_rel s (xs @ e # ys)" and "list_rel s' (xs @ ys @ [e])" and "hash_table s' = hash_table s"
  shows "cache_rel s' (xs @ ys @ [e])"
proof -
  have "distinct (hashes (xs @ ys @ [e]))" using cache_relD(2) [OF assms(1)] by auto
  moreover from this have "table_of (xs @ e # ys) = table_of (xs @ ys @ [e])"
    using cache_relD(2) [OF assms(1)] by (intro table_of_perm) auto
  ultimately show ?thesis
    using assms(2,3) cache_relD(3) [OF assms(1)] by (simp add: cache_rel_def)
qed

lemma move_to_tail_rel:
  assumes "cache_rel s (xs @ e # ys)"
  shows "\<exists>ns1 ns2. remove_node (nodes s) (Addr (e_node e)) = Some ns1
    \<and> add_node_to_tail ns1 (tail s) (Addr (e_node e)) = Some ns2 \<and> relinked (nodes s) ns2
    \<and> cache_rel (s\<lparr>nodes := ns2\<rparr>) (xs @ ys @ [e])"
  using move_to_tail_list [OF cache_relD(1) [OF assms]] cache_rel_rotate [OF assms] by fastforce

lemma cache_rel_set_msg:
  assumes "cache_rel s es" and "e \<in> set es" and "msg_id m = e_key e" and "wf_Message m"
  shows "cache_rel (s\<lparr>msgs := (msgs s)\<lparr>cells := (cells (msgs s))(e_msg e := Some m)\<rparr>\<rparr>) es"
proof -
  have "e_msg e < next_addr (msgs s)"
    using cache_rel_entry(3) [OF assms(1,2)] cache_rel_facts(5) [OF assms(1)]
    by (auto dest: live_bound)
  moreover have "\<exists>m'. (if e_msg e' = e_msg e then Some m else cells (msgs s) (e_msg e')) = Some m'
      \<and> msg_id m' = e_key e' \<and> wf_Message m'" if "e' \<in> set es" for e'
  proof (cases "e_msg e' = e_msg e")
    case True
    then have "e' = e"
      using cache_rel_facts(1) [OF assms(1)] that assms(2) by (auto simp: distinct_map inj_on_def)
    with assms(3,4) show ?thesis by simp
  next
    case False
    then show ?thesis using cache_rel_entry(3) [OF assms(1) that] by simp
  qed
  ultimately show ?thesis
    using assms(1) unfolding cache_rel_def list_rel_def by (auto simp: wf_store_upd)
qed

lemma contents_set_msg:
  assumes "distinct (map e_msg (xs @ ys @ [e]))"
  shows "contents (s\<lparr>msgs := (msgs s)\<lparr>cells := (cells (msgs s))(e_msg e := Some m)\<rparr>\<rparr>) (xs @ ys @ [e])
    = contents s (xs @ ys) @ [(e_key e, m)]"
proof -
  have "e_msg x \<noteq> e_msg e" if "x \<in> set (xs @ ys)" for x
    using assms that by (auto simp: image_iff)
  then show ?thesis by (auto simp: contents_def)
qed

lemma lru_touch_contents:
  assumes "distinct (map e_key (xs @ e # ys))"
  shows "lru_touch (e_key e) m (contents s (xs @ e # ys)) = contents s (xs @ ys) @ [(e_key e, m)]"
proof -
  have "\<forall>x \<in> set xs. e_key x \<noteq> e_key e" and "\<forall>x \<in> set ys. e_key x \<noteq> e_key e"
    using assms by (auto simp: image_iff)
  then have "filter (\<lambda>x. e_key x \<noteq> e_key e) xs = xs" and "filter (\<lambda>x. e_key x \<noteq> e_key e) ys = ys"
    by (simp_all add: filter_id_conv)
  then show ?thesis by (simp add: lru_touch_def contents_def filter_map comp_def)
qed

lemma update_existing_rel:
  assumes "cache_rel s (xs @ e # ys)" and "load (msgs s) p = Some m"
    and "msg_id m = e_key e" and "wf_Message m"
  shows "\<exists>s'. update_existing s (Addr (e_node e)) p = Some s' \<and> cache_rel s' (xs @ ys @ [e])
    \<and> contents s' (xs @ ys @ [e]) = contents s (xs @ ys) @ [(e_key e, m)]
    \<and> msgs s' = (msgs s)\<lparr>cells := (cells (msgs s))(e_msg e := Some m)\<rparr>
    \<and> dsk s' = dsk s \<and> stats s' = stats s \<and> mem_ok s' = mem_ok s"
proof -
  have e: "e \<in> set (xs @ e # ys)" by simp
  obtain n where n: "cells (nodes s) (e_node e) = Some n" "value n = Addr (e_msg e)"
    using cache_rel_entry(1) [OF assms(1) e] by (auto simp: payload_Some)
  obtain m0 where m0: "cells (msgs s) (e_msg e) = Some m0"
    using cache_rel_entry(3) [OF assms(1) e] by blast
  let ?s = "s\<lparr>msgs := (msgs s)\<lparr>cells := (cells (msgs s))(e_msg e := Some m)\<rparr>\<rparr>"
  have "cache_rel ?s (xs @ e # ys)" using assms e by (intro cache_rel_set_msg) auto
  from move_to_tail_rel [OF this] obtain ns1 ns2 where
    ns: "remove_node (nodes s) (Addr (e_node e)) = Some ns1"
      "add_node_to_tail ns1 (tail s) (Addr (e_node e)) = Some ns2" "relinked (nodes s) ns2"
      "cache_rel (?s\<lparr>nodes := ns2\<rparr>) (xs @ ys @ [e])"
    by auto
  have d: "distinct (map e_msg (xs @ ys @ [e]))" using cache_rel_facts(1) [OF ns(4)] .
  let ?s' = "s\<lparr>nodes := ns2, msgs := (msgs s)\<lparr>cells := (cells (msgs s))(e_msg e := Some m)\<rparr>\<rparr>"
  have s': "?s\<lparr>nodes := ns2\<rparr> = ?s'" by simp
  have "update_existing s (Addr (e_node e)) p = Some ?s'"
    using ns(1,2) n m0 assms(2) by (simp add: update_existing_def)
  moreover have "contents ?s' (xs @ ys @ [e]) = contents s (xs @ ys) @ [(e_key e, m)]"
    using contents_set_msg [OF d, of s m] by (simp add: contents_def)
  moreover have "mem_ok ?s' = mem_ok s"
    using ns(3) by (simp add: mem_ok_def relinked_def)
  ultimately show ?thesis
    using ns(4) unfolding s' by (intro exI [of _ ?s']) simp
qed

section \<open>Eviction\<close>

definition drop_oldest :: "entry list \<Rightarrow> entry list" where
  "drop_oldest es = (if int (length es) < CACHE_CAPACITY then es else tl es)"

lemma set_drop_oldest: "set (drop_oldest es) \<subseteq> set es"
  by (cases es) (auto simp: drop_oldest_def)

lemma contents_drop_oldest:
  "contents s (drop_oldest es) = lru_evict (nat CACHE_CAPACITY) (contents s es)"
  by (cases es) (auto simp: drop_oldest_def lru_evict_def CACHE_CAPACITY_def)

text \<open>The representation after the first node is unlinked and freed with its message.\<close>

lemma list_rel_drop_first:
  fixes ht :: "ptr list"
  assumes rel: "list_rel s (e # es)" and "head s = Addr h" and "tail s = Addr t"
    and seg: "dseg (cells ns1) p (h # map e_node es @ [t]) q" and re: "relinked (nodes s) ns1"
    and dist: "distinct (h # e_node e # map e_node es @ [t])"
    and lv: "live (nodes s) = set (h # e_node e # map e_node es @ [t])"
  defines "s' \<equiv> s\<lparr>nodes := ns1\<lparr>cells := (cells ns1)(e_node e := None)\<rparr>,
      msgs := (msgs s)\<lparr>cells := (cells (msgs s))(e_msg e := None)\<rparr>,
      hash_table := ht, current_size := current_size s - 1\<rparr>"
  shows "list_rel s' es"
proof -
  note facts = list_rel_facts [OF rel] and ent = list_rel_entry [OF rel, of e, simplified]
  have "payload ns1 (e_node e) = Some (e_key e, Addr (e_msg e))"
    using ent(1) relinked_payload [OF re] by simp
  then obtain n where n: "cells ns1 (e_node e) = Some n" by (auto simp: payload_Some)
  obtain m where m: "cells (msgs s) (e_msg e) = Some m" using ent(3) by blast
  have other: "e_msg e' \<noteq> e_msg e" and "e_node e' \<noteq> e_node e" if "e' \<in> set es" for e'
    using that facts(1) dist by (auto simp: image_iff)
  then have ents: "payload (nodes s') (e_node e') = Some (e_key e', Addr (e_msg e'))
      \<and> 0 \<le> e_key e' \<and> (\<exists>m. cells (msgs s') (e_msg e') = Some m \<and> msg_id m = e_key e' \<and> wf_Message m)"
    if "e' \<in> set es" for e'
    using that list_rel_entry [OF rel, of e'] relinked_payload [OF re, of "e_node e'"]
    by (auto simp: payload_def s'_def)
  have "dseg (cells (nodes s')) p (h # map e_node es @ [t]) q"
    using seg dist by (auto simp: dseg_frame dseg_append s'_def)
  moreover have "live (nodes s') = live ns1 - {e_node e}" by (auto simp: live_def s'_def)
  then have "live (nodes s') = set (h # map e_node es @ [t])"
    unfolding relinked_live [OF re] lv using dist by (simp add: insert_Diff_if)
  moreover have "distinct (h # map e_node es @ [t])" using dist by simp
  ultimately have "\<exists>p q h t. head s' = Addr h \<and> tail s' = Addr t
      \<and> dseg (cells (nodes s')) p (h # map e_node es @ [t]) q
      \<and> distinct (h # map e_node es @ [t]) \<and> live (nodes s') = set (h # map e_node es @ [t])"
    using assms(2,3) by (auto simp: s'_def)
  moreover have "wf_store (nodes s')" and "wf_store (msgs s')"
    using facts(4,5) n m relinked_wf [OF re] by (auto simp: wf_store_def s'_def)
  ultimately show ?thesis using ents facts unfolding list_rel_def by (auto simp: s'_def)
qed

text \<open>The evicted entry leaves the list; the slot that is cleared is the one the probe for its key
  ends at.\<close>

lemma evict_list:
  assumes "list_rel s (e # es)" and "int (length (e # es)) = CACHE_CAPACITY"
    and probe: "probe (nodes s) (hash_table s) (e_key e) (hash (e_key e)) = Some h'"
    and tab: "tab_set (hash_table s) h' Null = Some ht"
  shows "\<exists>s'. evict_if_needed s = Some s' \<and> list_rel s' es \<and> hash_table s' = ht
    \<and> head s' = head s \<and> tail s' = tail s
    \<and> msgs s' = (msgs s)\<lparr>cells := (cells (msgs s))(e_msg e := None)\<rparr>
    \<and> next_addr (nodes s') = next_addr (nodes s) \<and> alloc (nodes s') = alloc (nodes s)
    \<and> dsk s' = dsk s \<and> stats s' = stats s \<and> mem_ok s' = mem_ok s"
proof -
  obtain p q h t where l: "head s = Addr h" "tail s = Addr t"
    "dseg (cells (nodes s)) p (h # e_node e # map e_node es @ [t]) q"
    "distinct (h # e_node e # map e_node es @ [t])"
    "live (nodes s) = set (h # e_node e # map e_node es @ [t])"
    using assms(1) by (auto elim!: list_relE)
  define c us where "c = hd (map e_node es @ [t])" and "us = tl (map e_node es @ [t])"
  have cu: "map e_node es @ [t] = c # us" by (simp add: c_def us_def)
  obtain ns1 where ns1: "remove_node (nodes s) (Addr (e_node e)) = Some ns1"
    "dseg (cells ns1) p (h # map e_node es @ [t]) q" "relinked (nodes s) ns1"
    using remove_node_dseg [of "nodes s" p "[]" h "e_node e" c us q] l(3,4) cu by auto
  obtain hn where hn: "cells (nodes s) h = Some hn" "nxt hn = Addr (e_node e)" using l(3) by auto
  note ent = list_rel_entry [OF assms(1), of e, simplified] and facts = list_rel_facts [OF assms(1)]
  have "payload ns1 (e_node e) = Some (e_key e, Addr (e_msg e))"
    using ent(1) relinked_payload [OF ns1(3)] by simp
  then obtain n where n: "cells ns1 (e_node e) = Some n" "key n = e_key e" "value n = Addr (e_msg e)"
    by (auto simp: payload_Some)
  obtain m where m: "cells (msgs s) (e_msg e) = Some m" using ent(3) by blast
  let ?s' = "s\<lparr>nodes := ns1\<lparr>cells := (cells ns1)(e_node e := None)\<rparr>,
      msgs := (msgs s)\<lparr>cells := (cells (msgs s))(e_msg e := None)\<rparr>,
      hash_table := ht, current_size := current_size s - 1\<rparr>"
  have sz: "c_decr (current_size s) = Some (current_size s - 1)"
    using facts(2) assms(2) by (simp add: CACHE_CAPACITY_def)
  have "evict_if_needed s = Some ?s'"
    using assms(2) facts(2) hn l(1,2,4) ns1(1) n m probe_relinked [OF ns1(3)] probe tab sz
    by (simp add: evict_if_needed_def)
  moreover have "list_rel ?s' es"
    by (rule list_rel_drop_first [OF assms(1) l(1,2) ns1(2,3) l(4,5)])
  ultimately show ?thesis
    using ns1(3) by (intro exI [of _ ?s']) (simp add: relinked_def mem_ok_def)
qed

lemma evict_room: "list_rel s es \<Longrightarrow> int (length es) < CACHE_CAPACITY \<Longrightarrow> evict_if_needed s = Some s"
  using list_rel_facts(2) [of s es] by (simp add: evict_if_needed_def)

lemma evict_rel:
  assumes "cache_rel s es"
  shows "\<exists>s'. evict_if_needed s = Some s' \<and> cache_rel s' (drop_oldest es)
    \<and> int (length (drop_oldest es)) < CACHE_CAPACITY
    \<and> (\<forall>a. a \<notin> e_msg ` set es \<longrightarrow> cells (msgs s') a = cells (msgs s) a)
    \<and> contents s' (drop_oldest es) = contents s (drop_oldest es)
    \<and> dsk s' = dsk s \<and> stats s' = stats s \<and> mem_ok s' = mem_ok s"
proof (cases "int (length es) < CACHE_CAPACITY")
  case True
  with assms evict_room [OF cache_relD(1)] show ?thesis by (simp add: drop_oldest_def)
next
  case False
  with cache_rel_facts(3) [OF assms] have len: "int (length es) = CACHE_CAPACITY" by simp
  then obtain e es' where es: "es = e # es'" by (cases es) (auto simp: CACHE_CAPACITY_def)
  note rel = assms [unfolded es]
  have k: "0 \<le> e_key e" using cache_rel_entry(2) [OF rel, of e] by simp
  have "no_clash (e_key e) (map e_key (e # es'))"
    using cache_relD(2) [OF rel] by (auto simp: no_clash_def hashes_def image_iff)
  note home = probe_home(1) [OF rel k this]
  have tab: "tab_set (hash_table s) (hash (e_key e)) Null = Some (table_of es')"
    using table_of_remove [OF cache_relD(2) [OF rel] k] cache_relD(3) [OF rel] by simp
  obtain s' where s': "evict_if_needed s = Some s'" "list_rel s' es'" "hash_table s' = table_of es'"
    "msgs s' = (msgs s)\<lparr>cells := (cells (msgs s))(e_msg e := None)\<rparr>"
    "dsk s' = dsk s" "stats s' = stats s" "mem_ok s' = mem_ok s"
    using evict_list [OF cache_relD(1) [OF rel] _ home tab] len es by auto
  have "e_msg x \<noteq> e_msg e" if "x \<in> set es'" for x
    using that cache_rel_facts(1) [OF assms] es by (auto simp: image_iff)
  then have "contents s' es' = contents s es'"
    using s'(4) by (auto simp: contents_def)
  moreover have "cache_rel s' es'" using s'(2,3) cache_relD(2) [OF rel] by (simp add: cache_rel_def)
  ultimately show ?thesis
    using s' es len by (auto simp: drop_oldest_def)
qed

section \<open>Insertion\<close>

lemma list_rel_append:
  fixes jn :: LRUNode and ht :: "ptr list"
  assumes rel: "list_rel s es" and "int (length es) < CACHE_CAPACITY"
    and "msg_id m = k" and "0 \<le> k" and "wf_Message m"
  defines "na \<equiv> next_addr (nodes s)" and "ma \<equiv> next_addr (msgs s)"
  defines "ns1 \<equiv> (nodes s)\<lparr>cells := (cells (nodes s))(na := Some (jn\<lparr>key := k, value := Addr ma\<rparr>)),
      next_addr := Suc na\<rparr>"
    and "ms1 \<equiv> (msgs s)\<lparr>cells := (cells (msgs s))(ma := Some m), next_addr := Suc ma\<rparr>"
    and "es' \<equiv> es @ [(na, k, ma)]"
  assumes "head s = Addr h" and "tail s = Addr t" and lv: "live (nodes s) = set (h # map e_node es @ [t])"
    and dist: "distinct (h # map e_node es @ [t])" and na: "na \<notin> set (h # map e_node es @ [t])"
    and seg: "dseg (cells ns2) p (h # map e_node es' @ [t]) q" and re: "relinked ns1 ns2"
  defines "s' \<equiv> s\<lparr>nodes := ns2, msgs := ms1, hash_table := ht, current_size := current_size s + 1\<rparr>"
  shows "list_rel s' es'"
proof -
  note facts = list_rel_facts [OF rel]
  have fresh: "cells (nodes s) na = None" "cells (msgs s) ma = None"
    using facts(4,5) by (auto simp: na_def ma_def fresh_cell)
  have pay: "payload ns2 a = (if a = na then Some (k, Addr ma) else payload (nodes s) a)" for a
    using relinked_payload [OF re, of a] by (auto simp: ns1_def payload_def)
  have old: "e_node e \<noteq> na \<and> e_msg e \<noteq> ma" if "e \<in> set es" for e
    using list_rel_entry [OF rel that] fresh by (auto simp: payload_Some)
  have ents: "payload (nodes s') (e_node e) = Some (e_key e, Addr (e_msg e)) \<and> 0 \<le> e_key e
      \<and> (\<exists>m. cells (msgs s') (e_msg e) = Some m \<and> msg_id m = e_key e \<and> wf_Message m)" if "e \<in> set es'" for e
  proof (cases "e \<in> set es")
    case True
    with old [OF True] list_rel_entry [OF rel True] show ?thesis by (simp add: pay ms1_def s'_def)
  next
    case False
    with that have "e = (na, k, ma)" by (simp add: es'_def)
    with assms(3,4,5) show ?thesis by (simp add: pay ms1_def s'_def)
  qed
  have "live ns2 = insert na (live (nodes s))"
    unfolding relinked_live [OF re] by (auto simp: ns1_def live_def)
  then have "live (nodes s') = set (h # map e_node es' @ [t])" unfolding lv by (auto simp: es'_def s'_def)
  moreover have "distinct (h # map e_node es' @ [t])" using dist na by (auto simp: es'_def)
  ultimately have "\<exists>p q h t. head s' = Addr h \<and> tail s' = Addr t
      \<and> dseg (cells (nodes s')) p (h # map e_node es' @ [t]) q
      \<and> distinct (h # map e_node es' @ [t]) \<and> live (nodes s') = set (h # map e_node es' @ [t])"
    using assms(11,12) seg by (auto simp: s'_def)
  moreover have "wf_store (nodes s')" and "wf_store (msgs s')"
    using facts(4,5) relinked_wf [OF re] wf_store_alloc [of "nodes s"] wf_store_alloc [of "msgs s"]
    by (auto simp: ns1_def ms1_def na_def ma_def s'_def)
  moreover have "distinct (map e_msg es')" using facts(1) old by (auto simp: es'_def)
  ultimately show ?thesis
    using ents facts assms(2) unfolding list_rel_def by (auto simp: es'_def s'_def)
qed

lemma append_entry_list:
  fixes jn :: LRUNode
  assumes "list_rel s es" and "int (length es) < CACHE_CAPACITY"
    and "msg_id m = k" and "0 \<le> k" and "wf_Message m"
  defines "na \<equiv> next_addr (nodes s)" and "ma \<equiv> next_addr (msgs s)"
  defines "ns1 \<equiv> (nodes s)\<lparr>cells := (cells (nodes s))(na := Some (jn\<lparr>key := k, value := Addr ma\<rparr>)),
      next_addr := Suc na\<rparr>"
    and "ms1 \<equiv> (msgs s)\<lparr>cells := (cells (msgs s))(ma := Some m), next_addr := Suc ma\<rparr>"
    and "es' \<equiv> es @ [(na, k, ma)]"
  shows "\<exists>ns2. add_node_to_tail ns1 (tail s) (Addr na) = Some ns2
    \<and> alloc ns2 = alloc (nodes s) \<and> next_addr ns2 = Suc na
    \<and> list_rel (s\<lparr>nodes := ns2, msgs := ms1, hash_table := ht,
                  current_size := current_size s + 1\<rparr>) es'"
proof -
  note facts = list_rel_facts [OF assms(1)]
  obtain p q h t where l: "head s = Addr h" "tail s = Addr t"
    "dseg (cells (nodes s)) p (h # map e_node es @ [t]) q" "distinct (h # map e_node es @ [t])"
    "live (nodes s) = set (h # map e_node es @ [t])"
    using assms(1) by (auto elim!: list_relE)
  define vs d where "vs = butlast (h # map e_node es)" and "d = last (h # map e_node es)"
  have vd: "h # map e_node es = vs @ [d]" by (simp add: vs_def d_def)
  have fresh_n: "cells (nodes s) na = None" and fresh_m: "cells (msgs s) ma = None"
    using facts(4,5) by (auto simp: na_def ma_def fresh_cell)
  have na: "na \<notin> set (h # map e_node es @ [t])"
    using dseg_live [OF l(3)] fresh_n by (metis option.distinct(1))
  have split: "h # map e_node es @ [t] = vs @ [d, t]"
    using arg_cong [OF vd, of "\<lambda>l. l @ [t]"] by simp
  have seg1: "dseg (cells ns1) p (vs @ [d, t]) q"
    using l(3) na unfolding split by (simp add: ns1_def dseg_frame)
  have dist: "distinct (vs @ [d, na, t])" using l(4) na unfolding split by auto
  have cell: "cells ns1 na = Some (jn\<lparr>key := k, value := Addr ma\<rparr>)" by (simp add: ns1_def)
  obtain ns2 where ns2: "add_node_to_tail ns1 (Addr t) (Addr na) = Some ns2"
    "dseg (cells ns2) p (vs @ [d, na, t]) q" "relinked ns1 ns2"
    using add_node_to_tail_dseg [OF seg1 dist cell] by blast
  have split': "vs @ [d, na, t] = h # map e_node es' @ [t]"
    using arg_cong [OF vd, of "\<lambda>l. l @ [na, t]"] by (simp add: es'_def)
  have "list_rel (s\<lparr>nodes := ns2, msgs := ms1, hash_table := ht, current_size := current_size s + 1\<rparr>) es'"
    using list_rel_append [OF assms(1-5) l(1,2,5,4), of ns2 p q jn ht] na ns2(2,3) unfolding split'
    by (simp add: na_def ma_def ns1_def ms1_def es'_def)
  moreover have "alloc ns2 = alloc (nodes s)" and "next_addr ns2 = Suc na"
    using ns2(3) by (simp_all add: relinked_def ns1_def)
  ultimately show ?thesis using ns2(1) l(2) by auto
qed

text \<open>What \<open>insert_new\<close> does after the eviction, for any state of the table.\<close>

lemma insert_list:
  assumes "evict_if_needed s = Some s1" and "list_rel s1 es" and "int (length es) < CACHE_CAPACITY"
    and "load (msgs s1) p = Some m" and "0 \<le> msg_id m" and "wf_Message m" and "mem_ok s1"
    and "probe_free (hash_table s1) h = Some h'"
    and "tab_set (hash_table s1) h' (Addr (next_addr (nodes s1))) = Some ht"
  defines "es' \<equiv> es @ [(next_addr (nodes s1), msg_id m, next_addr (msgs s1))]"
  shows "\<exists>s'. insert_new s h p = Some s' \<and> list_rel s' es' \<and> hash_table s' = ht
    \<and> head s' = head s1 \<and> tail s' = tail s1
    \<and> contents s' es' = contents s1 es @ [(msg_id m, m)]
    \<and> next_addr (nodes s') = Suc (next_addr (nodes s1))
    \<and> load (msgs s') p = Some m \<and> dsk s' = dsk s1 \<and> stats s' = stats s1 \<and> mem_ok s'"
proof -
  let ?na = "next_addr (nodes s1)" and ?ma = "next_addr (msgs s1)"
  obtain a where p: "p = Addr a" "cells (msgs s1) a = Some m"
    using assms(4) by (auto simp: load_Some_iff)
  obtain jn jm where j: "alloc (nodes s1) ?na = Some jn" "alloc (msgs s1) ?ma = Some jm"
    using assms(7) mem_okE [of s1 ?na ?ma] by blast
  let ?ms1 = "(msgs s1)\<lparr>cells := (cells (msgs s1))(?ma := Some m), next_addr := Suc ?ma\<rparr>"
  obtain ns2 where ns2: "add_node_to_tail ((nodes s1)\<lparr>cells := (cells (nodes s1))
        (?na := Some (jn\<lparr>key := msg_id m, value := Addr ?ma\<rparr>)), next_addr := Suc ?na\<rparr>)
        (tail s1) (Addr ?na) = Some ns2"
    "alloc ns2 = alloc (nodes s1)" "next_addr ns2 = Suc ?na"
    "list_rel (s1\<lparr>nodes := ns2, msgs := ?ms1, hash_table := ht,
                  current_size := current_size s1 + 1\<rparr>) es'"
    using append_entry_list [OF assms(2,3) refl assms(5,6), of jn ht] unfolding es'_def by blast
  have fresh: "cells (msgs s1) ?ma = None" using list_rel_facts(5) [OF assms(2)] by (simp add: fresh_cell)
  then have ne: "a \<noteq> ?ma" using p(2) by auto
  have sz: "c_incr (current_size s1) = Some (current_size s1 + 1)"
    using list_rel_facts(2) [OF assms(2)] assms(3) by (simp add: CACHE_CAPACITY_def)
  let ?s' = "s1\<lparr>nodes := ns2, msgs := ?ms1, hash_table := ht, current_size := current_size s1 + 1\<rparr>"
  have "insert_new s h p = Some ?s'"
    using assms(1,8,9) p ne j ns2(1) sz by (simp add: insert_new_def malloc_ok)
  moreover have "contents ?s' es' = contents s1 es @ [(msg_id m, m)]"
  proof -
    have "e_msg e \<noteq> ?ma" if "e \<in> set es" for e
      using list_rel_entry(3) [OF assms(2) that] fresh by auto
    then show ?thesis by (auto simp: contents_def es'_def)
  qed
  moreover have "mem_ok ?s'" using assms(7) ns2(2) by (simp add: mem_ok_def)
  ultimately show ?thesis
    using ns2(3,4) p ne by (intro exI [of _ ?s']) auto
qed

lemma insert_new_rel:
  assumes "cache_rel s es" and "mem_ok s" and "load (msgs s) p = Some m"
    and "0 \<le> msg_id m" and "wf_Message m"
    and "no_clash (msg_id m) (map e_key es)" and "msg_id m \<notin> set (map e_key es)"
  shows "\<exists>s' es'. insert_new s (hash (msg_id m)) p = Some s' \<and> cache_rel s' es'
    \<and> contents s' es' = lru_evict (nat CACHE_CAPACITY) (contents s es) @ [(msg_id m, m)]
    \<and> load (msgs s') p = Some m \<and> dsk s' = dsk s \<and> stats s' = stats s \<and> mem_ok s'"
proof -
  let ?k = "msg_id m" and ?es1 = "drop_oldest es"
  obtain s1 where s1: "evict_if_needed s = Some s1" "cache_rel s1 ?es1"
    "int (length ?es1) < CACHE_CAPACITY"
    "\<forall>a. a \<notin> e_msg ` set es \<longrightarrow> cells (msgs s1) a = cells (msgs s) a"
    "contents s1 ?es1 = contents s ?es1" "dsk s1 = dsk s" "stats s1 = stats s" "mem_ok s1 = mem_ok s"
    using evict_rel [OF assms(1)] by blast
  obtain a where p: "p = Addr a" "cells (msgs s) a = Some m"
    using assms(3) by (auto simp: load_Some_iff)
  have "a \<notin> e_msg ` set es"
    using cache_rel_entry(3) [OF assms(1)] p(2) assms(7) by force
  with s1(4) p have ld: "load (msgs s1) p = Some m" by simp
  have sub: "set (map e_key ?es1) \<subseteq> set (map e_key es)" using set_drop_oldest [of es] by auto
  have nc: "no_clash ?k (map e_key ?es1)" and nk: "?k \<notin> set (map e_key ?es1)"
    using assms(6,7) subsetD [OF sub] unfolding no_clash_def by blast+
  let ?e = "(next_addr (nodes s1), ?k, next_addr (msgs s1))"
  have "hash ?k \<notin> set (hashes ?es1)"
    using nc nk unfolding no_clash_def hashes_def by force
  then have dh: "distinct (hashes (?es1 @ [?e]))"
    using cache_relD(2) [OF s1(2)] by simp
  have free: "probe_free (hash_table s1) (hash ?k) = Some (hash ?k)"
    using probe_home(2) [OF s1(2) assms(4) nc] slot_absent [OF nc nk] by (simp add: probe_free.simps)
  have tab: "tab_set (hash_table s1) (hash ?k) (Addr (next_addr (nodes s1)))
      = Some (table_of (?es1 @ [?e]))"
    using table_of_add [OF dh] assms(4) cache_relD(3) [OF s1(2)] by simp
  obtain s' where "insert_new s (hash ?k) p = Some s'" "list_rel s' (?es1 @ [?e])"
    "hash_table s' = table_of (?es1 @ [?e])"
    "contents s' (?es1 @ [?e]) = contents s1 ?es1 @ [(?k, m)]"
    "load (msgs s') p = Some m" "dsk s' = dsk s1" "stats s' = stats s1" "mem_ok s'"
    using insert_list [OF s1(1) cache_relD(1) [OF s1(2)] s1(3) ld assms(4,5) _ free tab]
      s1(8) assms(2) by blast
  with s1(5,6,7) dh contents_drop_oldest show ?thesis
    by (intro exI [of _ s'] exI [of _ "?es1 @ [?e]"]) (simp add: cache_rel_def)
qed

section \<open>The two operations\<close>

lemma put_msg_rel:
  assumes "cache_rel s es" and "mem_ok s" and "load (msgs s) p = Some m"
    and "0 \<le> msg_id m" and "wf_Message m" and "no_clash (msg_id m) (map e_key es)"
    and "disk_ready (dsk s) (msg_id m)"
  shows "\<exists>s' es'. put_msg s p = Some s' \<and> cache_rel s' es'
    \<and> contents s' es' = lru_put (nat CACHE_CAPACITY) (msg_id m) m (contents s es)
    \<and> dsk s' = save (dsk s) m
    \<and> load (msgs s') p = Some m \<and> stats s' = stats s \<and> mem_ok s'"
proof -
  let ?k = "msg_id m"
  note home = probe_home [OF assms(1,4,6)]
  show ?thesis
  proof (cases "?k \<in> set (map e_key es)")
    case True
    then obtain e where e: "e \<in> set es" "e_key e = ?k" by auto
    then obtain xs ys where es: "es = xs @ e # ys" by (meson split_list)
    have slot: "slot es (hash ?k) = Addr (e_node e)" using slot_present [OF assms(1) e(1)] e(2) by simp
    obtain s1 where s1: "update_existing s (Addr (e_node e)) p = Some s1"
      "cache_rel s1 (xs @ ys @ [e])"
      "contents s1 (xs @ ys @ [e]) = contents s (xs @ ys) @ [(e_key e, m)]"
      "msgs s1 = (msgs s)\<lparr>cells := (cells (msgs s))(e_msg e := Some m)\<rparr>"
      "dsk s1 = dsk s" "stats s1 = stats s" "mem_ok s1 = mem_ok s"
      using update_existing_rel [of s xs e ys p m] assms es e(2) by auto
    have ld: "load (msgs s1) p = Some m" using s1(4) assms(3) by (auto simp: load_Some_iff)
    have "put_msg s p = Some (s1\<lparr>dsk := save (dsk s) m\<rparr>)"
      using home slot s1(1,5) assms(3) store_msg_ready [OF ld assms(5)] assms(7)
      by (simp add: put_msg_def)
    moreover have "lru_put (nat CACHE_CAPACITY) ?k m (contents s es)
        = contents s (xs @ ys) @ [(e_key e, m)]"
      using True lru_touch_contents [of xs e ys m s] cache_rel_distinct_keys [OF assms(1)] es e(2)
      by (simp add: lru_put_def)
    ultimately show ?thesis
      using s1 ld assms(2)
      by (intro exI [of _ "s1\<lparr>dsk := save (dsk s) m\<rparr>"] exI [of _ "xs @ ys @ [e]"]) simp
  next
    case False
    have slot: "slot es (hash ?k) = Null" using slot_absent [OF assms(6) False] .
    obtain s1 es1 where s1: "insert_new s (hash ?k) p = Some s1" "cache_rel s1 es1"
      "contents s1 es1 = lru_evict (nat CACHE_CAPACITY) (contents s es) @ [(?k, m)]"
      "load (msgs s1) p = Some m" "dsk s1 = dsk s" "stats s1 = stats s" "mem_ok s1"
      using insert_new_rel [OF assms(1-6) False] by blast
    have "put_msg s p = Some (s1\<lparr>dsk := save (dsk s) m\<rparr>)"
      using home slot s1(1,5) assms(3) store_msg_ready [OF s1(4) assms(5)] assms(7)
      by (simp add: put_msg_def)
    with s1 False show ?thesis
      by (intro exI [of _ "s1\<lparr>dsk := save (dsk s) m\<rparr>"] exI [of _ es1]) (simp add: lru_put_def)
  qed
qed

lemma list_rel_new_message:
  fixes m :: Message
  assumes "list_rel s es"
  defines "s' \<equiv> s\<lparr>msgs := (msgs s)\<lparr>cells := (cells (msgs s))(next_addr (msgs s) := Some m),
      next_addr := Suc (next_addr (msgs s))\<rparr>\<rparr>"
  shows "list_rel s' es" and "contents s' es = contents s es" and "mem_ok s' = mem_ok s"
proof -
  have ne: "e_msg e \<noteq> next_addr (msgs s)" if "e \<in> set es" for e
    using list_rel_entry(3) [OF assms(1) that] list_rel_facts(5) [OF assms(1)]
    by (auto dest: live_bound)
  then have "\<forall>e \<in> set es. cells (msgs s') (e_msg e) = cells (msgs s) (e_msg e)"
    by (simp add: s'_def)
  then show "list_rel s' es" and "contents s' es = contents s es" and "mem_ok s' = mem_ok s"
    using assms(1) wf_store_alloc [of "msgs s" "Some m"]
    by (auto simp: s'_def list_rel_def contents_def mem_ok_def)
qed

lemma cache_rel_new_message:
  fixes m :: Message
  assumes "cache_rel s es"
  defines "s' \<equiv> s\<lparr>msgs := (msgs s)\<lparr>cells := (cells (msgs s))(next_addr (msgs s) := Some m),
      next_addr := Suc (next_addr (msgs s))\<rparr>\<rparr>"
  shows "cache_rel s' es" and "contents s' es = contents s es" and "mem_ok s' = mem_ok s"
  using list_rel_new_message [OF cache_relD(1) [OF assms(1)], of m] cache_relD [OF assms(1)]
  by (simp_all add: s'_def cache_rel_def)

lemma cache_rel_same_messages:
  assumes "cache_rel s es" and "cells ms = cells (msgs s)" and "wf_store ms"
  shows "cache_rel (s\<lparr>msgs := ms\<rparr>) es" and "contents (s\<lparr>msgs := ms\<rparr>) es = contents s es"
  using assms by (auto simp: cache_rel_def list_rel_def contents_def)

text \<open>A hit: the entry moves to the most recently used position and its message is returned.\<close>

lemma get_hit:
  assumes "cache_rel s (xs @ e # ys)" and "no_clash (e_key e) (map e_key (xs @ e # ys))"
    and "0 \<le> hits (stats s)" and "hits (stats s) < INT_MAX"
  shows "\<exists>s'. get_msg_from_cache_or_disk s (e_key e) = Some (Addr (e_msg e), s')
    \<and> cache_rel s' (xs @ ys @ [e]) \<and> msgs s' = msgs s \<and> dsk s' = dsk s
    \<and> stats s' = (stats s)\<lparr>hits := hits (stats s) + 1\<rparr> \<and> mem_ok s' = mem_ok s"
proof -
  let ?s1 = "s\<lparr>stats := (stats s)\<lparr>hits := hits (stats s) + 1\<rparr>\<rparr>"
  have e: "e \<in> set (xs @ e # ys)" by simp
  note ent = cache_rel_entry [OF assms(1) e]
  note home = probe_home [OF assms(1) ent(2) assms(2)]
  note slot = slot_present [OF assms(1) e]
  obtain n where n: "cells (nodes s) (e_node e) = Some n" "key n = e_key e" "value n = Addr (e_msg e)"
    using ent(1) by (auto simp: payload_Some)
  obtain ns1 ns2 where ns: "remove_node (nodes s) (Addr (e_node e)) = Some ns1"
    "add_node_to_tail ns1 (tail s) (Addr (e_node e)) = Some ns2" "relinked (nodes s) ns2"
    "cache_rel (?s1\<lparr>nodes := ns2\<rparr>) (xs @ ys @ [e])"
    using move_to_tail_rel [of ?s1 xs e ys] assms(1) by auto
  have "payload ns2 (e_node e) = Some (e_key e, Addr (e_msg e))"
    using relinked_payload [OF ns(3)] ent(1) by simp
  then obtain n2 where n2: "cells ns2 (e_node e) = Some n2" "value n2 = Addr (e_msg e)"
    by (auto simp: payload_Some)
  have "get_msg_from_cache_or_disk s (e_key e) = Some (Addr (e_msg e), ?s1\<lparr>nodes := ns2\<rparr>)"
    using home slot n ns(1,2) n2 assms(3,4) by (simp add: get_msg_from_cache_or_disk_def)
  moreover have "mem_ok (?s1\<lparr>nodes := ns2\<rparr>) = mem_ok s"
    using ns(3) by (simp add: mem_ok_def relinked_def)
  ultimately show ?thesis
    using ns(4) by (intro exI [of _ "?s1\<lparr>nodes := ns2\<rparr>"]) simp
qed

text \<open>A miss: the message is read from the disk and put into the cache; without a file nothing but
  the counter changes.\<close>

lemma get_miss_stored:
  assumes "cache_rel s es" and "mem_ok s" and "0 \<le> k" and "in_int k" and "disk_good (dsk s)"
    and "no_clash k (map e_key es)" and "k \<notin> set (map e_key es)" and "stored (dsk s) k = Some m"
    and "0 \<le> misses (stats s)" and "misses (stats s) < INT_MAX"
  shows "\<exists>r s' es'. get_msg_from_cache_or_disk s k = Some (r, s') \<and> cache_rel s' es'
    \<and> contents s' es' = lru_put (nat CACHE_CAPACITY) k m (contents s es)
    \<and> load (msgs s') r = Some m \<and> dsk s' = save (dsk s) m
    \<and> stats s' = (stats s)\<lparr>misses := misses (stats s) + 1\<rparr> \<and> mem_ok s'"
proof -
  let ?a = "next_addr (msgs s)"
  let ?s1 = "s\<lparr>stats := (stats s)\<lparr>misses := misses (stats s) + 1\<rparr>\<rparr>"
  let ?s2 = "?s1\<lparr>msgs := (msgs s)\<lparr>cells := (cells (msgs s))(?a := Some m), next_addr := Suc ?a\<rparr>\<rparr>"
  have id: "msg_id m = k" and wf: "wf_Message m"
    using disk_good_id assms(4,5,8) wf_stored by auto
  obtain jm where jm: "alloc (msgs s) ?a = Some jm"
    using mem_okE [OF assms(2)] by blast
  note home = probe_home [OF assms(1,3,6)]
  have slot: "slot es (hash k) = Null" using slot_absent [OF assms(6,7)] .
  have s2: "cache_rel ?s2 es" "contents ?s2 es = contents s es" "mem_ok ?s2"
    using cache_rel_new_message [of ?s1 es m] assms(1,2) by auto
  obtain s' es' where s': "put_msg ?s2 (Addr ?a) = Some s'" "cache_rel s' es'"
    "contents s' es' = lru_put (nat CACHE_CAPACITY) (msg_id m) m (contents ?s2 es)"
    "dsk s' = save (dsk ?s2) m" "load (msgs s') (Addr ?a) = Some m" "stats s' = stats ?s2" "mem_ok s'"
    using put_msg_rel [OF s2(1,3), of "Addr ?a" m] id wf assms(3,4,5,6) disk_good_ready by auto
  have "get_msg_from_cache_or_disk s k = Some (Addr ?a, s')"
    using home slot retrieve_msg_stored [OF assms(8) jm] s'(1) assms(9,10)
    by (simp add: get_msg_from_cache_or_disk_def)
  with s' s2(2) id show ?thesis by auto
qed

lemma get_miss_absent:
  assumes "cache_rel s es" and "0 \<le> k"
    and "no_clash k (map e_key es)" and "k \<notin> set (map e_key es)" and "stored (dsk s) k = None"
    and "0 \<le> misses (stats s)" and "misses (stats s) < INT_MAX"
  shows "\<exists>s'. get_msg_from_cache_or_disk s k = Some (Null, s') \<and> cache_rel s' es
    \<and> contents s' es = contents s es \<and> dsk s' = dsk s
    \<and> stats s' = (stats s)\<lparr>misses := misses (stats s) + 1\<rparr> \<and> mem_ok s' = mem_ok s"
proof -
  note home = probe_home [OF assms(1,2,3)]
  have slot: "slot es (hash k) = Null" using slot_absent [OF assms(3,4)] .
  obtain ms where ms: "retrieve_msg (dsk s) (msgs s) k = Some (Null, ms)"
    "cells ms = cells (msgs s)" "wf_store ms" "alloc ms = alloc (msgs s)"
    using retrieve_msg_missing [OF assms(5) cache_rel_facts(5) [OF assms(1)]] by blast
  let ?s' = "s\<lparr>stats := (stats s)\<lparr>misses := misses (stats s) + 1\<rparr>, msgs := ms\<rparr>"
  have "get_msg_from_cache_or_disk s k = Some (Null, ?s')"
    using home slot ms(1) assms(6,7) by (simp add: get_msg_from_cache_or_disk_def)
  moreover have "cache_rel ?s' es" and "contents ?s' es = contents s es"
    using cache_rel_same_messages [of "s\<lparr>stats := (stats s)\<lparr>misses := misses (stats s) + 1\<rparr>\<rparr>" es ms]
      assms(1) ms(2,3) by auto
  moreover have "mem_ok ?s' = mem_ok s" using ms(4) by (simp add: mem_ok_def)
  ultimately show ?thesis by (intro exI [of _ ?s']) simp
qed

end
