(* ===== verification/Lru_Theorems.thy ===== *)
theory Lru_Theorems
  imports Lru_Refine
begin

text \<open>
  What the LRU cache guarantees, stated over its recency list: the operations implement
  \<open>spec_put\<close> and \<open>spec_get\<close>, the cache is transparent (a lookup answers what the disk holds), and
  after any run of accesses it holds the sixteen identifiers used last. The section at the end
  shows what happens outside the collision-free case and for negative identifiers.
\<close>

abbreviation cap :: nat where "cap \<equiv> nat CACHE_CAPACITY"

lemma map_of_contents:
  assumes "cache_rel s es"
  shows "k \<notin> set (map e_key es) \<Longrightarrow> map_of (contents s es) k = None"
    and "e \<in> set es \<Longrightarrow> map_of (contents s es) (e_key e) = cells (msgs s) (e_msg e)"
proof -
  show "k \<notin> set (map e_key es) \<Longrightarrow> map_of (contents s es) k = None"
    by (simp add: map_of_lru_keys)
  assume e: "e \<in> set es"
  then obtain m where m: "cells (msgs s) (e_msg e) = Some m" using cache_rel_entry(3) [OF assms] by blast
  have "(e_key e, the (cells (msgs s) (e_msg e))) \<in> set (contents s es)"
    using e by (auto simp: contents_def)
  then show "map_of (contents s es) (e_key e) = cells (msgs s) (e_msg e)"
    using cache_rel_distinct_keys [OF assms] m
    by (metis lru_keys_contents lru_keys_def map_of_is_SomeI option.sel)
qed

lemma cache_absI: "cache_rel s es \<Longrightarrow> contents s es = kvs \<Longrightarrow> cache_abs s kvs"
  by (auto simp: cache_abs_def)

section \<open>Refinement\<close>

lemma get_refines_aux:
  assumes "cache_abs s kvs" and "mem_ok s" and "0 \<le> k" and "in_int k" and "disk_good (dsk s)"
    and "no_clash k (lru_keys kvs)"
    and "0 \<le> hits (stats s)" and "hits (stats s) < INT_MAX"
    and "0 \<le> misses (stats s)" and "misses (stats s) < INT_MAX"
  shows "\<exists>r s' kvs'. get_msg_from_cache_or_disk s k = Some (r, s') \<and> cache_abs s' kvs' \<and> mem_ok s'
    \<and> spec_get stored save msg_id cap k (dsk s, kvs) = (load (msgs s') r, (dsk s', kvs'))
    \<and> stats s' = (if k \<in> set (lru_keys kvs)
                   then (stats s)\<lparr>hits := hits (stats s) + 1\<rparr>
                   else (stats s)\<lparr>misses := misses (stats s) + 1\<rparr>)"
proof -
  obtain es where es: "cache_rel s es" "kvs = contents s es"
    using assms(1) by (auto simp: cache_abs_def)
  have nc: "no_clash k (map e_key es)" using assms(6) es(2) by simp
  show ?thesis
  proof (cases "k \<in> set (map e_key es)")
    case True
    then obtain e where e: "e \<in> set es" "e_key e = k" by auto
    then obtain xs ys where xy: "es = xs @ e # ys" by (meson split_list)
    obtain m where m: "cells (msgs s) (e_msg e) = Some m"
      using cache_rel_entry(3) [OF es(1) e(1)] by blast
    have mo: "map_of kvs k = Some m" using map_of_contents(2) [OF es(1) e(1)] e(2) es(2) m by simp
    obtain s' where s': "get_msg_from_cache_or_disk s k = Some (Addr (e_msg e), s')"
      "cache_rel s' (xs @ ys @ [e])" "msgs s' = msgs s" "dsk s' = dsk s"
      "stats s' = (stats s)\<lparr>hits := hits (stats s) + 1\<rparr>" "mem_ok s' = mem_ok s"
      using get_hit [of s xs e ys] es(1) nc e(2) xy assms(7,8) by auto
    have "contents s' (xs @ ys @ [e]) = lru_touch k m kvs"
      using lru_touch_contents [of xs e ys m s] cache_rel_distinct_keys [OF es(1)] xy e(2) es(2) m s'(3)
      by (simp add: contents_def)
    then have "cache_abs s' (lru_touch k m kvs)" using s'(2) unfolding cache_abs_def by metis
    then show ?thesis
      using s' mo m True es(2) assms(2) by (simp add: spec_get_def)
  next
    case False
    have mo: "map_of kvs k = None" using map_of_contents(1) [OF es(1) False] es(2) by simp
    show ?thesis
    proof (cases "stored (dsk s) k")
      case None
      from get_miss_absent [OF es(1) assms(3) nc False None assms(9,10)] show ?thesis
        using None mo False es assms(2) by (auto simp: spec_get_def intro: cache_absI)
    next
      case (Some m)
      then have "msg_id m = k" using disk_good_id assms(4,5) by auto
      with get_miss_stored [OF es(1) assms(2,3,4,5) nc False Some assms(9,10)] show ?thesis
        using Some mo False es by (fastforce simp: spec_get_def spec_put_def intro: cache_absI)
    qed
  qed
qed

section \<open>A run of accesses\<close>

definition accessed :: "int \<Rightarrow> int list \<Rightarrow> int list" where
  "accessed n rs = map (\<lambda>r. r mod n + 1) rs"

lemma accessed_simps [simp]:
  "accessed n [] = []" "accessed n (r # rs) = (r mod n + 1) # accessed n rs"
  by (simp_all add: accessed_def)

lemma accessed_range: "0 < n \<Longrightarrow> k \<in> set (accessed n rs) \<Longrightarrow> 1 \<le> k \<and> k \<le> n"
proof -
  assume "0 < n" and "k \<in> set (accessed n rs)"
  then obtain r where "k = r mod n + 1" and "0 \<le> r mod n" and "r mod n < n"
    by (auto simp: accessed_def)
  then show ?thesis by simp
qed

lemma hash_inj: "1 \<le> k \<Longrightarrow> k \<le> HASH_SIZE \<Longrightarrow> 1 \<le> k' \<Longrightarrow> k' \<le> HASH_SIZE \<Longrightarrow> hash k = hash k' \<Longrightarrow> k = k'"
proof -
  assume r: "1 \<le> k" "k \<le> HASH_SIZE" "1 \<le> k'" "k' \<le> HASH_SIZE" and h: "hash k = hash k'"
  have "hash j = (if j = 103 then 0 else j)" if "1 \<le> j" "j \<le> HASH_SIZE" for j
    using that by (auto simp: hash_def HASH_SIZE_def smod_mod_positive)
  with r h show "k = k'" by (auto split: if_splits)
qed

lemma no_clash_small:
  "1 \<le> k \<Longrightarrow> k \<le> HASH_SIZE \<Longrightarrow> (\<And>j. j \<in> set ks \<Longrightarrow> 1 \<le> j \<and> j \<le> HASH_SIZE) \<Longrightarrow> no_clash k ks"
  using hash_inj by (auto simp: no_clash_def)

lemma set_last_n: "set (last_n n xs) \<subseteq> set xs"
  by (auto simp: last_n_def dest: in_set_dropD)

text \<open>The state of a run: the recency list is that of the history \<open>us\<close>.\<close>

definition run_state :: "cache \<Rightarrow> int \<Rightarrow> int list \<Rightarrow> bool" where
  "run_state s n us \<longleftrightarrow> mem_ok s \<and> disk_good (dsk s)
     \<and> (\<forall>k. 1 \<le> k \<and> k \<le> n \<longrightarrow> stored (dsk s) k \<noteq> None)
     \<and> (\<forall>k \<in> set us. 1 \<le> k \<and> k \<le> n)
     \<and> 0 \<le> hits (stats s) \<and> 0 \<le> misses (stats s)
     \<and> (\<exists>kvs. cache_abs s kvs \<and> disk.coherent (dsk s) kvs \<and> lru_keys kvs = last_n cap (remdups us))"

lemma run_step:
  assumes "run_state s n us" and "1 \<le> k" and "k \<le> n" and "n \<le> HASH_SIZE"
    and "hits (stats s) < INT_MAX" and "misses (stats s) < INT_MAX"
  shows "\<exists>r s'. get_msg_from_cache_or_disk s k = Some (r, s') \<and> run_state s' n (us @ [k])
    \<and> load (msgs s') r = stored (dsk s) k
    \<and> (\<forall>j. in_int j \<longrightarrow> stored (dsk s') j = stored (dsk s) j)
    \<and> stats s' = (if k \<in> set (last_n cap (remdups us))
                   then (stats s)\<lparr>hits := hits (stats s) + 1\<rparr>
                   else (stats s)\<lparr>misses := misses (stats s) + 1\<rparr>)"
proof -
  obtain kvs where kvs: "cache_abs s kvs" "disk.coherent (dsk s) kvs"
    "lru_keys kvs = last_n cap (remdups us)"
    using assms(1) by (auto simp: run_state_def)
  have good: "mem_ok s" "disk_good (dsk s)" "0 \<le> hits (stats s)" "0 \<le> misses (stats s)"
    and pres: "\<And>j. 1 \<le> j \<Longrightarrow> j \<le> n \<Longrightarrow> stored (dsk s) j \<noteq> None"
    and us: "\<And>j. j \<in> set us \<Longrightarrow> 1 \<le> j \<and> j \<le> n"
    using assms(1) by (auto simp: run_state_def)
  have int: "in_int j" if "1 \<le> j" "j \<le> n" for j
    using that assms(4) by (simp add: in_int_def HASH_SIZE_def)
  have "no_clash k (lru_keys kvs)"
    using us assms(2-4) set_last_n [of cap "remdups us"] unfolding kvs(3)
    by (intro no_clash_small) force+
  with get_refines_aux [OF kvs(1) good(1) _ int [OF assms(2,3)] good(2)] assms(2,5,6) good(3,4)
  obtain r s' kvs' where g: "get_msg_from_cache_or_disk s k = Some (r, s')" "cache_abs s' kvs'"
    "mem_ok s'" "spec_get stored save msg_id cap k (dsk s, kvs) = (load (msgs s') r, (dsk s', kvs'))"
    "stats s' = (if k \<in> set (lru_keys kvs) then (stats s)\<lparr>hits := hits (stats s) + 1\<rparr>
                 else (stats s)\<lparr>misses := misses (stats s) + 1\<rparr>)"
    by auto
  note t = disk.get_transparent [OF good(2) kvs(2) int [OF assms(2,3)] g(4)]
  obtain m where m: "stored (dsk s) k = Some m" using pres [OF assms(2,3)] by blast
  have "msg_id m = k" using disk_good_id [OF good(2) int [OF assms(2,3)] m] .
  then have "lru_keys kvs' = last_n cap (remdups (us @ [k]))"
    using spec_get_keys [OF g(4)] m last_n_touch [of "remdups us" cap k] kvs(3)
    by (simp add: remdups_snoc CACHE_CAPACITY_def)
  with g t kvs(3) good(3,4) pres us assms(2,3) int have "run_state s' n (us @ [k])"
    by (auto simp: run_state_def)
  with g t kvs(3) show ?thesis by auto
qed

lemma accesses_run:
  assumes "run_state s n us" and "1 \<le> n" and "n \<le> HASH_SIZE"
    and "\<forall>r \<in> set rs. 0 \<le> r \<and> r \<le> INT_MAX"
    and "hits (stats s) + misses (stats s) + int (length rs) \<le> INT_MAX"
  shows "\<exists>s'. test_accesses s n rs = Some s' \<and> run_state s' n (us @ accessed n rs)
    \<and> (\<forall>j. in_int j \<longrightarrow> stored (dsk s') j = stored (dsk s) j)
    \<and> hits (stats s') = hits (stats s) + hit_count cap us (accessed n rs)
    \<and> hits (stats s') + misses (stats s') = hits (stats s) + misses (stats s) + int (length rs)"
  using assms(1,4,5)
proof (induction rs arbitrary: s us)
  case Nil
  then show ?case by simp
next
  case (Cons r rs)
  let ?k = "r mod n + 1"
  have r: "0 \<le> r" "r \<le> INT_MAX" and rs: "\<forall>r \<in> set rs. 0 \<le> r \<and> r \<le> INT_MAX"
    using Cons.prems(2) by auto
  have mod: "0 \<le> r mod n" "r mod n < n" using assms(2) by auto
  then have k: "1 \<le> ?k" "?k \<le> n" by auto
  have "r mod n < INT_MAX" using mod assms(3) by (simp add: HASH_SIZE_def)
  then have "c_rem r n = Some (r mod n)" and "c_incr (r mod n) = Some ?k"
    using r mod(1) assms(2) by (auto simp: c_rem_def smod_mod_positive)
  moreover have nn: "0 \<le> hits (stats s)" "0 \<le> misses (stats s)"
    using Cons.prems(1) by (auto simp: run_state_def)
  obtain p s1 where s1: "get_msg_from_cache_or_disk s ?k = Some (p, s1)" "run_state s1 n (us @ [?k])"
    "\<forall>j. in_int j \<longrightarrow> stored (dsk s1) j = stored (dsk s) j"
    "stats s1 = (if ?k \<in> set (last_n cap (remdups us))
                 then (stats s)\<lparr>hits := hits (stats s) + 1\<rparr>
                 else (stats s)\<lparr>misses := misses (stats s) + 1\<rparr>)"
    using run_step [OF Cons.prems(1) k assms(3)] Cons.prems(3) nn by auto
  have sum: "hits (stats s1) + misses (stats s1) = hits (stats s) + misses (stats s) + 1"
    using s1(4) by simp
  then obtain s' where "test_accesses s1 n rs = Some s'"
    "run_state s' n ((us @ [?k]) @ accessed n rs)"
    "\<forall>j. in_int j \<longrightarrow> stored (dsk s') j = stored (dsk s1) j"
    "hits (stats s') = hits (stats s1) + hit_count cap (us @ [?k]) (accessed n rs)"
    "hits (stats s') + misses (stats s') = hits (stats s1) + misses (stats s1) + int (length rs)"
    using Cons.IH [OF s1(2) rs] Cons.prems(3) by auto
  ultimately show ?case
    using s1(1,3,4) sum by (intro exI [of _ s']) simp
qed

lemma test_cache_run:
  assumes "run_state s n us" and "1 \<le> n" and "n \<le> HASH_SIZE" and "0 \<le> accesses" and "accesses \<le> INT_MAX"
    and "\<forall>i. 0 \<le> rand i \<and> rand i \<le> INT_MAX"
  defines "ids \<equiv> accessed n (map rand [0 ..< nat accesses])"
  shows "\<exists>st s'. test_cache s accesses n rand = Some (st, s') \<and> run_state s' n (us @ ids)
    \<and> (\<forall>j. in_int j \<longrightarrow> stored (dsk s') j = stored (dsk s) j)
    \<and> hits st = hit_count cap us ids \<and> hits st + misses st = accesses"
proof -
  let ?s0 = "s\<lparr>stats := \<lparr>hits = 0, misses = 0\<rparr>\<rparr>"
  have "cache_abs ?s0 kvs = cache_abs s kvs" for kvs by (simp add: cache_abs_def)
  with assms(1) have "run_state ?s0 n us" by (simp add: run_state_def)
  from accesses_run [OF this assms(2,3), of "map rand [0 ..< nat accesses]"] assms(4-6)
  show ?thesis by (auto simp: test_cache_def ids_def)
qed

section \<open>After initialisation\<close>

definition start_ready :: "cache \<Rightarrow> int \<Rightarrow> bool" where
  "start_ready s n \<longleftrightarrow> fresh_heap s \<and> disk_good (dsk s)
     \<and> (\<forall>k. 1 \<le> k \<and> k \<le> n \<longrightarrow> stored (dsk s) k \<noteq> None)"

lemma init_run_state:
  assumes "start_ready s n"
  shows "\<exists>s'. init_cache s = Some s' \<and> run_state s' n [] \<and> dsk s' = dsk s
    \<and> stats s' = \<lparr>hits = 0, misses = 0\<rparr>"
proof -
  have pre: "fresh_heap s" using assms by (simp add: start_ready_def)
  obtain s' where s': "init_cache s = Some s'" "cache_rel s' []" "mem_ok s'" "dsk s' = dsk s"
    "stats s' = \<lparr>hits = 0, misses = 0\<rparr>"
    using init_cache_rel [OF pre] by blast
  then have "cache_abs s' []" by (auto intro: cache_absI)
  with s' assms disk.coherent_empty show ?thesis
    by (auto simp: run_state_def start_ready_def last_n_def)
qed

lemma test_cache_lru_aux:
  assumes "start_ready s n" and "1 \<le> n" and "n \<le> HASH_SIZE" and "0 \<le> accesses" and "accesses \<le> INT_MAX"
    and "\<forall>i. 0 \<le> rand i \<and> rand i \<le> INT_MAX"
  defines "ids \<equiv> accessed n (map rand [0 ..< nat accesses])"
  shows "\<exists>s0 st s' kvs. init_cache s = Some s0 \<and> test_cache s0 accesses n rand = Some (st, s')
    \<and> hits st = hit_count 16 [] ids \<and> hits st + misses st = accesses
    \<and> cache_abs s' kvs \<and> lru_keys kvs = last_n 16 (remdups ids)
    \<and> (\<forall>(k, m) \<in> set kvs. stored (dsk s) k = Some m)"
proof -
  obtain s0 where s0: "init_cache s = Some s0" "run_state s0 n []" "dsk s0 = dsk s"
    using init_run_state [OF assms(1)] by blast
  obtain st s' where t: "test_cache s0 accesses n rand = Some (st, s')" "run_state s' n ids"
    "\<forall>j. in_int j \<longrightarrow> stored (dsk s') j = stored (dsk s) j"
    "hits st = hit_count cap [] ids" "hits st + misses st = accesses"
    using test_cache_run [OF s0(2) assms(2-6)] s0(3) by (auto simp: ids_def)
  obtain kvs where kvs: "cache_abs s' kvs" "disk.coherent (dsk s') kvs"
    "lru_keys kvs = last_n 16 (remdups ids)"
    using t(2) by (auto simp: run_state_def CACHE_CAPACITY_def)
  have "\<forall>(k, m) \<in> set kvs. stored (dsk s) k = Some m"
    using kvs(2) t(3) by (auto simp: disk.coherent_def)
  with s0(1) t kvs show ?thesis by (auto simp: CACHE_CAPACITY_def)
qed

section \<open>A sample state\<close>

text \<open>The state before \<open>init_cache\<close>: no nodes, one message of the caller in memory, and a disk.\<close>

definition sample_cache :: "disk \<Rightarrow> cache" where
  "sample_cache d = \<lparr>nodes = empty_store (\<lambda>_. Some \<lparr>prv = Null, nxt = Null, key = 0, value = Null\<rparr>),
     msgs = sample_heap, dsk = d, head = Null, tail = Null, current_size = 0, hash_table = [],
     stats = \<lparr>hits = 0, misses = 0\<rparr>\<rparr>"

lemma fresh_sample_cache [simp]: "fresh_heap (sample_cache d)"
  by (auto simp: fresh_heap_def sample_cache_def mem_ok_def empty_store_def live_def wf_store_def
      sample_heap_def split: if_splits)

lemma dsk_sample_cache [simp]: "dsk (sample_cache d) = d"
  and msgs_sample_cache [simp]: "msgs (sample_cache d) = sample_heap"
  and next_sample_cache [simp]: "next_addr (nodes (sample_cache d)) = 0"
  by (simp_all add: sample_cache_def empty_store_def)

lemma cells_sample_heap [simp]: "cells sample_heap 0 = Some (sample_msg 7)"
  by (simp add: sample_heap_def)

lemma start_ready_sample: "int n \<le> INT_MAX \<Longrightarrow> start_ready (sample_cache (sample_disk n)) (int n)"
  using sample_disk [of n] by (auto simp: start_ready_def)

lemma init_sample:
  assumes "int n \<le> INT_MAX"
  obtains s where "init_cache (sample_cache (sample_disk n)) = Some s" and "cache_abs s []"
    and "mem_ok s" and "dsk s = sample_disk n" and "msgs s = sample_heap"
    and "stats s = \<lparr>hits = 0, misses = 0\<rparr>" and "run_state s (int n) []"
proof -
  obtain s where s: "init_cache (sample_cache (sample_disk n)) = Some s" "cache_rel s []"
    "mem_ok s" "dsk s = sample_disk n" "msgs s = sample_heap" "stats s = \<lparr>hits = 0, misses = 0\<rparr>"
    using init_cache_rel [of "sample_cache (sample_disk n)"] by auto
  moreover have "run_state s (int n) []"
    using init_run_state [OF start_ready_sample [OF assms]] s(1) by auto
  moreover have "cache_abs s []" using s(2) by (auto intro: cache_absI)
  ultimately show thesis using that [of s] by blast
qed

lemma no_clash_Nil [simp]: "no_clash k []"
  by (simp add: no_clash_def)

section \<open>Properties\<close>

text \<open>C1: \<open>put_msg\<close> implements the abstract LRU update: started in a cache whose pointers
  represent the recency list \<open>kvs\<close>, with no other cached key in the home slot of
  the new one, it terminates without undefined behaviour in a cache that represents
  \<open>spec_put\<close> of it (existing key moved to the most recent end with the new value;
  new key appended, the least recent one evicted at sixteen), writes the message through to
  disk, and leaves the message of the caller and the statistics alone.\<close>

theorem put_msg_refines:
  assumes "cache_abs s kvs" and "mem_ok s" and "load (msgs s) p = Some m"
    and "0 \<le> msg_id m" and "wf_Message m" and "no_clash (msg_id m) (lru_keys kvs)"
    and "disk_ready (dsk s) (msg_id m)"
  shows "\<exists>s' kvs'. put_msg s p = Some s' \<and> cache_abs s' kvs'
    \<and> (dsk s', kvs') = spec_put save msg_id cap m (dsk s, kvs)
    \<and> load (msgs s') p = Some m \<and> stats s' = stats s \<and> mem_ok s'"
proof -
  obtain es where es: "cache_rel s es" "kvs = contents s es"
    using assms(1) by (auto simp: cache_abs_def)
  with assms(6) have "no_clash (msg_id m) (map e_key es)" by simp
  from put_msg_rel [OF es(1) assms(2-5) this assms(7)] es(2) show ?thesis
    by (auto simp: spec_put_def intro: cache_absI)
qed

theorem put_msg_refines_witness:
  "\<exists>s s' kvs'. init_cache (sample_cache (sample_disk 20)) = Some s
    \<and> put_msg s (Addr 0) = Some s' \<and> cache_abs s' kvs'
    \<and> (dsk s', kvs') = spec_put save msg_id cap (sample_msg 7) (sample_disk 20, [])
    \<and> load (msgs s') (Addr 0) = Some (sample_msg 7) \<and> stats s' = stats s \<and> mem_ok s'"
proof -
  obtain s where s: "init_cache (sample_cache (sample_disk 20)) = Some s" "cache_abs s []"
    "mem_ok s" "dsk s = sample_disk 20" "msgs s = sample_heap"
    by (rule init_sample [of 20]) auto
  have "in_int 7" by (simp add: in_int_def)
  then show ?thesis
    using put_msg_refines [OF s(2,3), of "Addr 0" "sample_msg 7"] s(1,4,5)
      disk_good_ready [OF sample_disk(1) [of 20]] by auto
qed



text \<open>The cache is transparent: while every cached value agrees with the disk, a lookup answers
  exactly what the disk holds for the identifier, keeps that agreement, and changes no message
  on disk.\<close>

theorem get_msg_transparent:
  assumes "cache_abs s kvs" and "disk.coherent (dsk s) kvs"
    and "mem_ok s" and "0 \<le> k" and "in_int k" and "disk_good (dsk s)"
    and "no_clash k (lru_keys kvs)"
    and "0 \<le> hits (stats s)" and "hits (stats s) < INT_MAX"
    and "0 \<le> misses (stats s)" and "misses (stats s) < INT_MAX"
  shows "\<exists>r s' kvs'. get_msg_from_cache_or_disk s k = Some (r, s')
    \<and> load (msgs s') r = stored (dsk s) k
    \<and> cache_abs s' kvs' \<and> disk.coherent (dsk s') kvs' \<and> disk_good (dsk s')
    \<and> (\<forall>j. in_int j \<longrightarrow> stored (dsk s') j = stored (dsk s) j)"
proof -
  obtain r s' kvs' where g: "get_msg_from_cache_or_disk s k = Some (r, s')" "cache_abs s' kvs'"
    "spec_get stored save msg_id cap k (dsk s, kvs) = (load (msgs s') r, (dsk s', kvs'))"
    using get_refines_aux [OF assms(1,3-11)] by blast
  with disk.get_transparent [OF assms(6,2,5) g(3)] show ?thesis by blast
qed

theorem get_msg_transparent_witness:
  "\<exists>s r s' kvs'. init_cache (sample_cache (sample_disk 20)) = Some s
    \<and> get_msg_from_cache_or_disk s 7 = Some (r, s') \<and> load (msgs s') r = Some (sample_msg 7)
    \<and> cache_abs s' kvs' \<and> disk.coherent (dsk s') kvs'"
proof -
  obtain s where s: "init_cache (sample_cache (sample_disk 20)) = Some s" "cache_abs s []"
    "mem_ok s" "dsk s = sample_disk 20" "stats s = \<lparr>hits = 0, misses = 0\<rparr>"
    by (rule init_sample [of 20]) auto
  have "in_int 7" by (simp add: in_int_def)
  then show ?thesis
    using get_msg_transparent [OF s(2) disk.coherent_empty s(3), of 7] s(1,4,5) sample_disk [of 20]
    by auto
qed

text \<open>A message put into the cache is what the cache and the disk hold for its identifier
  afterwards, the cached values still agree with the disk, and never more than sixteen messages
  are cached.\<close>

theorem put_msg_visible:
  assumes "cache_abs s kvs" and "disk.coherent (dsk s) kvs" and "disk_good (dsk s)"
    and "mem_ok s" and "load (msgs s) p = Some m"
    and "0 \<le> msg_id m" and "wf_Message m" and "no_clash (msg_id m) (lru_keys kvs)"
  shows "\<exists>s' kvs'. put_msg s p = Some s' \<and> cache_abs s' kvs' \<and> disk.coherent (dsk s') kvs'
    \<and> map_of kvs' (msg_id m) = Some m \<and> stored (dsk s') (msg_id m) = Some m
    \<and> length kvs' \<le> 16"
proof -
  obtain es where es: "cache_rel s es" "kvs = contents s es"
    using assms(1) by (auto simp: cache_abs_def)
  have nc: "no_clash (msg_id m) (map e_key es)" using assms(8) es(2) by simp
  have ready: "disk_ready (dsk s) (msg_id m)"
    using assms(3,7) by (simp add: disk_good_ready wf_Message_in_int)
  obtain s' es' where s': "put_msg s p = Some s'" "cache_rel s' es'"
    "contents s' es' = lru_put cap (msg_id m) m kvs" "dsk s' = save (dsk s) m"
    using put_msg_rel [OF es(1) assms(4-7) nc ready] es(2) by blast
  have "spec_put save msg_id cap m (dsk s, kvs) = (dsk s', contents s' es')"
    using s'(3,4) by (simp add: spec_put_def)
  note visible = disk.put_visible [OF assms(3,2,7) this]
  have "length (contents s' es') \<le> 16"
    using cache_rel_facts(3) [OF s'(2)] by (simp add: CACHE_CAPACITY_def)
  with visible s'(1,2) show ?thesis by (blast intro: cache_absI)
qed

theorem put_msg_visible_witness:
  "\<exists>s s' kvs'. init_cache (sample_cache (sample_disk 20)) = Some s
    \<and> put_msg s (Addr 0) = Some s' \<and> cache_abs s' kvs'
    \<and> map_of kvs' 7 = Some (sample_msg 7) \<and> stored (dsk s') 7 = Some (sample_msg 7)"
proof -
  obtain s where s: "init_cache (sample_cache (sample_disk 20)) = Some s" "cache_abs s []"
    "mem_ok s" "dsk s = sample_disk 20" "msgs s = sample_heap"
    by (rule init_sample [of 20]) auto
  have "in_int 7" by (simp add: in_int_def)
  then show ?thesis
    using put_msg_visible [OF s(2) disk.coherent_empty _ s(3), of "Addr 0" "sample_msg 7"] s(1,4,5)
      sample_disk(1) [of 20] by auto
qed

text \<open>C6: For at most 103 messages (no two of them share a home slot) \<open>test_cache\<close> is an
  exact LRU simulation for every number of accesses and every sequence of random numbers: it
  counts the hits of an ideal LRU cache of sixteen entries, every access is counted once, and
  the cached keys at the end are the sixteen used last, in order, with the messages the disk
  held at the start.\<close>

theorem test_cache_lru:
  assumes "start_ready s n" and "1 \<le> n" and "n \<le> HASH_SIZE" and "0 \<le> accesses" and "accesses \<le> INT_MAX"
    and "\<forall>i. 0 \<le> rand i \<and> rand i \<le> INT_MAX"
  defines "ids \<equiv> accessed n (map rand [0 ..< nat accesses])"
  shows "\<exists>s0 st s' kvs. init_cache s = Some s0 \<and> test_cache s0 accesses n rand = Some (st, s')
    \<and> hits st = hit_count 16 [] ids \<and> hits st + misses st = accesses
    \<and> cache_abs s' kvs \<and> lru_keys kvs = last_n 16 (remdups ids)
    \<and> (\<forall>(k, m) \<in> set kvs. stored (dsk s) k = Some m)"
  unfolding ids_def by (rule test_cache_lru_aux) (use assms in auto)

theorem test_cache_lru_witness:
  "\<exists>s0 st s' kvs. init_cache (sample_cache (sample_disk 20)) = Some s0
    \<and> test_cache s0 1000 20 (\<lambda>i. int (i mod 32768)) = Some (st, s')
    \<and> hits st = hit_count 16 [] (accessed 20 (map (\<lambda>i. int (i mod 32768)) [0 ..< nat 1000]))
    \<and> hits st + misses st = 1000
    \<and> cache_abs s' kvs
    \<and> lru_keys kvs = last_n 16 (remdups (accessed 20 (map (\<lambda>i. int (i mod 32768)) [0 ..< nat 1000])))
    \<and> (\<forall>(k, m) \<in> set kvs. stored (dsk (sample_cache (sample_disk 20))) k = Some m)"
proof (rule test_cache_lru)
  show "start_ready (sample_cache (sample_disk 20)) 20" using start_ready_sample [of 20] by simp
  have "int (i mod 32768) \<le> INT_MAX" for i
    using mod_less_divisor [of 32768 i] by linarith
  then show "\<forall>i. 0 \<le> int (i mod 32768) \<and> int (i mod 32768) \<le> INT_MAX"
    by simp
qed (simp_all add: HASH_SIZE_def)



end
