(* ===== verification/C_Double_Facts.thy ===== *)
theory C_Double_Facts
  imports C_Double
begin

text \<open>
  Facts about the doubles of \<open>C_Double\<close>: rounding yields a double, the nearest one; its relative error
  is at most \<open>unit_roundoff = 2 ^ -53\<close> away from the ends of the range; integers below \<open>2 ^ 53\<close> are exact.
\<close>

section \<open>Rounding to integers\<close>

lemma round_div_error: "0 < D \<Longrightarrow> 2 * \<bar>D * round_div N D - N\<bar> \<le> D"
proof -
  assume "0 < D"
  then have r: "0 \<le> N mod D" "N mod D < D" by simp_all
  have N: "N = D * (N div D) + N mod D" by simp
  have "D * round_div N D = D * (N div D) \<and> 2 * (N mod D) \<le> D
    \<or> D * round_div N D = D * (N div D) + D \<and> D \<le> 2 * (N mod D)"
    by (auto simp: round_div_def Let_def algebra_simps)
  moreover have "2 * \<bar>x - N\<bar> \<le> D"
    if "N = t + r" "0 \<le> r" "r < D" "x = t \<and> 2 * r \<le> D \<or> x = t + D \<and> D \<le> 2 * r" for x t r
    using that by auto
  ultimately show ?thesis using r N by blast
qed

lemma round_div_error_real:
  assumes "0 < D"
  shows "\<bar>of_int (round_div N D) - of_int N / of_int D\<bar> \<le> (1 / 2 :: real)"
proof -
  have "(of_int (2 * \<bar>D * round_div N D - N\<bar>) :: real) \<le> of_int D"
    using round_div_error [OF assms, of N] by (simp only: of_int_le_iff)
  then have "2 * \<bar>of_int D * of_int (round_div N D) - of_int N\<bar> \<le> (of_int D :: real)"
    by simp
  then have "2 * \<bar>of_int D * (of_int (round_div N D) - of_int N / of_int D)\<bar> \<le> (of_int D :: real)"
    using assms by (simp add: right_diff_distrib)
  then show ?thesis using assms by (simp add: abs_mult)
qed

lemma round_div_nearest:
  assumes "0 < D"
  shows "\<bar>of_int (round_div N D) - of_int N / of_int D\<bar> \<le> \<bar>of_int k - (of_int N / of_int D :: real)\<bar>"
proof (cases "k = round_div N D")
  case False
  then have "1 \<le> \<bar>of_int k - (of_int (round_div N D) :: real)\<bar>"
    by (metis of_int_1_le_iff of_int_abs of_int_diff abs_ge_self int_one_le_iff_zero_less
        right_minus_eq zero_less_abs_iff)
  then show ?thesis using round_div_error_real [OF assms, of N] by linarith
qed simp

lemma round_div_one [simp]: "round_div N 1 = N"
  by (simp add: round_div_def)

lemma powi_nats: "(2 :: real) ^ nat (- q) / 2 ^ nat q = 2 powi (- q)"
  by (cases "0 \<le> q") (simp_all add: power_int_def power_one_over)

lemma scaled_quotient:
  assumes "0 < d"
  shows "of_int (n * 2 ^ nat (- q)) / of_int (d * 2 ^ nat q) = (of_int n / of_int d * 2 powi (- q) :: real)"
  using assms by (simp flip: powi_nats)

lemma scaled_error:
  "0 < d \<Longrightarrow> \<bar>of_int (scaled n d q) - of_int n / of_int d * 2 powi (- q)\<bar> \<le> (1 / 2 :: real)"
  using round_div_error_real [of "d * 2 ^ nat q" "n * 2 ^ nat (- q)"] scaled_quotient [of d n q]
  by (simp add: scaled_def)

lemma scaled_nearest:
  "0 < d \<Longrightarrow> \<bar>of_int (scaled n d q) - of_int n / of_int d * 2 powi (- q)\<bar>
    \<le> \<bar>of_int k - (of_int n / of_int d * 2 powi (- q) :: real)\<bar>"
  using round_div_nearest [of "d * 2 ^ nat q" "n * 2 ^ nat (- q)" k] scaled_quotient [of d n q]
  by (simp add: scaled_def)

section \<open>The exponent\<close>

lemma bit_length_bounds: "0 < n \<Longrightarrow> 0 < bit_length n \<and> 2 ^ nat (bit_length n - 1) \<le> n \<and> n < 2 ^ nat (bit_length n)"
proof (induction n rule: bit_length.induct)
  case (1 n)
  have eq: "bit_length n = 1 + bit_length (n div 2)"
    using "1.prems" by (subst bit_length.simps) simp
  show ?case
  proof (cases "n = 1")
    case True
    then show ?thesis unfolding eq by (simp add: bit_length.simps)
  next
    case False
    with "1.prems" have "0 < n div 2" by linarith
    with 1 have IH: "0 < bit_length (n div 2)" "2 ^ nat (bit_length (n div 2) - 1) \<le> n div 2"
      "n div 2 < 2 ^ nat (bit_length (n div 2))" by simp_all
    have s: "nat (bit_length (n div 2)) = Suc (nat (bit_length (n div 2) - 1))"
      "nat (1 + bit_length (n div 2)) = Suc (nat (bit_length (n div 2)))" using IH(1) by auto
    have "2 ^ nat (bit_length (n div 2)) \<le> n" using IH(2) unfolding s by simp
    moreover have "n < 2 ^ Suc (nat (bit_length (n div 2)))" using IH(3) by simp
    ultimately show ?thesis using IH(1) by (simp add: eq s(2))
  qed
qed

lemma powi_nat_real: "0 \<le> k \<Longrightarrow> (2 :: real) powi k = 2 ^ nat k"
  by (simp add: power_int_def)

lemma bit_length_real:
  assumes "0 < n"
  shows "2 powi (bit_length n - 1) \<le> (of_int n :: real)" and "of_int n < (2 :: real) powi bit_length n"
proof -
  have "(of_int (2 ^ nat (bit_length n - 1)) :: real) \<le> of_int n"
    and "of_int n < (of_int (2 ^ nat (bit_length n)) :: real)"
    using bit_length_bounds [OF assms] by (simp_all only: of_int_le_iff of_int_less_iff)
  then show "2 powi (bit_length n - 1) \<le> (of_int n :: real)" and "of_int n < (2 :: real) powi bit_length n"
    using bit_length_bounds [OF assms] by (simp_all add: powi_nat_real)
qed

lemma exponent_test:
  assumes "0 < d"
  shows "d * 2 ^ nat e \<le> n * 2 ^ nat (- e) \<longleftrightarrow> 2 powi e \<le> (of_int n / of_int d :: real)"
proof -
  have "d * 2 ^ nat e \<le> n * 2 ^ nat (- e) \<longleftrightarrow> (of_int (d * 2 ^ nat e) :: real) \<le> of_int (n * 2 ^ nat (- e))"
    by (simp only: of_int_le_iff)
  also have "\<dots> \<longleftrightarrow> of_int d * 2 powi e \<le> (of_int n :: real)"
    by (cases "0 \<le> e") (simp_all add: power_int_def field_simps)
  also have "\<dots> \<longleftrightarrow> 2 powi e \<le> (of_int n / of_int d :: real)"
    using assms by (simp add: field_simps)
  finally show ?thesis .
qed

lemma exponent_bounds:
  assumes "0 < n" and "0 < d"
  shows "2 powi exponent n d \<le> (of_int n / of_int d :: real)"
    and "of_int n / of_int d < (2 :: real) powi (exponent n d + 1)"
proof -
  define e where "e = bit_length n - bit_length d"
  let ?x = "of_int n / of_int d :: real"
  note b = bit_length_real [OF assms(1)] bit_length_real [OF assms(2)]
  have d: "0 < (of_int d :: real)" using assms(2) by simp
  have "(2 :: real) powi (e - 1) * of_int d \<le> 2 powi (e - 1) * 2 powi bit_length d"
    using b(4) by (intro mult_left_mono) simp_all
  also have "\<dots> = 2 powi (bit_length n - 1)" by (simp add: e_def flip: power_int_add)
  finally have "(2 :: real) powi (e - 1) * of_int d \<le> of_int n" using b(1) by linarith
  then have lo: "2 powi (e - 1) \<le> ?x" using d by (simp add: field_simps)
  have "2 powi bit_length n = (2 powi (e + 1) * 2 powi (bit_length d - 1) :: real)"
    by (simp add: e_def flip: power_int_add)
  also have "\<dots> \<le> 2 powi (e + 1) * of_int d" using b(3) by (intro mult_left_mono) simp_all
  finally have hi: "?x < 2 powi (e + 1)" using b(2) d by (simp add: field_simps)
  show "2 powi exponent n d \<le> ?x" "?x < 2 powi (exponent n d + 1)"
    using lo hi exponent_test [OF assms(2), of e n] by (auto simp: exponent_def Let_def e_def not_le)
qed

lemma powi_mono2: "i \<le> j \<Longrightarrow> (2 :: real) powi i \<le> 2 powi j"
  by (rule power_int_increasing) simp_all

lemma powi_less_iff2: "(2 :: real) powi i < 2 powi j \<longleftrightarrow> i < j"
  using powi_mono2 [of j i] power_int_strict_increasing [of i j "2 :: real"] by fastforce

section \<open>Rounding to doubles\<close>

lemma scaled_le: "0 < d \<Longrightarrow> of_int n / of_int d * 2 powi (- q) \<le> (of_int k :: real) \<Longrightarrow> scaled n d q \<le> k"
  using scaled_nearest [of d n q k] by linarith

lemma scaled_ge: "0 < d \<Longrightarrow> (of_int k :: real) \<le> of_int n / of_int d * 2 powi (- q) \<Longrightarrow> k \<le> scaled n d q"
  using scaled_nearest [of d n q k] by linarith

lemma scaled_zero [simp]: "0 < d \<Longrightarrow> scaled 0 d q = 0"
  by (simp add: scaled_def round_div_def)

lemma powi_cancel [simp]: "(2 :: real) powi (- q) * 2 powi q = 1" "(2 :: real) powi q * 2 powi (- q) = 1"
  by (simp_all flip: power_int_add)

lemma div_powi_le: "x \<le> a * 2 powi q \<longleftrightarrow> x * 2 powi (- q) \<le> (a :: real)"
proof -
  have "x \<le> a * 2 powi q \<longleftrightarrow> x * 2 powi (- q) \<le> a * 2 powi q * 2 powi (- q)"
    by (rule mult_le_cancel_right_pos [symmetric]) simp
  then show ?thesis by (simp add: mult.assoc)
qed

lemma le_div_powi: "a * 2 powi q \<le> x \<longleftrightarrow> a \<le> x * 2 powi (- q :: int)" for a x :: real
proof -
  have "a * 2 powi q \<le> x \<longleftrightarrow> a * 2 powi q * 2 powi (- q) \<le> x * 2 powi (- q)"
    by (rule mult_le_cancel_right_pos [symmetric]) simp
  then show ?thesis by (simp add: mult.assoc)
qed

lemma scaled_unit_bounds:
  assumes "0 < n" and "0 < d"
  defines "q \<equiv> unit_exponent n d"
  shows "- 1074 \<le> q" and "0 \<le> scaled n d q" and "scaled n d q \<le> 2 ^ 53"
    and "2 ^ 52 \<le> scaled n d q \<or> q = - 1074"
proof -
  let ?x = "of_int n / of_int d :: real" and ?e = "exponent n d"
  note b = exponent_bounds [OF assms(1,2)]
  show "- 1074 \<le> q" by (simp add: q_def unit_exponent_def)
  show "0 \<le> scaled n d q" using assms(1,2) by (intro scaled_ge) simp_all
  have "?e + 1 \<le> 53 + q" by (simp add: q_def unit_exponent_def)
  then have "?x \<le> 2 powi (53 + q)" using b(2) powi_mono2 [of "?e + 1" "53 + q"] by linarith
  then have "?x \<le> 2 ^ 53 * 2 powi q" by (simp add: power_int_add powi_nat_real)
  then show "scaled n d q \<le> 2 ^ 53" using assms(2) by (intro scaled_le) (simp_all add: div_powi_le)
  show "2 ^ 52 \<le> scaled n d q \<or> q = - 1074"
  proof (cases "q = - 1074")
    case False
    then have "?e = 52 + q" by (auto simp: q_def unit_exponent_def max_def split: if_splits)
    then have "2 ^ 52 * 2 powi q \<le> ?x" using b(1) by (simp add: power_int_add powi_nat_real)
    then show ?thesis using assms(2) by (intro disjI1 scaled_ge) (simp_all add: le_div_powi)
  qed simp
qed

text \<open>Rounding gives a double.\<close>

lemma rnd_is_double: "0 \<le> n \<Longrightarrow> 0 < d \<Longrightarrow> is_double (rnd s n d)"
proof (cases "n = 0")
  case False
  assume "0 \<le> n" "0 < d"
  with False have "0 < n" "0 < d" by simp_all
  note scaled_unit_bounds [OF this]
  with False show ?thesis by (auto simp: rnd_def Let_def)
qed (simp add: rnd_def)

lemma rnd_not_NaN [simp]: "rnd s n d \<noteq> NaN"
  by (simp add: rnd_def Let_def split: prod.split)

lemma rnd_value:
  assumes "0 < n" and "0 < d"
  defines "q \<equiv> unit_exponent n d"
  assumes "q < 971 \<or> q = 971 \<and> scaled n d q < 2 ^ 53"
  obtains m e where "rnd s n d = Fin s m e" and "of_int m * 2 powi e = (of_int (scaled n d q) * 2 powi q :: real)"
proof (cases "scaled n d q = 2 ^ 53")
  case True
  show ?thesis
  proof (rule that)
    show "rnd s n d = Fin s (2 ^ 52) (q + 1)" using True assms by (simp add: rnd_def)
    show "of_int (2 ^ 52) * 2 powi (q + 1) = (of_int (scaled n d q) * 2 powi q :: real)"
      unfolding True by (simp add: power_int_add)
  qed
next
  case False
  show ?thesis by (rule that [of "scaled n d q" q]) (use False assms in \<open>auto simp: rnd_def Let_def\<close>)
qed

text \<open>The error is at most half a unit in the last place.\<close>

lemma scaled_unit_error:
  assumes "0 < d"
  shows "\<bar>of_int (scaled n d q) * 2 powi q - of_int n / of_int d\<bar> \<le> (2 powi (q - 1) :: real)"
proof -
  let ?y = "of_int n / of_int d * 2 powi (- q) :: real"
  have "of_int (scaled n d q) * 2 powi q - of_int n / of_int d = ((of_int (scaled n d q) - ?y) * 2 powi q :: real)"
    by (simp add: left_diff_distrib mult.assoc)
  then have "\<bar>of_int (scaled n d q) * 2 powi q - of_int n / of_int d\<bar>
      = (\<bar>of_int (scaled n d q) - ?y\<bar> * 2 powi q :: real)" by (simp add: abs_mult)
  also have "\<dots> \<le> 1 / 2 * 2 powi q" using scaled_error [OF assms, of n q] by (intro mult_right_mono) simp_all
  finally show ?thesis by (simp add: power_int_diff)
qed

definition in_range :: "real \<Rightarrow> bool" where
  "in_range x \<longleftrightarrow> 2 powi - 1022 \<le> x \<and> x < 2 powi 1023"

definition unit_roundoff :: real where
  "unit_roundoff = 2 powi - 53"

lemma rnd_relative_error:
  assumes "0 < n" and "0 < d" and range: "in_range (of_int n / of_int d)"
  obtains m e where "rnd s n d = Fin s m e"
    and "\<bar>of_int m * 2 powi e - of_int n / of_int d\<bar> \<le> of_int n / of_int d * unit_roundoff"
proof -
  let ?x = "of_int n / of_int d :: real" and ?e = "exponent n d"
  note b = exponent_bounds [OF assms(1,2)]
  have "(2 :: real) powi ?e < 2 powi 1023" "(2 :: real) powi - 1022 < 2 powi (?e + 1)"
    using b range unfolding in_range_def by linarith+
  then have e: "?e < 1023" "- 1022 \<le> ?e" unfolding powi_less_iff2 by simp_all
  then have q: "unit_exponent n d = ?e - 52" by (simp add: unit_exponent_def)
  with e obtain m e' where m: "rnd s n d = Fin s m e'"
    "of_int m * 2 powi e' = (of_int (scaled n d (?e - 52)) * 2 powi (?e - 52) :: real)"
    using rnd_value [OF assms(1,2), of s] by auto
  have "\<bar>of_int m * 2 powi e' - ?x\<bar> \<le> 2 powi (?e - 52 - 1)"
    unfolding m(2) by (rule scaled_unit_error [OF assms(2)])
  also have "\<dots> = 2 powi ?e * unit_roundoff" by (simp add: unit_roundoff_def power_int_diff)
  also have "\<dots> \<le> ?x * unit_roundoff" using b(1) by (intro mult_right_mono) (simp_all add: unit_roundoff_def)
  finally show ?thesis using m(1) that by blast
qed

text \<open>A number that is not too small is not rounded to zero.\<close>

lemma rnd_not_zero:
  assumes "0 < n" and "0 < d" and "2 powi - 1021 \<le> (of_int n / of_int d :: real)"
  shows "\<not> is_zero (rnd s n d)"
proof -
  have "(2 :: real) powi - 1021 < 2 powi (exponent n d + 1)"
    using assms(3) exponent_bounds(2) [OF assms(1,2)] by linarith
  then have "- 1021 \<le> exponent n d" unfolding powi_less_iff2 by simp
  then have "2 ^ 52 \<le> scaled n d (unit_exponent n d)"
    using scaled_unit_bounds(4) [OF assms(1,2)] by (auto simp: unit_exponent_def)
  then show ?thesis using assms(1) by (auto simp: rnd_def Let_def)
qed

text \<open>No double is nearer than the one rounding gives.\<close>

lemma double_multiple:
  assumes "is_double (Fin t k f)" and "q \<le> f"
  obtains j where "val (Fin t k f) = of_int j * 2 powi q"
proof -
  have "(2 :: real) powi f = of_int (2 ^ nat (f - q)) * 2 powi q"
    using assms(2) by (simp flip: powi_nat_real power_int_add)
  then have "val (Fin t k f) = of_int ((if t then - k else k) * 2 ^ nat (f - q)) * 2 powi q" by simp
  then show ?thesis by (rule that)
qed

lemma double_small:
  assumes "is_double (Fin t k f)"
  shows "val (Fin t k f) \<le> 2 powi (f + 53)"
proof -
  have "k \<le> 2 ^ 53" using assms by simp
  then have "(of_int k :: real) \<le> of_int (2 ^ 53)" by (simp only: of_int_le_iff)
  then have "of_int k * 2 powi f \<le> (2 ^ 53 * 2 powi f :: real)" by (intro mult_right_mono) simp_all
  also have "\<dots> = 2 powi (f + 53)" by (simp add: power_int_add powi_nat_real)
  finally have k: "of_int k * 2 powi f \<le> (2 powi (f + 53) :: real)" .
  have "- (of_int k * 2 powi f) \<le> (0 :: real)" using assms by simp
  also have "(0 :: real) \<le> 2 powi (f + 53)" by simp
  finally have "- (of_int k * 2 powi f) \<le> (2 powi (f + 53) :: real)" .
  with k show ?thesis by (cases t) simp_all
qed

lemma scaled_unit_nearest:
  assumes "0 < n" and "0 < d" and "is_double y" and "finite_double y"
  defines "q \<equiv> unit_exponent n d" and "x \<equiv> of_int n / of_int d :: real"
  shows "\<bar>of_int (scaled n d q) * 2 powi q - x\<bar> \<le> \<bar>val y - x\<bar>"
proof -
  let ?r = "of_int (scaled n d q) * 2 powi q :: real"
  have near: "\<bar>?r - x\<bar> \<le> \<bar>of_int j * 2 powi q - x\<bar>" for j
  proof -
    have "\<bar>a * 2 powi q - x\<bar> = \<bar>a - x * 2 powi (- q)\<bar> * 2 powi q" for a :: real
    proof -
      have "a * 2 powi q - x = (a - x * 2 powi (- q)) * 2 powi q"
        by (simp add: left_diff_distrib mult.assoc)
      then show ?thesis by (simp add: abs_mult)
    qed
    then show ?thesis
      using scaled_nearest [OF assms(2), of n q j] unfolding x_def by (simp only:) (intro mult_right_mono, simp_all)
  qed
  obtain t k f where y: "y = Fin t k f" using assms(4) by (rule finite_doubleE)
  show ?thesis
  proof (cases "q \<le> f")
    case True
    then show ?thesis using double_multiple [of t k f q] assms(3) near unfolding y by metis
  next
    case False
    then have "q \<noteq> - 1074" using assms(3) by (auto simp: y)
    then have q: "q = exponent n d - 52" by (auto simp: q_def unit_exponent_def max_def split: if_splits)
    have "val y \<le> 2 powi (f + 53)" using double_small assms(3) unfolding y by blast
    also have "\<dots> \<le> 2 powi (52 + q)" using False by (intro powi_mono2) simp
    finally have v: "val y \<le> of_int (2 ^ 52) * 2 powi q" by (simp add: power_int_add powi_nat_real)
    have "of_int (2 ^ 52) * 2 powi q = (2 powi exponent n d :: real)"
      by (simp add: q power_int_diff)
    then have "of_int (2 ^ 52) * 2 powi q \<le> x" using exponent_bounds(1) [OF assms(1,2)] by (simp add: x_def)
    with v near [of "2 ^ 52"] show ?thesis by linarith
  qed
qed

lemma rnd_nearest:
  assumes "0 < n" and "0 < d" and "is_double y" and "finite_double y" and "rnd s n d = Fin s m e"
  shows "\<bar>of_int m * 2 powi e - of_int n / of_int d\<bar> \<le> \<bar>val y - of_int n / of_int d\<bar>"
proof -
  have "unit_exponent n d < 971 \<or> unit_exponent n d = 971 \<and> scaled n d (unit_exponent n d) < 2 ^ 53"
    using assms(5) scaled_unit_bounds(3) [OF assms(1,2)] assms(1)
    by (auto simp: rnd_def Let_def split: if_splits)
  from rnd_value [OF assms(1,2) this, of s] assms(5)
  have "of_int m * 2 powi e = (of_int (scaled n d (unit_exponent n d)) * 2 powi unit_exponent n d :: real)"
    by (metis double.inject(1))
  with scaled_unit_nearest [OF assms(1-4)] show ?thesis by simp
qed

text \<open>Small integers are exact.\<close>

lemma unit_exponent_int:
  assumes "0 < n" and "n \<le> 2 ^ 53"
  shows "unit_exponent n 1 \<le> 1" and "n < 2 ^ 53 \<Longrightarrow> unit_exponent n 1 \<le> 0"
proof -
  have "2 powi exponent n 1 \<le> (of_int n :: real)" using exponent_bounds(1) [of n 1] assms(1) by simp
  moreover have "(of_int n :: real) \<le> of_int (2 ^ 53)" using assms(2) by (simp only: of_int_le_iff)
  moreover have "(of_int n :: real) < of_int (2 ^ 53)" if "n < 2 ^ 53" using that by (simp only: of_int_less_iff)
  ultimately have "(2 :: real) powi exponent n 1 < 2 powi 54" "n < 2 ^ 53 \<Longrightarrow> (2 :: real) powi exponent n 1 < 2 powi 53"
    by (auto simp: powi_nat_real)
  then show "unit_exponent n 1 \<le> 1" and "n < 2 ^ 53 \<Longrightarrow> unit_exponent n 1 \<le> 0"
    unfolding powi_less_iff2 by (auto simp: unit_exponent_def)
qed

lemma rnd_int:
  assumes "0 \<le> n" and "n < 2 ^ 53"
  shows "\<exists>m e. rnd s n 1 = Fin s m e \<and> of_int m * 2 powi e = (of_int n :: real)"
proof (cases "n = 0")
  case False
  let ?q = "unit_exponent n 1"
  have q: "?q \<le> 0" using unit_exponent_int [of n] assms False by simp
  then have "scaled n 1 ?q = n * 2 ^ nat (- ?q)" by (simp add: scaled_def)
  then have "of_int (scaled n 1 ?q) * 2 powi ?q = (of_int n :: real)"
    using q by (simp flip: powi_nat_real)
  then show ?thesis using rnd_value [of n 1 s] q False assms(1) by (metis less_le linorder_not_le
        order_less_le_trans zero_less_one zero_less_numeral)
qed (simp add: rnd_def)

section \<open>The operations\<close>

lemma d_of_int_is_double [simp]: "is_double (d_of_int i)"
  by (simp add: d_of_int_def rnd_is_double)

lemma d_lit_is_double: "0 \<le> n \<Longrightarrow> 0 < d \<Longrightarrow> is_double (d_lit n d)"
  by (simp add: d_lit_def rnd_is_double)

lemma d_mul_is_double: "is_double a \<Longrightarrow> is_double b \<Longrightarrow> is_double (d_mul a b)"
  by (cases "(a, b)" rule: d_mul.cases) (auto intro!: rnd_is_double)

lemma d_div_is_double: "is_double a \<Longrightarrow> is_double b \<Longrightarrow> is_double (d_div a b)"
  by (cases "(a, b)" rule: d_div.cases) (auto intro!: rnd_is_double)

lemma val_zero_iff: "finite_double a \<Longrightarrow> val a = 0 \<longleftrightarrow> is_zero a"
  by (cases a) simp_all

lemma d_of_int_val:
  assumes "\<bar>i\<bar> < 2 ^ 53"
  shows "finite_double (d_of_int i)" and "val (d_of_int i) = of_int i"
  using rnd_int [of "\<bar>i\<bar>" "i < 0"] assms by (auto simp: d_of_int_def)

text \<open>Rounding a fraction with a sign.\<close>

definition near :: "double \<Rightarrow> real \<Rightarrow> bool" where
  "near a x \<longleftrightarrow> finite_double a \<and> \<bar>val a - x\<bar> \<le> \<bar>x\<bar> * unit_roundoff
     \<and> (\<forall>y. is_double y \<and> finite_double y \<longrightarrow> \<bar>val a - x\<bar> \<le> \<bar>val y - x\<bar>)"

lemma nearD:
  assumes "near a x"
  shows "finite_double a" and "\<bar>val a - x\<bar> \<le> \<bar>x\<bar> * unit_roundoff"
    and "is_double y \<Longrightarrow> finite_double y \<Longrightarrow> \<bar>val a - x\<bar> \<le> \<bar>val y - x\<bar>"
  using assms by (simp_all add: near_def)

lemma opposite_double:
  assumes "is_double y" and "finite_double y"
  obtains z where "is_double z" and "finite_double z" and "val z = - val y"
proof -
  obtain s m e where "y = Fin s m e" using assms(2) by (rule finite_doubleE)
  with assms that [of "Fin (\<not> s) m e"] show ?thesis by simp
qed

lemma rnd_near:
  assumes "0 \<le> n" and "0 < d" and "in_range (of_int n / of_int d)"
  shows "near (rnd s n d) ((if s then - 1 else 1) * (of_int n / of_int d))"
proof -
  let ?x = "of_int n / of_int d :: real" and ?sg = "if s then - 1 else 1 :: real"
  have "(0 :: real) < 2 powi - 1022" by simp
  then have "0 < ?x" using assms(3) unfolding in_range_def by linarith
  then have "0 < n" using assms(1,2) by (simp add: zero_less_divide_iff)
  from rnd_relative_error [OF this assms(2,3), of s] obtain m e where r: "rnd s n d = Fin s m e"
    "\<bar>of_int m * 2 powi e - ?x\<bar> \<le> ?x * unit_roundoff" .
  have sg: "\<bar>?sg * y - ?sg * x\<bar> = \<bar>y - x\<bar>" for x y by (cases s) (simp_all add: abs_minus_commute)
  have "\<bar>of_int m * 2 powi e - ?x\<bar> \<le> \<bar>val y - ?sg * ?x\<bar>" if y: "is_double y" "finite_double y" for y
  proof -
    obtain z where "is_double z" "finite_double z" "val z = ?sg * val y"
      using y opposite_double [OF y] by (cases s) auto
    then have "\<bar>of_int m * 2 powi e - ?x\<bar> \<le> \<bar>?sg * val y - ?x\<bar>"
      using rnd_nearest [OF \<open>0 < n\<close> assms(2) _ _ r(1), of z] by simp
    also have "\<dots> = \<bar>val y - ?sg * ?x\<bar>" by (cases s) (simp_all add: abs_minus_commute)
    finally show ?thesis .
  qed
  moreover have "\<bar>?sg * ?x\<bar> = ?x" using assms(1,2) by simp
  ultimately show ?thesis using r unfolding near_def r(1) val.simps sg by simp
qed

text \<open>The exact results of the operations as fractions.\<close>

lemma d_mul_rnd:
  assumes "is_double a" "is_double b" "finite_double a" "finite_double b"
  obtains s n d where "d_mul a b = rnd s n d" and "0 \<le> n" and "0 < d"
    and "of_int n / of_int d = \<bar>val a * val b\<bar>" and "val a * val b = (if s then - 1 else 1) * (of_int n / of_int d)"
proof -
  obtain s m e where a: "a = Fin s m e" using assms(3) by (rule finite_doubleE)
  obtain t n f where b: "b = Fin t n f" using assms(4) by (rule finite_doubleE)
  let ?n = "m * n * 2 ^ nat (e + f)" and ?d = "2 ^ nat (- (e + f)) :: int"
  have frac: "of_int ?n / of_int ?d = (of_int m * 2 powi e * (of_int n * 2 powi f) :: real)"
    using powi_nats [of "- (e + f)"] by (simp add: power_int_add field_simps)
  have mn: "0 \<le> m" "0 \<le> n" using assms(1,2) by (simp_all add: a b)
  show ?thesis
  proof (rule that)
    show "d_mul a b = rnd (s \<noteq> t) ?n ?d" by (simp add: a b)
    show "of_int ?n / of_int ?d = \<bar>val a * val b\<bar>" unfolding frac using mn by (simp add: a b abs_mult)
    show "val a * val b = (if s \<noteq> t then - 1 else 1) * (of_int ?n / of_int ?d)"
      unfolding frac by (simp add: a b)
  qed (use mn in simp_all)
qed

lemma d_div_rnd:
  assumes "is_double a" "is_double b" "finite_double a" "finite_double b" and "val b \<noteq> 0"
  obtains s n d where "d_div a b = rnd s n d" and "0 \<le> n" and "0 < d"
    and "of_int n / of_int d = \<bar>val a / val b\<bar>" and "val a / val b = (if s then - 1 else 1) * (of_int n / of_int d)"
proof -
  obtain s m e where a: "a = Fin s m e" using assms(3) by (rule finite_doubleE)
  obtain t n f where b: "b = Fin t n f" using assms(4) by (rule finite_doubleE)
  have mn: "0 \<le> m" "0 < n" using assms(1,2,5) by (simp_all add: a b)
  let ?n = "m * 2 ^ nat (e - f)" and ?d = "n * 2 ^ nat (f - e)"
  have "of_int ?n / of_int ?d = (of_int m / of_int n * (2 ^ nat (e - f) / 2 ^ nat (f - e)) :: real)" by simp
  also have "\<dots> = of_int m / of_int n * 2 powi (e - f)" using powi_nats [of "f - e"] by simp
  finally have frac: "of_int ?n / of_int ?d = (of_int m * 2 powi e / (of_int n * 2 powi f) :: real)"
    by (simp add: power_int_diff)
  show ?thesis
  proof (rule that)
    show "d_div a b = rnd (s \<noteq> t) ?n ?d" using mn by (simp add: a b)
    show "of_int ?n / of_int ?d = \<bar>val a / val b\<bar>" unfolding frac using mn by (simp add: a b abs_mult)
    show "val a / val b = (if s \<noteq> t then - 1 else 1) * (of_int ?n / of_int ?d)"
      unfolding frac by (simp add: a b)
  qed (use mn in simp_all)
qed

lemma d_mul_near:
  assumes "is_double a" "is_double b" "finite_double a" "finite_double b" and "in_range \<bar>val a * val b\<bar>"
  shows "near (d_mul a b) (val a * val b)"
  using d_mul_rnd [OF assms(1-4)] assms(5) by (metis rnd_near)

lemma d_div_near:
  assumes "is_double a" "is_double b" "finite_double a" "finite_double b" and "in_range \<bar>val a / val b\<bar>"
    and "val b \<noteq> 0"
  shows "near (d_div a b) (val a / val b)"
  using d_div_rnd [OF assms(1-4,6)] assms(5) by (metis rnd_near)

text \<open>What \<open>fixed\<close> prints is half a unit of its last decimal away from the number.\<close>

lemma decimal_error:
  "\<bar>of_int (scaled (m * 10 ^ p) 1 (- e)) / 10 ^ p - of_int m * 2 powi e\<bar> \<le> (1 / (2 * 10 ^ p) :: real)"
proof -
  have "\<bar>of_int (scaled (m * 10 ^ p) 1 (- e)) - of_int m * 2 powi e * 10 ^ p\<bar> \<le> (1 / 2 :: real)"
    using scaled_error [of 1 "m * 10 ^ p" "- e"] by (simp add: mult.commute mult.left_commute)
  then have "\<bar>of_int (scaled (m * 10 ^ p) 1 (- e)) - of_int m * 2 powi e * 10 ^ p\<bar> / 10 ^ p \<le> (1 / 2 / 10 ^ p :: real)"
    by (intro divide_right_mono) simp_all
  moreover have "\<bar>x - y * 10 ^ p\<bar> / 10 ^ p = \<bar>x / 10 ^ p - y\<bar>" for x y :: real
  proof -
    have "x / 10 ^ p - y = (x - y * 10 ^ p) / 10 ^ p" by (simp add: diff_divide_distrib)
    then show ?thesis by (simp add: abs_divide)
  qed
  ultimately show ?thesis by simp
qed

section \<open>Bounds for products and quotients\<close>

lemma val_le_max:
  assumes "is_double a" shows "\<bar>val a\<bar> \<le> 2 powi 1024"
proof (cases a)
  case (Fin s m e)
  then have "m \<le> 2 ^ 53" "0 \<le> m" "e + 53 \<le> 1024" using assms by simp_all
  then have "(of_int m :: real) \<le> of_int (2 ^ 53)" by (simp only: of_int_le_iff)
  then have "of_int m * 2 powi e \<le> (2 ^ 53 * 2 powi e :: real)" by (intro mult_right_mono) simp_all
  also have "\<dots> = 2 powi (e + 53)" by (simp add: power_int_add powi_nat_real)
  also have "\<dots> \<le> (2 :: real) powi 1024" by (rule powi_mono2) fact
  finally show ?thesis using \<open>0 \<le> m\<close> unfolding Fin by (simp add: abs_mult del: power_int_numeral)
qed simp_all

lemma powi_mult_ge: "2 powi i \<le> x \<Longrightarrow> 2 powi j \<le> y \<Longrightarrow> (2 :: real) powi (i + j) \<le> x * y"
  unfolding power_int_add [of "2 :: real" i j, simplified] by (rule mult_mono) (auto intro: order_trans [rotated])

lemma powi_mult_less: "0 \<le> y \<Longrightarrow> x \<le> 2 powi i \<Longrightarrow> y < 2 powi j \<Longrightarrow> x * y < (2 :: real) powi (i + j)"
proof -
  assume "0 \<le> y" "x \<le> 2 powi i" "y < 2 powi j"
  then have "x * y \<le> 2 powi i * y" by (intro mult_right_mono)
  also have "\<dots> < 2 powi i * 2 powi j" using \<open>y < 2 powi j\<close> by simp
  finally show ?thesis by (simp add: power_int_add)
qed

lemma powi_div_ge: "2 powi i \<le> x \<Longrightarrow> 0 < y \<Longrightarrow> y \<le> 2 powi j \<Longrightarrow> (2 :: real) powi (i - j) \<le> x / y"
proof -
  assume a: "2 powi i \<le> x" "0 < y" "y \<le> 2 powi j"
  have "2 powi (i - j) * y \<le> 2 powi (i - j) * 2 powi j" using a(3) by (intro mult_left_mono) simp_all
  also have "\<dots> = 2 powi i" by (simp flip: power_int_add)
  finally show ?thesis using a by (simp add: pos_le_divide_eq)
qed

lemma powi_div_less: "x < 2 powi i \<Longrightarrow> 2 powi j \<le> y \<Longrightarrow> x / y < (2 :: real) powi (i - j)"
proof -
  assume a: "x < 2 powi i" "2 powi j \<le> y"
  have y: "0 < y" using a(2) by (rule order_less_le_trans [rotated]) simp
  have "2 powi i = 2 powi (i - j) * (2 :: real) powi j" by (simp flip: power_int_add)
  also have "\<dots> \<le> 2 powi (i - j) * y" using a(2) by (intro mult_left_mono) simp_all
  finally show ?thesis using a(1) y by (simp add: pos_divide_less_eq)
qed

section \<open>Accumulated errors\<close>

lemma error_trans:
  fixes r x y a b :: real
  assumes "\<bar>r - x\<bar> \<le> \<bar>x\<bar> * a" and "\<bar>x - y\<bar> \<le> \<bar>y\<bar> * b" and "0 \<le> a"
  shows "\<bar>r - y\<bar> \<le> \<bar>y\<bar> * (a + b + a * b)"
proof -
  have "\<bar>x\<bar> \<le> \<bar>y\<bar> + \<bar>y\<bar> * b" using assms(2) by linarith
  then have "\<bar>x\<bar> * a \<le> (\<bar>y\<bar> + \<bar>y\<bar> * b) * a" using assms(3) by (rule mult_right_mono)
  also have "\<dots> = \<bar>y\<bar> * (a + a * b)" by (simp add: algebra_simps)
  finally have "\<bar>r - y\<bar> \<le> \<bar>y\<bar> * (a + a * b) + \<bar>y\<bar> * b" using assms(1,2) by linarith
  then show ?thesis by (simp add: algebra_simps)
qed

lemma half_away: "\<bar>r - q\<bar> \<le> \<bar>q\<bar> * (1 / 2) \<Longrightarrow> \<bar>q\<bar> * (1 / 2) \<le> \<bar>r :: real\<bar>"
  by linarith

lemma error_mult: "\<bar>c - k\<bar> \<le> \<bar>k\<bar> * u \<Longrightarrow> \<bar>v * c - v * k\<bar> \<le> \<bar>v * k :: real\<bar> * u"
proof -
  assume "\<bar>c - k\<bar> \<le> \<bar>k\<bar> * u"
  then have "\<bar>v\<bar> * \<bar>c - k\<bar> \<le> \<bar>v\<bar> * (\<bar>k\<bar> * u)" by (rule mult_left_mono) simp
  moreover have "v * c - v * k = v * (c - k)" by (simp add: right_diff_distrib)
  ultimately show ?thesis by (simp only: abs_mult mult.assoc)
qed

lemma near_constant:
  assumes "near r x" and "\<bar>x - y\<bar> \<le> \<bar>y\<bar> * unit_roundoff"
  shows "\<bar>val r - y\<bar> \<le> \<bar>y\<bar> * (3 * unit_roundoff)"
proof -
  have "\<bar>val r - y\<bar> \<le> \<bar>y\<bar> * (unit_roundoff + unit_roundoff + unit_roundoff * unit_roundoff)"
    using nearD(2) [OF assms(1)] assms(2) by (rule error_trans) (simp add: unit_roundoff_def)
  also have "\<dots> \<le> \<bar>y\<bar> * (3 * unit_roundoff)" by (intro mult_left_mono) (simp_all add: unit_roundoff_def)
  finally show ?thesis .
qed

lemma near_quotient_back:
  assumes y: "\<bar>y - c / x\<bar> \<le> \<bar>c / x\<bar> * unit_roundoff" and z: "near z (c / y)" and "c \<noteq> 0" "x \<noteq> 0" "y \<noteq> 0"
  shows "\<bar>val z - x\<bar> \<le> \<bar>x\<bar> * (3 * unit_roundoff)"
proof -
  let ?u = unit_roundoff
  have u: "0 < ?u" "?u < 1 / 8" by (simp_all add: unit_roundoff_def)
  have "\<bar>c / y - x\<bar> = \<bar>x\<bar> * \<bar>y - c / x\<bar> / \<bar>y\<bar>"
  proof -
    have "c / y - x = - (x * (y - c / x)) / y" using assms by (simp add: field_simps)
    then show ?thesis by (simp add: abs_mult)
  qed
  moreover have "\<bar>y - c / x\<bar> \<le> \<bar>y\<bar> * (?u * 8 / 7)"
  proof -
    have "\<bar>c / x\<bar> \<le> \<bar>y\<bar> + \<bar>c / x\<bar> * ?u" using y by linarith
    moreover have "\<bar>c / x\<bar> * ?u \<le> \<bar>c / x\<bar> * (1 / 8)" using u by (intro mult_left_mono) simp_all
    moreover have "w \<le> b * (8 / 7)" if "w \<le> b + t" "t \<le> w * (1 / 8)" for w b t :: real
      using that by simp
    ultimately have "\<bar>c / x\<bar> \<le> \<bar>y\<bar> * (8 / 7)" by blast
    then have "\<bar>c / x\<bar> * ?u \<le> \<bar>y\<bar> * (8 / 7) * ?u" using u by (intro mult_right_mono) simp_all
    also have "\<dots> = \<bar>y\<bar> * (?u * 8 / 7)" by simp
    finally show ?thesis using y by (rule order_trans [rotated])
  qed
  then have "\<bar>x\<bar> * \<bar>y - c / x\<bar> / \<bar>y\<bar> \<le> \<bar>x\<bar> * (\<bar>y\<bar> * (?u * 8 / 7)) / \<bar>y\<bar>"
    by (intro divide_right_mono mult_left_mono) simp_all
  ultimately have dev: "\<bar>c / y - x\<bar> \<le> \<bar>x\<bar> * (?u * 8 / 7)" using \<open>y \<noteq> 0\<close> by simp
  have "\<bar>val z - x\<bar> \<le> \<bar>x\<bar> * (?u + ?u * 8 / 7 + ?u * (?u * 8 / 7))"
    by (rule error_trans [OF nearD(2) [OF z] dev]) (use u in simp)
  also have "\<dots> \<le> \<bar>x\<bar> * (3 * ?u)" by (intro mult_left_mono) (simp_all add: unit_roundoff_def)
  finally show ?thesis .
qed

end
