(* ===== verification/Cache_Stats.thy ===== *)
theory Cache_Stats
  imports Lru_Cache C_Double_Facts
begin

text \<open>
  \<open>print_cache_stats\<close> of \<open>practicum1/cache.c\<close>: the counters of a run and the hit ratio, computed in
  doubles and printed with two decimals. The theorem bounds the error of the printed percentage.
\<close>

definition hit_ratio :: "CacheStats \<Rightarrow> int \<Rightarrow> double" where
  "hit_ratio st tot =
     (if tot \<noteq> 0 then d_lit 1000 10 * d_of_int (hits st) / d_of_int tot
      else d_lit 0 10)"

text \<open>The three lines, with the text of the ratio.\<close>

definition stats_lines :: "CacheStats \<Rightarrow> string \<Rightarrow> string" where
  "stats_lines st ratio =
     ''Cache Hits: '' @ dec_int (hits st) @ [NEWLINE]
     @ ''Cache Misses: '' @ dec_int (misses st) @ [NEWLINE]
     @ ''Hit Ratio: '' @ ratio @ ''%'' @ [NEWLINE]"

definition print_cache_stats :: "CacheStats \<Rightarrow> string c" where
  "print_cache_stats st = do {
     tot \<leftarrow> c_int (hits st + misses st);
     ratio \<leftarrow> fixed 2 (hit_ratio st tot);
     Some (stats_lines st ratio)
   }"

lemmas hit_ratio_unfold = hit_ratio_def times_double_def divide_double_def

section \<open>The ratio\<close>

lemma hundred: "d_lit 1000 10 = Fin False 7036874417766400 (- 46)"
  by (simp add: d_lit_def rnd_def scaled_def unit_exponent_def exponent_def bit_length.simps round_div_def)

lemma hundred_double [simp]:
  "is_double (d_lit 1000 10)" "finite_double (d_lit 1000 10)" "val (d_lit 1000 10) = 100"
  by (simp_all add: hundred)

lemma int_in_range: "1 \<le> x \<Longrightarrow> x \<le> 2 ^ 53 \<Longrightarrow> in_range x"
proof -
  assume x: "1 \<le> x" "x \<le> 2 ^ 53"
  have "(2 :: real) powi - 1022 \<le> 2 powi 0" "(2 :: real) powi 53 < 2 powi 1023"
    by (simp_all only: powi_mono2 powi_less_iff2)
  then show ?thesis using x unfolding in_range_def by simp
qed

lemma product_exact:
  assumes "0 < h" and "h \<le> INT_MAX"
  shows "finite_double (d_mul (d_lit 1000 10) (d_of_int h))" and "val (d_mul (d_lit 1000 10) (d_of_int h)) = 100 * of_int h"
proof -
  have h: "finite_double (d_of_int h)" "val (d_of_int h) = of_int h"
    and k: "finite_double (d_of_int (100 * h))" "val (d_of_int (100 * h)) = of_int (100 * h)"
    using assms by (simp_all add: d_of_int_val)
  have "1 \<le> (of_int h :: real)" "(of_int h :: real) \<le> of_int INT_MAX"
    using assms by simp_all
  then have "in_range (100 * of_int h)" by (intro int_in_range) simp_all
  then have n: "near (d_mul (d_lit 1000 10) (d_of_int h)) (100 * of_int h)"
    using d_mul_near [of "d_lit 1000 10" "d_of_int h"] h assms(1) by (simp add: abs_mult)
  show "finite_double (d_mul (d_lit 1000 10) (d_of_int h))" by (rule nearD(1) [OF n])
  show "val (d_mul (d_lit 1000 10) (d_of_int h)) = 100 * of_int h"
    using nearD(3) [OF n _ k(1)] k(2) by simp
qed

lemma hit_ratio_near:
  assumes "0 < hits st" and "hits st \<le> tot" and "tot \<le> INT_MAX"
  shows "near (hit_ratio st tot) (100 * of_int (hits st) / of_int tot)"
proof -
  have p: "finite_double (d_mul (d_lit 1000 10) (d_of_int (hits st)))"
    "val (d_mul (d_lit 1000 10) (d_of_int (hits st))) = 100 * of_int (hits st)"
    by (rule product_exact; use assms in simp)+
  have t: "finite_double (d_of_int tot)" "val (d_of_int tot) = of_int tot" "0 < (of_int tot :: real)"
    using assms by (simp_all add: d_of_int_val)
  have r: "1 \<le> (of_int (hits st) :: real)" "(of_int (hits st) :: real) \<le> of_int tot"
    "(of_int tot :: real) \<le> of_int INT_MAX"
    using assms by simp_all
  have "(2 :: real) powi (0 - 31) \<le> 100 * of_int (hits st) / of_int tot"
    using r t(3) by (intro powi_div_ge) simp_all
  moreover have "(2 :: real) powi - 1022 \<le> 2 powi (0 - 31)" by (rule powi_mono2) simp
  moreover have "100 * of_int (hits st) / of_int tot \<le> (100 :: real)"
    using r t(3) by (simp add: pos_divide_le_eq)
  moreover have "(100 :: real) < 2 powi 7" by simp
  moreover have "(2 :: real) powi 7 \<le> 2 powi 1023" by (rule powi_mono2) simp
  ultimately have "in_range (100 * of_int (hits st) / of_int tot)" unfolding in_range_def by linarith
  moreover have "0 \<le> 100 * of_int (hits st) / (of_int tot :: real)" using r t(3) by simp
  ultimately have "near (d_div (d_mul (d_lit 1000 10) (d_of_int (hits st))) (d_of_int tot))
      (100 * of_int (hits st) / of_int tot)"
    using d_div_near [of "d_mul (d_lit 1000 10) (d_of_int (hits st))" "d_of_int tot"] p t assms(1)
    by (simp add: d_mul_is_double)
  then show ?thesis using assms by (simp add: hit_ratio_unfold)
qed

text \<open>No hits, or only hits, are printed as exactly 0.00 or 100.00.\<close>

lemma d_lit_zero: "d_lit 0 d = Fin False 0 (- 1074)"
  by (simp add: d_lit_def rnd_def)

lemma hit_ratio_zero:
  "tot = 0 \<or> hits st = 0 \<and> 0 \<le> tot \<and> tot \<le> INT_MAX \<Longrightarrow> \<exists>e. hit_ratio st tot = Fin False 0 e"
proof (cases "tot = 0")
  case False
  assume "tot = 0 \<or> hits st = 0 \<and> 0 \<le> tot \<and> tot \<le> INT_MAX"
  with False have h: "hits st = 0" "0 < tot" "tot < 2 ^ 53" by auto
  obtain m e where t: "d_of_int tot = Fin False m e" "of_int m * 2 powi e = (of_int tot :: real)"
    using rnd_int [of tot False] h by (auto simp: d_of_int_def)
  then have "m \<noteq> 0" using h by auto
  with t h show ?thesis by (simp add: hit_ratio_unfold hundred d_of_int_def rnd_def)
qed (simp add: hit_ratio_unfold d_lit_zero)

lemma hit_ratio_percent:
  assumes "0 \<le> hits st" and "hits st \<le> tot" and "tot \<le> INT_MAX"
  obtains m e where "hit_ratio st tot = Fin False m e" and "0 \<le> (of_int m * 2 powi e :: real)"
    and "of_int m * 2 powi e \<le> (100 :: real)" and "hits st = 0 \<Longrightarrow> m = 0"
    and "0 < hits st \<Longrightarrow> \<bar>of_int m * 2 powi e - 100 * of_int (hits st) / of_int tot\<bar> \<le> (100 * unit_roundoff :: real)"
    and "0 < tot \<Longrightarrow> hits st = tot \<Longrightarrow> of_int m * 2 powi e = (100 :: real)"
proof (cases "hits st = 0")
  case True
  then show ?thesis using hit_ratio_zero [of tot st] assms that by fastforce
next
  case False
  let ?x = "100 * of_int (hits st) / of_int tot :: real"
  have h: "0 < hits st" using False assms(1) by simp
  note n = hit_ratio_near [OF h assms(2,3)]
  have x: "0 < ?x" "?x \<le> 100" using h assms(2) by (simp_all add: pos_divide_le_eq)
  have d: "is_double (hit_ratio st tot)"
    using h assms(2) by (simp add: hit_ratio_unfold d_mul_is_double d_div_is_double)
  have err: "\<bar>val (hit_ratio st tot) - ?x\<bar> \<le> \<bar>?x\<bar> * unit_roundoff"
    and near100: "\<bar>val (hit_ratio st tot) - ?x\<bar> \<le> \<bar>100 - ?x\<bar>"
    using nearD(2) [OF n] nearD(3) [OF n, of "d_lit 1000 10"] by simp_all
  have "\<bar>?x\<bar> * unit_roundoff \<le> \<bar>?x\<bar> * (1 / 2)" by (intro mult_left_mono) (simp_all add: unit_roundoff_def)
  with err have "\<bar>val (hit_ratio st tot) - ?x\<bar> \<le> \<bar>?x\<bar> * (1 / 2)" by (rule order_trans)
  moreover have "0 < v" if "\<bar>v - x\<bar> \<le> \<bar>x\<bar> * (1 / 2)" "0 < x" for v x :: real using that by linarith
  ultimately have pos: "0 < val (hit_ratio st tot)" using x(1) by blast
  obtain s m e where r: "hit_ratio st tot = Fin s m e" using nearD(1) [OF n] by (rule finite_doubleE)
  have "0 \<le> (of_int m * 2 powi e :: real)" using d r by simp
  with pos r have s: "\<not> s" by (cases s) simp_all
  have le: "v \<le> 100" if "\<bar>v - x\<bar> \<le> \<bar>100 - x\<bar>" "x \<le> 100" for v x :: real using that by linarith
  have "\<bar>?x\<bar> * unit_roundoff \<le> 100 * unit_roundoff"
    using x by (intro mult_right_mono) (simp_all add: unit_roundoff_def)
  with err have err': "\<bar>val (hit_ratio st tot) - ?x\<bar> \<le> 100 * unit_roundoff" by (rule order_trans)
  show ?thesis
  proof (rule that [of m e])
    show "hit_ratio st tot = Fin False m e" using r s by simp
    show "0 \<le> (of_int m * 2 powi e :: real)" using pos r s by simp
    show "of_int m * 2 powi e \<le> (100 :: real)" using le [OF near100 x(2)] r s by simp
    show "\<bar>of_int m * 2 powi e - 100 * of_int (hits st) / of_int tot\<bar> \<le> (100 * unit_roundoff :: real)"
      using err' r s by simp
    show "of_int m * 2 powi e = (100 :: real)" if "0 < tot" "hits st = tot"
      using near100 r s that by simp
  qed (use False in simp_all)
qed

section \<open>What is printed\<close>

lemma print_cache_stats_aux:
  assumes "0 \<le> hits st" and "0 \<le> misses st" and "hits st + misses st \<le> INT_MAX"
  shows "\<exists>N. print_cache_stats st = Some (stats_lines st (decimal 2 N))
    \<and> 0 \<le> N \<and> N \<le> 10000 \<and> (hits st = 0 \<longrightarrow> N = 0) \<and> (0 < hits st \<and> misses st = 0 \<longrightarrow> N = 10000)
    \<and> (0 < hits st \<longrightarrow> \<bar>of_int N / 100 - 100 * of_int (hits st) / (of_int (hits st + misses st) :: real)\<bar>
         \<le> 1 / 200 + 100 * unit_roundoff)"
proof -
  let ?t = "hits st + misses st"
  obtain m e where r: "hit_ratio st ?t = Fin False m e" "0 \<le> (of_int m * 2 powi e :: real)"
    "of_int m * 2 powi e \<le> (100 :: real)" "hits st = 0 \<Longrightarrow> m = 0"
    "0 < hits st \<Longrightarrow> \<bar>of_int m * 2 powi e - 100 * of_int (hits st) / of_int ?t\<bar> \<le> (100 * unit_roundoff :: real)"
    "0 < ?t \<Longrightarrow> hits st = ?t \<Longrightarrow> of_int m * 2 powi e = (100 :: real)"
    using hit_ratio_percent [of st ?t] assms by auto
  define N where "N = scaled (m * 10 ^ 2) 1 (- e)"
  have v: "of_int (m * 10 ^ 2) / of_int 1 * 2 powi (- (- e)) = (100 * (of_int m * 2 powi e) :: real)" by simp
  have N: "0 \<le> N" "N \<le> 10000"
    unfolding N_def using r(2,3) by (auto intro!: scaled_ge scaled_le simp only: v)
  have err: "\<bar>of_int N / 100 - of_int m * 2 powi e\<bar> \<le> (1 / 200 :: real)"
    using decimal_error [of m 2 e] by (simp add: N_def)
  have "N = 10000" if "of_int m * 2 powi e = (100 :: real)"
  proof (rule antisym [OF N(2)])
    show "10000 \<le> N" unfolding N_def by (rule scaled_ge) (unfold v that, simp_all)
  qed
  moreover have "print_cache_stats st = Some (stats_lines st (decimal 2 N))"
    using assms r(1) by (simp add: print_cache_stats_def in_int_def N_def)
  moreover have "\<bar>of_int N / 100 - x\<bar> \<le> 1 / 200 + 100 * unit_roundoff"
    if "\<bar>of_int m * 2 powi e - x\<bar> \<le> 100 * unit_roundoff" for x using that err by linarith
  ultimately show ?thesis
    using N r(4-6) assms by (intro exI [of _ N]) (auto simp: N_def)
qed

text \<open>C7: For every pair of counters whose sum fits an \<open>int\<close>,
  \<open>print_cache_stats\<close> is defined (a run without accesses divides nothing) and
  prints a percentage between 0.00 and 100.00: exactly 0.00 without hits, exactly 100.00 without
  misses, and in between no further than half a unit of its last decimal, plus the error of one
  rounding in floating point, from the true ratio.\<close>

theorem print_cache_stats_ratio:
  assumes "0 \<le> hits st" and "0 \<le> misses st" and "hits st + misses st \<le> INT_MAX"
  shows "\<exists>N. print_cache_stats st = Some (stats_lines st (decimal 2 N))
    \<and> 0 \<le> N \<and> N \<le> 10000 \<and> (hits st = 0 \<longrightarrow> N = 0) \<and> (0 < hits st \<and> misses st = 0 \<longrightarrow> N = 10000)
    \<and> (0 < hits st \<longrightarrow> \<bar>of_int N / 100 - 100 * of_int (hits st) / (of_int (hits st + misses st) :: real)\<bar>
         \<le> 1 / 200 + 100 * unit_roundoff)"
  using assms by (rule print_cache_stats_aux)

theorem print_cache_stats_ratio_witness:
  "\<exists>N. print_cache_stats \<lparr>hits = 2, misses = 1\<rparr> = Some (stats_lines \<lparr>hits = 2, misses = 1\<rparr> (decimal 2 N))
    \<and> 0 \<le> N \<and> N \<le> 10000 \<and> \<bar>of_int N / 100 - (200 / 3 :: real)\<bar> \<le> 1 / 200 + 100 * unit_roundoff"
proof -
  from print_cache_stats_ratio [of "\<lparr>hits = 2, misses = 1\<rparr>"] obtain N where
    "print_cache_stats \<lparr>hits = 2, misses = 1\<rparr> = Some (stats_lines \<lparr>hits = 2, misses = 1\<rparr> (decimal 2 N))"
    "0 \<le> N" "N \<le> 10000" "\<bar>of_int N / 100 - (200 / 3 :: real)\<bar> \<le> 1 / 200 + 100 * unit_roundoff" by auto
  then show ?thesis by (intro exI [of _ N] conjI)
qed

text \<open>For a thousand accesses the two decimals are exact.\<close>

lemma print_cache_stats_1000:
  assumes "0 \<le> hits st" and "0 \<le> misses st" and "hits st + misses st = 1000"
  shows "print_cache_stats st = Some (stats_lines st (decimal 2 (10 * hits st)))"
proof -
  obtain N where N: "print_cache_stats st = Some (stats_lines st (decimal 2 N))" "hits st = 0 \<longrightarrow> N = 0"
    "0 < hits st \<longrightarrow> \<bar>of_int N / 100 - 100 * of_int (hits st) / (1000 :: real)\<bar> \<le> 1 / 200 + 100 * unit_roundoff"
    using print_cache_stats_aux [of st] assms by auto
  have "N = 10 * hits st"
  proof (cases "hits st = 0")
    case False
    then have "\<bar>of_int N / 100 - 100 * of_int (hits st) / (1000 :: real)\<bar> \<le> 1 / 200 + 100 * unit_roundoff"
      using N(3) assms(1) by simp
    moreover have "1 / 200 + 100 * unit_roundoff < 1 / 100" by (simp add: unit_roundoff_def)
    ultimately have "\<bar>of_int N / 100 - of_int (hits st) / 10\<bar> < (1 / 100 :: real)" by linarith
    then have "of_int N < (of_int (10 * hits st + 1) :: real)" "(of_int (10 * hits st - 1) :: real) < of_int N"
      unfolding of_int_add of_int_diff of_int_mult of_int_numeral of_int_1 by linarith+
    then have "N < 10 * hits st + 1" "10 * hits st - 1 < N" by (simp_all only: of_int_less_iff)
    then show ?thesis by simp
  qed (use N(2) in simp)
  with N(1) show ?thesis by simp
qed

end
