(* ===== verification/Message_Main.thy ===== *)
theory Message_Main
  imports Lru_Theorems Cache_Stats
begin

text \<open>
  \<open>practicum1/main.c\<close>: the program stores twenty sample messages on disk, initialises the cache and
  runs a thousand random accesses through it. The state is the \<open>cache\<close> record; what the system calls
  answer (\<open>stat\<close>, \<open>mkdir\<close>, \<open>time\<close>, \<open>rand\<close>) is an argument. The text on the standard output is part of the result;
  the messages on \<open>stderr\<close> are left out.
\<close>

text \<open>\<open>there\<close> says that \<open>stat\<close> finds something named \<open>messages\<close>, \<open>made\<close> that \<open>mkdir\<close> succeeds.\<close>

definition ensure_message_folder :: "bool \<Rightarrow> bool \<Rightarrow> disk \<Rightarrow> disk" where
  "ensure_message_folder there made d =
     (if \<not> there then (if made then d\<lparr>folder := True\<rparr> else d) else d)"

text \<open>\<open>snprintf(buf, size, ...)\<close> keeps at most \<open>size - 1\<close> characters.\<close>

definition sample_sender :: "int \<Rightarrow> string" where
  "sample_sender i = take 31 (''sender'' @ dec_int i)"

definition sample_receiver :: "int \<Rightarrow> string" where
  "sample_receiver i = take 31 (''receiver'' @ dec_int i)"

definition sample_content :: "int \<Rightarrow> string" where
  "sample_content i = take 63 (''Hello, this is message '' @ dec_int i @ ''!'')"

text \<open>One round of the loop of \<open>main\<close>; \<open>now\<close> is the answer of \<open>time\<close>.\<close>

definition store_sample :: "int \<Rightarrow> cache \<Rightarrow> int \<Rightarrow> cache c" where
  "store_sample now s i = do {
     (p, ms) \<leftarrow> create_msg (msgs s) now i (sample_sender i) (sample_receiver i) (sample_content i) 0;
     (if p = Null then Some (s\<lparr>msgs := ms\<rparr>)
      else do {
        (_, d) \<leftarrow> store_msg (dsk s) ms p;
        ms \<leftarrow> free ms p;
        Some (s\<lparr>msgs := ms, dsk := d\<rparr>)
      })
   }"

fun store_samples :: "(int \<Rightarrow> int) \<Rightarrow> cache \<Rightarrow> int list \<Rightarrow> cache c" where
  "store_samples clock s [] = Some s"
| "store_samples clock s (i # is) = do { s \<leftarrow> store_sample (clock i) s i; store_samples clock s is }"

definition main ::
  "bool \<Rightarrow> bool \<Rightarrow> (int \<Rightarrow> int) \<Rightarrow> (nat \<Rightarrow> int) \<Rightarrow> cache \<Rightarrow> (int \<times> string \<times> CacheStats \<times> cache) c"
where
  "main there made clock rand s = do {
     let s = s\<lparr>dsk := ensure_message_folder there made (dsk s)\<rparr>;
     s \<leftarrow> store_samples clock s [1..20];
     s \<leftarrow> init_cache s;
     (st, s) \<leftarrow> test_cache s 1000 20 rand;
     report \<leftarrow> print_cache_stats st;
     Some (0,
       ''Creating and storing sample messages (IDs 1..20) on disk...'' @ [NEWLINE]
       @ ''Finished storing messages.'' @ [NEWLINE, NEWLINE]
       @ ''Initializing cache with true LRU policy...'' @ [NEWLINE]
       @ ''Testing 1000 random accesses on message IDs [1..20]...'' @ [NEWLINE]
       @ report @ [NEWLINE] @ ''Done.'' @ [NEWLINE], st, s)
   }"

text \<open>The text before and after the statistics.\<close>

definition main_begins :: string where
  "main_begins =
     ''Creating and storing sample messages (IDs 1..20) on disk...'' @ [NEWLINE]
     @ ''Finished storing messages.'' @ [NEWLINE, NEWLINE]
     @ ''Initializing cache with true LRU policy...'' @ [NEWLINE]
     @ ''Testing 1000 random accesses on message IDs [1..20]...'' @ [NEWLINE]"

definition main_ends :: string where
  "main_ends = [NEWLINE] @ ''Done.'' @ [NEWLINE]"

section \<open>The sample messages\<close>

lemma no_nul_dec_nat [simp]: "no_nul (dec_nat n)"
  using dec_nat_digits [of NUL n] by (auto simp: no_nul_def is_digit_def)

lemma no_nul_dec_int [simp]: "no_nul (dec_int i)"
  by (simp add: dec_int_def)

lemma no_nul_samples [simp]:
  "no_nul (sample_sender i)" "no_nul (sample_receiver i)" "no_nul (sample_content i)"
  unfolding sample_sender_def sample_receiver_def sample_content_def
  by (intro no_nul_take; simp)+

lemma sample_texts:
  assumes "in_int i"
  shows "take 31 (sample_sender i) = ''sender'' @ dec_int i"
    and "take 31 (sample_receiver i) = ''receiver'' @ dec_int i"
    and "take 943 (sample_content i) = ''Hello, this is message '' @ dec_int i @ ''!''"
  using length_dec_int [OF assms]
  by (simp_all add: sample_sender_def sample_receiver_def sample_content_def)

text \<open>The message that \<open>create_msg\<close> builds for \<open>i\<close>.\<close>

definition is_sample :: "int \<Rightarrow> int \<Rightarrow> Message \<Rightarrow> bool" where
  "is_sample now i m \<longleftrightarrow> msg_id m = i \<and> time_sent m = now \<and> delivered m = 0
     \<and> cstr (sender m) = ''sender'' @ dec_int i \<and> cstr (receiver m) = ''receiver'' @ dec_int i
     \<and> cstr (content m) = ''Hello, this is message '' @ dec_int i @ ''!''"

text \<open>Every allocation of a message succeeds, with some bytes in the new object.\<close>

definition msgs_ok :: "Message store \<Rightarrow> bool" where
  "msgs_ok ms \<longleftrightarrow> wf_store ms \<and> (\<forall>n. \<exists>junk. alloc ms n = Some junk \<and> wf_Message junk)"

lemma create_sample:
  assumes "msgs_ok ms" and "in_int i" and "- (2 ^ 63) \<le> now" and "now < 2 ^ 63"
  shows "\<exists>m ms'. create_msg ms now i (sample_sender i) (sample_receiver i) (sample_content i) 0
      = Some (Addr (next_addr ms), ms')
    \<and> ms' = ms\<lparr>cells := (cells ms)(next_addr ms := Some m), next_addr := Suc (next_addr ms)\<rparr>
    \<and> is_sample now i m \<and> wf_Message m"
proof -
  obtain junk where junk: "alloc ms (next_addr ms) = Some junk" "wf_Message junk"
    using assms(1) unfolding msgs_ok_def by blast
  from create_msg_ok [OF this assms(2) _ assms(3,4) no_nul_samples, of 0 i i i] sample_texts [OF assms(2)]
  show ?thesis by (auto simp: is_sample_def in_int_def)
qed

lemma store_sample_ok:
  assumes "msgs_ok (msgs s)" and "disk_good (dsk s)" and "in_int i"
    and "- (2 ^ 63) \<le> now" and "now < 2 ^ 63"
  shows "\<exists>m s'. store_sample now s i = Some s' \<and> is_sample now i m \<and> wf_Message m
    \<and> dsk s' = save (dsk s) m \<and> msgs_ok (msgs s') \<and> nodes s' = nodes s
    \<and> cells (msgs s') = cells (msgs s) \<and> alloc (msgs s') = alloc (msgs s)"
proof -
  let ?ms = "msgs s" and ?a = "next_addr (msgs s)"
  obtain m ms' where c: "create_msg ?ms now i (sample_sender i) (sample_receiver i) (sample_content i) 0
      = Some (Addr ?a, ms')"
    "ms' = ?ms\<lparr>cells := (cells ?ms)(?a := Some m), next_addr := Suc ?a\<rparr>"
    "is_sample now i m" "wf_Message m"
    using create_sample [OF assms(1,3-5)] by blast
  have "disk_ready (dsk s) (msg_id m)"
    using assms(2,3) c(3) by (auto intro: disk_good_ready simp: is_sample_def)
  then have "store_msg (dsk s) ms' (Addr ?a) = Some (0, save (dsk s) m)"
    using c(2,4) by (intro store_msg_ready) auto
  moreover have "(cells ?ms)(?a := None) = cells ?ms"
    using assms(1) by (auto simp: msgs_ok_def fresh_cell)
  ultimately show ?thesis
    using c assms(1) by (auto simp: store_sample_def msgs_ok_def wf_store_def less_SucI)
qed

lemma store_samples_ok:
  assumes "msgs_ok (msgs s)" and "disk_good (dsk s)" and "\<forall>i \<in> set is. in_int i"
    and "\<forall>i. - (2 ^ 63) \<le> clock i \<and> clock i < 2 ^ 63" and "distinct is"
  shows "\<exists>s'. store_samples clock s is = Some s' \<and> msgs_ok (msgs s') \<and> disk_good (dsk s')
    \<and> nodes s' = nodes s \<and> cells (msgs s') = cells (msgs s) \<and> alloc (msgs s') = alloc (msgs s)
    \<and> (\<forall>i \<in> set is. \<exists>m. stored (dsk s') i = Some m \<and> is_sample (clock i) i m)
    \<and> (\<forall>i. in_int i \<and> i \<notin> set is \<longrightarrow> stored (dsk s') i = stored (dsk s) i)"
  using assms(1,2,3,5)
proof (induction "is" arbitrary: s)
  case Nil
  then show ?case by simp
next
  case (Cons i "is")
  have int: "in_int i" using Cons.prems(3) by simp
  obtain m s1 where s1: "store_sample (clock i) s i = Some s1" "is_sample (clock i) i m" "wf_Message m"
    "dsk s1 = save (dsk s) m" "msgs_ok (msgs s1)" "nodes s1 = nodes s"
    "cells (msgs s1) = cells (msgs s)" "alloc (msgs s1) = alloc (msgs s)"
    using store_sample_ok [OF Cons.prems(1,2) int] assms(4) by blast
  have id: "msg_id m = i" using s1(2) by (simp add: is_sample_def)
  have good: "disk_good (dsk s1)" using disk_good_save [OF Cons.prems(2) s1(3)] s1(4) by simp
  have new: "stored (dsk s1) i = Some m" using disk_good_stored_save [OF Cons.prems(2) s1(3)] s1(4) id by simp
  have old: "stored (dsk s1) j = stored (dsk s) j" if "in_int j" "j \<noteq> i" for j
    using stored_save_other [OF that(1) s1(3)] that(2) s1(4) id by simp
  obtain s' where s': "store_samples clock s1 is = Some s'" "msgs_ok (msgs s')" "disk_good (dsk s')"
    "nodes s' = nodes s1" "cells (msgs s') = cells (msgs s1)" "alloc (msgs s') = alloc (msgs s1)"
    "\<forall>i \<in> set is. \<exists>m. stored (dsk s') i = Some m \<and> is_sample (clock i) i m"
    "\<forall>j. in_int j \<and> j \<notin> set is \<longrightarrow> stored (dsk s') j = stored (dsk s1) j"
    using Cons.IH [OF s1(5) good] Cons.prems(3,4) by auto
  have "stored (dsk s') i = Some m" using s'(8) int new Cons.prems(4) by auto
  with s1 s' old show ?case by (intro exI [of _ s']) auto
qed

text \<open>The message objects that \<open>malloc\<close> hands out have arrays of the declared sizes.\<close>

definition sized_allocs :: "Message store \<Rightarrow> bool" where
  "sized_allocs ms \<longleftrightarrow> (\<forall>n junk. alloc ms n = Some junk \<longrightarrow>
     length (sender junk) = MAX_SENDER_LEN \<and> length (receiver junk) = MAX_RECEIVER_LEN
     \<and> length (content junk) = MAX_CONTENT_LEN)"

text \<open>Whatever fails, the loop touches only live objects and elements of their arrays, and frees the
  message it allocated.\<close>

lemma store_sample_safe:
  assumes "wf_store (msgs s)" and "sized_allocs (msgs s)"
  shows "\<exists>s'. store_sample now s i = Some s' \<and> wf_store (msgs s') \<and> sized_allocs (msgs s')
    \<and> cells (msgs s') = cells (msgs s) \<and> nodes s' = nodes s"
proof -
  let ?a = "next_addr (msgs s)"
  have unmapped: "(cells (msgs s))(?a := None) = cells (msgs s)"
    using assms by (auto simp: fresh_cell)
  have "wf_store ((msgs s)\<lparr>next_addr := Suc ?a\<rparr>)" using assms by (auto simp: wf_store_def less_SucI)
  then show ?thesis
    using unmapped assms(2)
    by (cases "alloc (msgs s) ?a")
      (auto simp: store_sample_def create_msg_def malloc_ok malloc_fail store_msg_def sized_allocs_def put_ok
        split: option.splits)
qed

lemma store_samples_safe_aux:
  "wf_store (msgs s) \<Longrightarrow> sized_allocs (msgs s) \<Longrightarrow>
   \<exists>s'. store_samples clock s is = Some s' \<and> wf_store (msgs s') \<and> cells (msgs s') = cells (msgs s)
     \<and> nodes s' = nodes s"
proof (induction "is" arbitrary: s)
  case (Cons i "is")
  from store_sample_safe [OF Cons.prems, of "clock i" i] Cons.IH show ?case by force
qed simp

section \<open>Properties\<close>

text \<open>C9: The loop of \<open>main\<close> that stores the samples never touches memory it does not
  own, neither an object that is not live nor an element beyond the end of an array of the
  message, and frees every message it allocated, whatever mixture of \<open>malloc\<close>,
  \<open>fopen\<close> and \<open>fwrite\<close> calls fails (the objects that
  \<open>malloc\<close> gives have arrays of the declared sizes).\<close>

theorem store_samples_safe:
  assumes "wf_store (msgs s)" and "sized_allocs (msgs s)"
  shows "\<exists>s'. store_samples clock s is = Some s' \<and> wf_store (msgs s') \<and> cells (msgs s') = cells (msgs s)
    \<and> nodes s' = nodes s"
  using assms by (rule store_samples_safe_aux)

text \<open>An allocator whose every other call fails, on a disk with room for 100 bytes per file.\<close>

definition failing_cache :: cache where
  "failing_cache = (sample_cache (blank_disk\<lparr>room := \<lambda>_. 100\<rparr>))
     \<lparr>msgs := sample_heap\<lparr>alloc := \<lambda>n. if even n then Some (sample_msg 0) else None\<rparr>\<rparr>"

theorem store_samples_safe_witness:
  "\<exists>s'. store_samples (\<lambda>_. 0) failing_cache [1..20] = Some s' \<and> wf_store (msgs s')
    \<and> cells (msgs s') = cells (msgs failing_cache) \<and> nodes s' = nodes failing_cache"
  by (rule store_samples_safe)
    (auto simp: failing_cache_def sample_heap_def wf_store_def sized_allocs_def sample_msg_def)

text \<open>C3: The program of practicum1 runs to its end and returns 0 when memory and disk do not fail,
  and prints its messages and the statistics: of its thousand accesses each is a hit or a miss,
  the number of hits is that of an ideal LRU cache of sixteen entries on the accessed
  identifiers, the hit ratio computed in floating point is printed exactly (a tenth of the hits,
  with two decimals), and at the end the cache holds the sixteen identifiers used last, each
  with the sample message the program created for it.\<close>

theorem main_runs_lru:
  assumes "msgs_ok (msgs s)" and "\<forall>n. alloc (nodes s) n \<noteq> None" and "nodes s = empty_store al"
    and "disk_good (ensure_message_folder there made (dsk s))"
    and "\<forall>i. - (2 ^ 63) \<le> clock i \<and> clock i < 2 ^ 63"
    and "\<forall>i. 0 \<le> rand i \<and> rand i \<le> INT_MAX"
  defines "ids \<equiv> accessed 20 (map rand [0 ..< 1000])"
  shows "\<exists>st s' kvs. main there made clock rand s
      = Some (0, main_begins @ stats_lines st (decimal 2 (10 * hits st)) @ main_ends, st, s')
    \<and> hits st + misses st = 1000 \<and> hits st = hit_count 16 [] ids
    \<and> cache_abs s' kvs \<and> lru_keys kvs = last_n 16 (remdups ids)
    \<and> (\<forall>(i, m) \<in> set kvs. is_sample (clock i) i m)"
proof -
  let ?s = "s\<lparr>dsk := ensure_message_folder there made (dsk s)\<rparr>"
  have ints: "\<forall>i \<in> set [1..20]. in_int i" by (auto simp: in_int_def)
  obtain s1 where s1: "store_samples clock ?s [1..20] = Some s1" "msgs_ok (msgs s1)" "disk_good (dsk s1)"
    "nodes s1 = nodes s" "\<forall>i \<in> set [1..20]. \<exists>m. stored (dsk s1) i = Some m \<and> is_sample (clock i) i m"
    using store_samples_ok [of ?s "[1..20]" clock] assms(1,4,5) ints by auto
  have "mem_ok s1" using s1(2,4) assms(2) by (auto simp: mem_ok_def msgs_ok_def)
  then have "start_ready s1 20"
    using s1 assms(3) by (fastforce simp: start_ready_def fresh_heap_def live_def empty_store_def
        msgs_ok_def wf_store_def)
  with test_cache_lru_aux [of s1 20 1000 rand] assms(6) obtain s0 st s' kvs where t:
    "init_cache s1 = Some s0" "test_cache s0 1000 20 rand = Some (st, s')"
    "hits st = hit_count 16 [] ids" "hits st + misses st = 1000" "cache_abs s' kvs"
    "lru_keys kvs = last_n 16 (remdups ids)" "\<forall>(k, m) \<in> set kvs. stored (dsk s1) k = Some m"
    by (auto simp: HASH_SIZE_def ids_def)
  have "is_sample (clock i) i m" if "(i, m) \<in> set kvs" for i m
  proof -
    have "i \<in> set (lru_keys kvs)" using that by (force simp: lru_keys_def)
    then have "1 \<le> i \<and> i \<le> 20"
      using set_last_n accessed_range [of 20 i] unfolding t(6) ids_def by fastforce
    then obtain m' where "stored (dsk s1) i = Some m'" "is_sample (clock i) i m'" using bspec [OF s1(5), of i] by auto
    with t(7) that show ?thesis by auto
  qed
  moreover have "print_cache_stats st = Some (stats_lines st (decimal 2 (10 * hits st)))"
  proof (rule print_cache_stats_1000)
    show "0 \<le> hits st" using hit_count_bounds [of 16 "[]" ids] by (simp add: t(3))
    have "length ids = 1000" by (simp add: ids_def accessed_def)
    then show "0 \<le> misses st" using t(3,4) hit_count_bounds [of 16 "[]" ids] by linarith
  qed (rule t(4))
  ultimately show ?thesis using t s1(1)
    by (intro exI [of _ st] exI [of _ s'] exI [of _ kvs]) (auto simp: main_def main_begins_def main_ends_def)
qed

theorem main_runs_lru_witness:
  "\<exists>st s' kvs. main False True (\<lambda>_. 0) (\<lambda>i. 7) (sample_cache (blank_disk\<lparr>folder := False\<rparr>))
      = Some (0, main_begins @ stats_lines st (decimal 2 (10 * hits st)) @ main_ends, st, s')
    \<and> hits st + misses st = 1000 \<and> hits st = hit_count 16 [] (accessed 20 (map (\<lambda>i. 7) [0 ..< 1000]))
    \<and> cache_abs s' kvs \<and> lru_keys kvs = last_n 16 (remdups (accessed 20 (map (\<lambda>i. 7) [0 ..< 1000])))
    \<and> (\<forall>(i, m) \<in> set kvs. is_sample 0 i m)"
proof (rule main_runs_lru [where al = "\<lambda>_. Some \<lparr>prv = Null, nxt = Null, key = 0, value = Null\<rparr>"])
  have "blank_disk\<lparr>folder := True\<rparr> = blank_disk" by (simp add: blank_disk_def)
  then show "disk_good (ensure_message_folder False True
      (dsk (sample_cache (blank_disk\<lparr>folder := False\<rparr>))))"
    by (simp add: ensure_message_folder_def)
qed (auto simp: sample_cache_def sample_heap_def msgs_ok_def wf_store_def empty_store_def in_int_def)

end
