(* ===== verification/Lru_Collisions.thy ===== *)
theory Lru_Collisions
  imports Lru_Theorems
begin

text \<open>
  The cache outside the collision-free case. Eviction clears the slot of the evicted key with
  \<open>NULL\<close> and no tombstone, which cuts the probe chain of every key that was placed behind it: such a
  key is then missed although it is cached, and when its node is evicted the probe does not find its
  slot, which keeps pointing to the freed node. To show that the program reaches such a state, the
  misses of a run are replayed on the (node, key) pairs and the table alone (\<open>emiss\<close>), which
  evaluates, and \<open>emiss\<close> is shown to predict the cache, for any table.
\<close>

section \<open>Misses on the level of the table\<close>

partial_function (option) eprobe ::
  "(nat \<times> int) list \<Rightarrow> ptr list \<Rightarrow> int \<Rightarrow> int \<Rightarrow> int option" where
  "eprobe ps ht k h = do {
     p \<leftarrow> tab_get ht h;
     (if p = Null then Some h
      else do {
        k' \<leftarrow> map_of (map (\<lambda>(a, k). (Addr a, k)) ps) p;
        (if k' \<noteq> k then eprobe ps ht k ((h + 1) smod HASH_SIZE) else Some h)
      })
   }"

declare eprobe.simps [code]

fun eevict :: "(nat \<times> int) list \<times> ptr list \<Rightarrow> ((nat \<times> int) list \<times> ptr list) option" where
  "eevict ([], ht) = Some ([], ht)"
| "eevict ((a, k) # ps, ht) =
     (if int (length ((a, k) # ps)) < CACHE_CAPACITY then Some ((a, k) # ps, ht)
      else do {
        h \<leftarrow> eprobe ((a, k) # ps) ht k (hash k);
        ht \<leftarrow> tab_set ht h Null;
        Some (ps, ht)
      })"

fun emiss :: "(nat \<times> int) list \<times> ptr list \<times> nat \<Rightarrow> int \<Rightarrow> ((nat \<times> int) list \<times> ptr list \<times> nat) option" where
  "emiss (ps, ht, na) k = do {
     h \<leftarrow> eprobe ps ht k (hash k);
     p \<leftarrow> tab_get ht h;
     (if p \<noteq> Null then None
      else do {
        (ps, ht) \<leftarrow> eevict (ps, ht);
        h \<leftarrow> probe_free ht h;
        ht \<leftarrow> tab_set ht h (Addr na);
        Some (ps @ [(na, k)], ht, Suc na)
      })
   }"

fun emisses :: "(nat \<times> int) list \<times> ptr list \<times> nat \<Rightarrow> int list \<Rightarrow> ((nat \<times> int) list \<times> ptr list \<times> nat) option" where
  "emisses st [] = Some st"
| "emisses st (k # ks) = do { st \<leftarrow> emiss st k; emisses st ks }"

definition node_keys :: "entry list \<Rightarrow> (nat \<times> int) list" where
  "node_keys es = map (\<lambda>e. (e_node e, e_key e)) es"

lemma eprobe_sound:
  assumes "eprobe (node_keys es) ht k h = Some r" and "list_rel s es"
  shows "probe (nodes s) ht k h = Some r"
proof -
  have key: "\<exists>a n. p = Addr a \<and> cells (nodes s) a = Some n \<and> key n = k'"
    if mo: "map_of (map (\<lambda>(a, k). (Addr a, k)) (node_keys es)) p = Some k'" for p k'
  proof -
    obtain e where e: "e \<in> set es" "p = Addr (e_node e)" "k' = e_key e"
      using map_of_SomeD [OF mo] by (auto simp: node_keys_def)
    then show ?thesis using list_rel_entry(1) [OF assms(2) e(1)] by (auto simp: payload_Some)
  qed
  have "ps = node_keys es \<longrightarrow> probe (nodes s) ht k h = Some r" if "eprobe ps ht k h = Some r" for ps
  proof (rule eprobe.raw_induct [where P = "\<lambda>ps ht k h r. ps = node_keys es \<longrightarrow>
      probe (nodes s) ht k h = Some r", OF _ that])
    fix f ps ht k h r
    assume IH: "\<And>ps ht k h r. f ps ht k h = Some r \<Longrightarrow>
        ps = node_keys es \<longrightarrow> probe (nodes s) ht k h = Some r"
      and eq: "tab_get ht h \<bind> (\<lambda>p. if p = Null then Some h
        else map_of (map (\<lambda>(a, k). (Addr a, k)) ps) p \<bind>
          (\<lambda>k'. if k' \<noteq> k then f ps ht k ((h + 1) smod HASH_SIZE) else Some h)) = Some r"
    show "ps = node_keys es \<longrightarrow> probe (nodes s) ht k h = Some r"
    proof
      assume ps: "ps = node_keys es"
      obtain p where p: "tab_get ht h = Some p" using eq by (auto elim: bind_Some_E)
      show "probe (nodes s) ht k h = Some r"
      proof (cases "p = Null")
        case True
        with p eq show ?thesis by (simp add: probe.simps)
      next
        case False
        with p eq obtain k' where k': "map_of (map (\<lambda>(a, k). (Addr a, k)) ps) p = Some k'"
          by (auto elim: bind_Some_E)
        then obtain a n where "p = Addr a" "cells (nodes s) a = Some n" "key n = k'"
          using key ps by blast
        with p eq k' IH [of ps ht k "(h + 1) smod HASH_SIZE" r] ps show ?thesis
          by (simp add: probe.simps [of "nodes s" ht k h] split: if_splits)
      qed
    qed
  qed
  with assms(1) show ?thesis by blast
qed

text \<open>The state of a run whose accesses were all misses.\<close>

definition miss_state :: "cache \<Rightarrow> (nat \<times> int) list \<times> ptr list \<times> nat \<Rightarrow> bool" where
  "miss_state s st \<longleftrightarrow> (\<exists>es. list_rel s es
     \<and> st = (node_keys es, hash_table s, next_addr (nodes s)))
     \<and> mem_ok s \<and> disk_good (dsk s) \<and> 0 \<le> misses (stats s)"

lemma eevict_sound:
  assumes "eevict (node_keys es, hash_table s) = Some (ps, ht)" and "list_rel s es" and "mem_ok s"
    and "load (msgs s) p = Some m" and "\<And>e. e \<in> set es \<Longrightarrow> p \<noteq> Addr (e_msg e)"
  shows "\<exists>s' es'. evict_if_needed s = Some s' \<and> list_rel s' es' \<and> node_keys es' = ps
    \<and> hash_table s' = ht \<and> head s' = head s \<and> tail s' = tail s
    \<and> int (length es') < CACHE_CAPACITY \<and> load (msgs s') p = Some m
    \<and> next_addr (nodes s') = next_addr (nodes s) \<and> dsk s' = dsk s \<and> stats s' = stats s \<and> mem_ok s'"
proof (cases "int (length es) < CACHE_CAPACITY")
  case True
  then have "eevict (node_keys es, hash_table s) = Some (node_keys es, hash_table s)"
    by (cases es) (auto simp: node_keys_def)
  with True assms evict_room show ?thesis by auto
next
  case False
  then obtain e es' where es: "es = e # es'" by (cases es) (auto simp: CACHE_CAPACITY_def)
  have len: "int (length (e # es')) = CACHE_CAPACITY"
    using False list_rel_facts(3) [OF assms(2)] es by simp
  have nk: "node_keys es = (e_node e, e_key e) # node_keys es'" by (simp add: es node_keys_def)
  obtain h where h: "eprobe (node_keys es) (hash_table s) (e_key e) (hash (e_key e)) = Some h"
    "tab_set (hash_table s) h Null = Some ht" "ps = node_keys es'"
    using assms(1) False unfolding nk
    by (auto simp: es node_keys_def elim!: bind_Some_E split: if_splits)
  note pr = eprobe_sound [OF h(1) assms(2)]
  obtain a where a: "p = Addr a" "cells (msgs s) a = Some m" using assms(4) by (auto simp: load_Some_iff)
  have "a \<noteq> e_msg e" using assms(5) [of e] a(1) es by auto
  obtain s' where s': "evict_if_needed s = Some s'" "list_rel s' es'" "hash_table s' = ht"
    "head s' = head s" "tail s' = tail s"
    "msgs s' = (msgs s)\<lparr>cells := (cells (msgs s))(e_msg e := None)\<rparr>"
    "next_addr (nodes s') = next_addr (nodes s)" "dsk s' = dsk s" "stats s' = stats s"
    "mem_ok s' = mem_ok s"
    using evict_list [OF assms(2) [unfolded es] len pr h(2)] by blast
  then have "load (msgs s') p = Some m" using a \<open>a \<noteq> e_msg e\<close> by simp
  with s' assms(3) h(3) len show ?thesis by (intro exI [of _ s'] exI [of _ es']) simp
qed

lemma emiss_sound:
  assumes "miss_state s st" and "emiss st k = Some st'" and "0 \<le> k" and "in_int k"
    and "stored (dsk s) k = Some m" and "misses (stats s) < INT_MAX"
  shows "\<exists>r s'. get_msg_from_cache_or_disk s k = Some (r, s') \<and> miss_state s' st'
    \<and> head s' = head s \<and> tail s' = tail s
    \<and> dsk s' = save (dsk s) m \<and> misses (stats s') = misses (stats s) + 1"
proof -
  obtain es where es: "list_rel s es" "st = (node_keys es, hash_table s, next_addr (nodes s))"
    and ok: "mem_ok s" "disk_good (dsk s)" "0 \<le> misses (stats s)"
    using assms(1) by (auto simp: miss_state_def)
  have id: "msg_id m = k" and wf: "wf_Message m"
    using disk_good_id assms(4,5) ok(2) wf_stored by auto
  obtain h ps ht h2 ht2 where h: "eprobe (node_keys es) (hash_table s) k (hash k) = Some h"
    "tab_get (hash_table s) h = Some Null" "eevict (node_keys es, hash_table s) = Some (ps, ht)"
    "probe_free ht h = Some h2" "tab_set ht h2 (Addr (next_addr (nodes s))) = Some ht2"
    "st' = (ps @ [(next_addr (nodes s), k)], ht2, Suc (next_addr (nodes s)))"
    using assms(2) unfolding es(2) by (auto elim!: bind_Some_E split: if_splits)
  let ?a = "next_addr (msgs s)"
  let ?s1 = "s\<lparr>stats := (stats s)\<lparr>misses := misses (stats s) + 1\<rparr>\<rparr>"
  let ?s2 = "?s1\<lparr>msgs := (msgs s)\<lparr>cells := (cells (msgs s))(?a := Some m), next_addr := Suc ?a\<rparr>\<rparr>"
  obtain jm where jm: "alloc (msgs s) ?a = Some jm" using mem_okE [OF ok(1)] by blast
  have s2: "list_rel ?s2 es" "mem_ok ?s2"
    using list_rel_new_message [of ?s1 es m] es(1) ok(1) by auto
  have "Addr ?a \<noteq> Addr (e_msg e)" if "e \<in> set es" for e
    using list_rel_entry(3) [OF es(1) that] list_rel_facts(5) [OF es(1)] by (auto dest: live_bound)
  then obtain s3 es3 where s3: "evict_if_needed ?s2 = Some s3" "list_rel s3 es3" "node_keys es3 = ps"
    "hash_table s3 = ht" "head s3 = head s" "tail s3 = tail s" "int (length es3) < CACHE_CAPACITY" "load (msgs s3) (Addr ?a) = Some m"
    "next_addr (nodes s3) = next_addr (nodes s)" "dsk s3 = dsk s" "stats s3 = stats ?s1" "mem_ok s3"
    using eevict_sound [of es ?s2 ps ht "Addr ?a" m] h(3) s2 by auto
  let ?es' = "es3 @ [(next_addr (nodes s3), k, next_addr (msgs s3))]"
  obtain s4 where s4: "insert_new ?s2 h (Addr ?a) = Some s4" "list_rel s4 ?es'" "hash_table s4 = ht2"
    "head s4 = head s3" "tail s4 = tail s3"
    "next_addr (nodes s4) = Suc (next_addr (nodes s3))" "load (msgs s4) (Addr ?a) = Some m"
    "dsk s4 = dsk s3" "stats s4 = stats s3" "mem_ok s4"
    using insert_list [OF s3(1,2,7,8) _ wf s3(12), of h h2 ht2] h(4,5) s3(4,9) id assms(3) by auto
  note pr = eprobe_sound [OF h(1) es(1)]
  have "put_msg ?s2 (Addr ?a) = Some (s4\<lparr>dsk := save (dsk s) m\<rparr>)"
    using pr h(2) s4(1,7,8) s3(10) id store_msg_ready [OF s4(7) wf, of "dsk s"]
      disk_good_ready [OF ok(2) assms(4)]
    by (simp add: put_msg_def)
  then have "get_msg_from_cache_or_disk s k = Some (Addr ?a, s4\<lparr>dsk := save (dsk s) m\<rparr>)"
    using pr h(2) retrieve_msg_stored [OF assms(5) jm] ok(3) assms(6)
    by (simp add: get_msg_from_cache_or_disk_def)
  moreover have "miss_state (s4\<lparr>dsk := save (dsk s) m\<rparr>) st'"
    using s4 s3 h(6) ok disk_good_save [OF ok(2) wf]
    by (auto simp: miss_state_def node_keys_def intro!: exI [of _ ?es'])
  ultimately show ?thesis using s3(5,6,11) s4(4,5,9) by auto
qed

lemma emisses_sound:
  assumes "miss_state s st" and "emisses st ks = Some st'"
    and "\<forall>k \<in> set ks. 1 \<le> k \<and> k \<le> n" and "n \<le> INT_MAX"
    and "\<forall>k. 1 \<le> k \<and> k \<le> n \<longrightarrow> stored (dsk s) k \<noteq> None"
    and "misses (stats s) + int (length ks) \<le> INT_MAX"
  shows "\<exists>s'. test_accesses s n (map (\<lambda>k. k - 1) ks) = Some s' \<and> miss_state s' st'
    \<and> head s' = head s \<and> tail s' = tail s
    \<and> misses (stats s') = misses (stats s) + int (length ks)"
  using assms(1,2,3,5,6)
proof (induction ks arbitrary: s st)
  case Nil
  then show ?case by simp
next
  case (Cons k ks)
  have k: "1 \<le> k" "k \<le> n" using Cons.prems(3) by auto
  have int: "in_int j" if "1 \<le> j" "j \<le> n" for j using that assms(4) by (simp add: in_int_def)
  obtain m where m: "stored (dsk s) k = Some m" using Cons.prems(4) k by blast
  obtain st1 where st1: "emiss st k = Some st1" "emisses st1 ks = Some st'"
    using Cons.prems(2) by (auto elim: bind_Some_E)
  obtain r s1 where s1: "get_msg_from_cache_or_disk s k = Some (r, s1)" "miss_state s1 st1"
    "head s1 = head s" "tail s1 = tail s"
    "dsk s1 = save (dsk s) m" "misses (stats s1) = misses (stats s) + 1"
    using emiss_sound [OF Cons.prems(1) st1(1) _ int [OF k] m] k Cons.prems(5) by auto
  have "disk_good (dsk s)" using Cons.prems(1) by (simp add: miss_state_def)
  then have "\<forall>j. 1 \<le> j \<and> j \<le> n \<longrightarrow> stored (dsk s1) j \<noteq> None"
    using Cons.prems(4) disk.lookup_rewrite [OF _ int [OF k] int m] s1(5) by simp
  then obtain s' where s': "test_accesses s1 n (map (\<lambda>k. k - 1) ks) = Some s'" "miss_state s' st'"
    "head s' = head s1" "tail s' = tail s1" "misses (stats s') = misses (stats s1) + int (length ks)"
    using Cons.IH [OF s1(2) st1(2)] Cons.prems(3,5) s1(6) by auto
  have "c_rem (k - 1) n = Some (k - 1)" and "c_incr (k - 1) = Some k"
    using k assms(4) c_incr_Some [of "k - 1"] by (auto simp: c_rem_def smod_mod_positive)
  with s1 s' show ?case by simp
qed

section \<open>The run that uses a freed node\<close>

text \<open>The identifiers 1, 104 and 207 share the home slot 1. When 207 comes, 1 is evicted and its slot
  cleared; 104 is behind it and is no longer found, so the next access of 104 misses, evicts the
  cached 104, clears the wrong slot and leaves slot 2 pointing to the freed node. The next access of
  207 probes slot 2.\<close>

definition clash_ids :: "int list" where
  "clash_ids = [1, 104, 10, 11, 12, 13, 14, 15, 16, 17, 18, 19, 20, 21, 22, 23, 207, 104]"

lemma clash_run:
  "map_option (\<lambda>(ps, ht, na). (ps, ht ! 1, ht ! 2, length ht))
     (emisses ([], replicate (nat HASH_SIZE) Null, 2) clash_ids) =
   Some ([(4, 10), (5, 11), (6, 12), (7, 13), (8, 14), (9, 15), (10, 16), (11, 17), (12, 18), (13, 19),
          (14, 20), (15, 21), (16, 22), (17, 23), (18, 207), (19, 104)], Addr 19, Addr 3, 103)"
  by code_simp

definition clash_rand :: "nat \<Rightarrow> int" where
  "clash_rand i = (if i < length clash_ids then clash_ids ! i - 1 else 206)"

lemma clash_rands: "map clash_rand [0 ..< 18] = map (\<lambda>k. k - 1) clash_ids"
  and clash_rands': "map clash_rand [0 ..< 19] = map (\<lambda>k. k - 1) clash_ids @ [206]"
  by (simp_all add: clash_rand_def clash_ids_def upt_rec)

lemma test_accesses_append:
  "test_accesses s n (rs @ rs') = test_accesses s n rs \<bind> (\<lambda>s. test_accesses s n rs')"
  by (induction rs arbitrary: s) (auto split: Option.bind_splits)

lemma clash_dangling:
  assumes "fresh_heap s" and "next_addr (nodes s) = 0" and "disk_good (dsk s)"
    and "\<forall>k. 1 \<le> k \<and> k \<le> 207 \<longrightarrow> stored (dsk s) k \<noteq> None"
  shows "\<exists>s0 s'. init_cache s = Some s0 \<and> stats s0 = \<lparr>hits = 0, misses = 0\<rparr>
    \<and> test_accesses s0 207 (map clash_rand [0 ..< 18]) = Some s'
    \<and> tab_get (hash_table s') 1 = Some (Addr 19) \<and> (\<exists>n. cells (nodes s') 19 = Some n \<and> key n = 104)
    \<and> tab_get (hash_table s') 2 = Some (Addr 3) \<and> 3 \<notin> live (nodes s')"
proof -
  obtain s0 where s0: "init_cache s = Some s0" "cache_rel s0 []" "mem_ok s0" "dsk s0 = dsk s"
    "stats s0 = \<lparr>hits = 0, misses = 0\<rparr>" "head s0 = Addr 0" "tail s0 = Addr 1"
    "next_addr (nodes s0) = 2"
    using init_cache_rel [OF assms(1)] assms(2) by auto
  have st0: "miss_state s0 ([], replicate (nat HASH_SIZE) Null, 2)"
    using s0 cache_relD [OF s0(2)] assms(3)
    by (auto simp: miss_state_def node_keys_def table_of_empty intro!: exI [of _ "[]"])
  obtain ps ht na where em: "emisses ([], replicate (nat HASH_SIZE) Null, 2) clash_ids = Some (ps, ht, na)"
    "(19, 104) \<in> set ps" "3 \<notin> fst ` set ps" "ht ! 1 = Addr 19" "ht ! 2 = Addr 3" "length ht = 103"
    using clash_run by auto
  have "\<forall>k \<in> set clash_ids. 1 \<le> k \<and> k \<le> 207" by (simp add: clash_ids_def)
  then obtain s' where s': "test_accesses s0 207 (map (\<lambda>k. k - 1) clash_ids) = Some s'"
    "miss_state s' (ps, ht, na)" "head s' = Addr 0" "tail s' = Addr 1"
    using emisses_sound [OF st0 em(1), of 207] assms(4) s0(4-7) by (auto simp: clash_ids_def)
  obtain es where es: "list_rel s' es" "ps = node_keys es" "ht = hash_table s'"
    using s'(2) by (auto simp: miss_state_def)
  have "3 \<notin> live (nodes s')"
    using es(1) s'(3,4) em(3) unfolding es(2) by (auto elim!: list_relE simp: node_keys_def image_image)
  moreover have "\<exists>n. cells (nodes s') 19 = Some n \<and> key n = 104"
    using em(2) list_rel_entry(1) [OF es(1)] unfolding es(2) by (fastforce simp: node_keys_def payload_Some)
  ultimately show ?thesis
    using s0(1,5) s'(1) em(4-6) es(3) by (auto simp: clash_rands tab_get_def)
qed

text \<open>C4: The cache is memory safe only while keys do not collide. Eviction clears the slot of the
  evicted node and so cuts the probe sequence of a colliding key: with the messages 1 to 207 on
  disk there is a run of eighteen accesses after which the table points to a freed node, and a
  nineteenth access reads it, so that \<open>test_cache\<close> has no defined result.\<close>

theorem test_cache_use_after_free:
  assumes "fresh_heap s" and "next_addr (nodes s) = 0" and "disk_good (dsk s)"
    and "\<forall>k. 1 \<le> k \<and> k \<le> 207 \<longrightarrow> stored (dsk s) k \<noteq> None"
  shows "\<exists>s0 s' a. init_cache s = Some s0
    \<and> test_accesses s0 207 (map clash_rand [0 ..< 18]) = Some s'
    \<and> tab_get (hash_table s') 2 = Some (Addr a) \<and> a \<notin> live (nodes s')
    \<and> test_cache s0 19 207 clash_rand = None"
proof -
  obtain s0 s' n where s: "init_cache s = Some s0" "stats s0 = \<lparr>hits = 0, misses = 0\<rparr>"
    "test_accesses s0 207 (map clash_rand [0 ..< 18]) = Some s'"
    "tab_get (hash_table s') 1 = Some (Addr 19)" "cells (nodes s') 19 = Some n" "key n = 104"
    "tab_get (hash_table s') 2 = Some (Addr 3)" "3 \<notin> live (nodes s')"
    using clash_dangling [OF assms] by blast
  have "hash 207 = 1" by (simp add: hash_def HASH_SIZE_def)
  moreover have "cells (nodes s') 3 = None" using s(8) by (auto simp: live_def)
  ultimately have "get_msg_from_cache_or_disk s' 207 = None"
    using s(4-7) by (simp add: get_msg_from_cache_or_disk_def probe.simps HASH_SIZE_def)
  then have last: "test_accesses s' 207 [206] = None" by (simp add: c_rem_def)
  have "s0\<lparr>stats := \<lparr>hits = 0, misses = 0\<rparr>\<rparr> = s0" using s(2) by simp
  moreover have "test_accesses s0 207 (map clash_rand [0 ..< 19]) = None"
    using s(3) last unfolding clash_rands' test_accesses_append by (simp only: clash_rands bind.bind_lunit)
  ultimately have "test_cache s0 19 207 clash_rand = None" by (simp add: test_cache_def)
  with s show ?thesis by blast
qed

theorem test_cache_use_after_free_witness:
  "\<exists>s0 s' a. init_cache (sample_cache (sample_disk 207)) = Some s0
    \<and> test_accesses s0 207 (map clash_rand [0 ..< 18]) = Some s'
    \<and> tab_get (hash_table s') 2 = Some (Addr a) \<and> a \<notin> live (nodes s')
    \<and> test_cache s0 19 207 clash_rand = None"
  using sample_disk [of 207] by (intro test_cache_use_after_free) auto

section \<open>Negative identifiers\<close>

lemma hash_negative: "k < 0 \<Longrightarrow> \<not> HASH_SIZE dvd k \<Longrightarrow> hash k < 0"
proof -
  assume k: "k < 0" "\<not> HASH_SIZE dvd k"
  have "hash k = - ((- k) mod HASH_SIZE)"
    using k(1) by (simp add: hash_def HASH_SIZE_def smod_int_alt_def)
  moreover have "(- k) mod HASH_SIZE \<noteq> 0" using k(2) by (simp add: mod_eq_0_iff_dvd)
  moreover have "0 \<le> (- k) mod HASH_SIZE" by (simp add: HASH_SIZE_def)
  ultimately show ?thesis by linarith
qed

text \<open>A negative identifier that is no multiple of 103 makes the C remainder negative, so that
  both cache operations index before the table: they have no defined result.\<close>

theorem negative_id_undefined:
  assumes "k < 0" and "\<not> HASH_SIZE dvd k"
  shows "get_msg_from_cache_or_disk s k = None
    \<and> (load (msgs s) p = Some m \<longrightarrow> msg_id m = k \<longrightarrow> put_msg s p = None)"
  using hash_negative [OF assms]
  by (simp add: get_msg_from_cache_or_disk_def put_msg_def probe.simps tab_get_def)

theorem negative_id_undefined_witness:
  "get_msg_from_cache_or_disk (sample_cache blank_disk) (- 5) = None"
  using negative_id_undefined [of "- 5" "sample_cache blank_disk"] by (simp add: HASH_SIZE_def)

end
