(* ===== verification/Rfs_Model.thy ===== *)
theory Rfs_Model
  imports C_Strings
begin

text \<open>
  What the server and the client of \<open>practicum2\<close> share (\<open>common.h\<close>): permissions and buffer sizes,
  comparison and tokens of strings, file names, and programs that talk over a connection.
\<close>

section \<open>Constants and permissions\<close>

definition BUF_SIZE :: nat where "BUF_SIZE = 1024"
definition SERVER_DATA_DIR :: string where "SERVER_DATA_DIR = ''server_data''"

datatype permission_t = READ_WRITE | READ_ONLY

section \<open>Strings\<close>

definition to_lower :: "char \<Rightarrow> char" where
  "to_lower c = (if 65 \<le> code c \<and> code c \<le> 90 then char_of (code c + 32) else c)"

text \<open>\<open>strcasecmp(s, t) == 0\<close> in the C locale.\<close>

definition strcaseeq :: "string \<Rightarrow> string \<Rightarrow> bool" where
  "strcaseeq s t \<longleftrightarrow> map to_lower s = map to_lower t"

text \<open>The delimiters of the command line, and the tokens that successive calls of \<open>strtok\<close> give.\<close>

definition is_delim :: "char \<Rightarrow> bool" where
  "is_delim c \<longleftrightarrow> c \<in> {CHR '' '', CHR 0x09, CHR 0x0D, NEWLINE}"

fun tokens_from :: "string \<Rightarrow> string \<Rightarrow> string list" where
  "tokens_from cur [] = (if cur = [] then [] else [cur])"
| "tokens_from cur (c # cs) =
     (if is_delim c then (if cur = [] then tokens_from [] cs else cur # tokens_from [] cs)
      else tokens_from (cur @ [c]) cs)"

definition tokens :: "string \<Rightarrow> string list" where
  "tokens s = tokens_from [] s"

definition nth_token :: "nat \<Rightarrow> string list \<Rightarrow> string option" where
  "nth_token n ts = (if n < length ts then Some (ts ! n) else None)"

text \<open>A word can be sent as one argument of a command.\<close>

definition is_word :: "string \<Rightarrow> bool" where
  "is_word w \<longleftrightarrow> w \<noteq> [] \<and> no_nul w \<and> (\<forall>c \<in> set w. \<not> is_delim c)"

lemma tokens_from_word:
  "\<forall>c \<in> set w. \<not> is_delim c \<Longrightarrow> tokens_from cur (w @ rest) = tokens_from (cur @ w) rest"
  by (induction w arbitrary: cur) auto

lemma tokens_word: "is_word w \<Longrightarrow> tokens w = [w]"
  using tokens_from_word [of w "[]" "[]"] by (simp add: tokens_def is_word_def)

lemma tokens_word_blank:
  assumes "is_word w"
  shows "tokens (w @ CHR '' '' # rest) = w # tokens rest"
  using assms tokens_from_word [of w "[]" "CHR '' '' # rest"]
  by (simp add: tokens_def is_word_def is_delim_def)

lemma no_nul_word [simp]: "is_word w \<Longrightarrow> no_nul w"
  by (simp add: is_word_def)

section \<open>File names\<close>

text \<open>The kernel resolves a path component by component; empty components and \<open>.\<close> change nothing, \<open>..\<close>
  goes up. Two paths name the same file iff they resolve to the same components (there are no
  symbolic links).\<close>

fun components_from :: "string \<Rightarrow> string \<Rightarrow> string list" where
  "components_from cur [] = [cur]"
| "components_from cur (c # cs) =
     (if c = CHR ''/'' then cur # components_from [] cs else components_from (cur @ [c]) cs)"

fun resolve :: "string list \<Rightarrow> string list \<Rightarrow> string list" where
  "resolve acc [] = acc"
| "resolve acc (c # cs) =
     (if c = [] \<or> c = ''.'' then resolve acc cs
      else if c = ''..'' then resolve (butlast acc) cs
      else resolve (acc @ [c]) cs)"

definition file_of :: "string \<Rightarrow> string list" where
  "file_of path = resolve [] (components_from [] path)"

section \<open>Programs on a connection\<close>

text \<open>A program sends bytes, receives at most a given number of bytes (no bytes: the peer has closed
  the connection), or acts on the state of its machine; an action that returns \<open>None\<close> has to wait.
  \<open>Close\<close> closes the connection and ends.\<close>

datatype 's prog =
    Close
  | Send "char list" "'s prog"
  | Recv nat "char list \<Rightarrow> 's prog"
  | Act "'s \<Rightarrow> ('s \<times> 's prog) option"

definition act :: "('s \<Rightarrow> 's) \<Rightarrow> 's prog \<Rightarrow> 's prog" where
  "act f p = Act (\<lambda>s. Some (f s, p))"

definition query :: "('s \<Rightarrow> 's prog) \<Rightarrow> 's prog" where
  "query f = Act (\<lambda>s. Some (s, f s))"

end
