(* ===== verification/Rfs_Server.thy ===== *)
theory Rfs_Server
  imports Rfs_Model
begin

text \<open>
  \<open>practicum2/server.c\<close>: the permission table, the three handlers and the thread of a client. The state
  of the server is the table, its files as inodes with contents, and the advisory locks taken with
  \<open>flock\<close>; which paths can be opened, created and removed, whether \<open>flock\<close> and \<open>read\<close> work and how
  much can be written is part of the state and arbitrary. A thread is a program (\<open>Rfs_Model\<close>) whose
  actions are the system calls and the critical sections of the table. The request is taken apart in one
  step here; \<open>Rfs_Requests\<close> has the threads with the four calls of \<open>strtok\<close> on its shared static variable, and
  shows which of their runs are those of the threads of this theory.
\<close>

type_synonym tid = nat
type_synonym inode = nat

section \<open>The permission table\<close>

definition MAX_FILES :: int where "MAX_FILES = 100"

record filemeta_t =
  filename :: "char list"
  perm :: permission_t

record table =
  g_files :: "filemeta_t list"
  g_file_count :: int

definition empty_table :: table where
  "empty_table = \<lparr>g_files = replicate (nat MAX_FILES) \<lparr>filename = replicate 256 NUL, perm = READ_WRITE\<rparr>,
     g_file_count = 0\<rparr>"

text \<open>The search loop of both functions, from index \<open>0\<close> to \<open>g_file_count - 1\<close>.\<close>

fun find_entry :: "filemeta_t list \<Rightarrow> string \<Rightarrow> permission_t option" where
  "find_entry [] path = None"
| "find_entry (e # es) path = (if cstr (filename e) = path then Some (perm e) else find_entry es path)"

definition entries :: "table \<Rightarrow> filemeta_t list" where
  "entries tb = take (nat (g_file_count tb)) (g_files tb)"

definition get_file_permission :: "table \<Rightarrow> string \<Rightarrow> permission_t" where
  "get_file_permission tb path =
     (case find_entry (entries tb) path of Some p \<Rightarrow> p | None \<Rightarrow> READ_WRITE)"

definition set_file_permission :: "table \<Rightarrow> string \<Rightarrow> permission_t \<Rightarrow> table" where
  "set_file_permission tb path p =
     (case find_entry (entries tb) path of
        Some _ \<Rightarrow> tb
      | None \<Rightarrow>
          if g_file_count tb < MAX_FILES
          then let n = nat (g_file_count tb);
                   e = (g_files tb) ! n;
                   e = e\<lparr>filename := strncpy (filename e) path 255\<rparr>;
                   e = e\<lparr>filename := (filename e)[255 := NUL]\<rparr>;
                   e = e\<lparr>perm := p\<rparr>
               in tb\<lparr>g_files := (g_files tb)[n := e], g_file_count := g_file_count tb + 1\<rparr>
          else tb)"

definition parse_perm :: "string option \<Rightarrow> permission_t" where
  "parse_perm s =
     (case s of
        None \<Rightarrow> READ_WRITE
      | Some s \<Rightarrow> if strcaseeq s ''RO'' then READ_ONLY else READ_WRITE)"

section \<open>Files and locks\<close>

record server =
  tab :: table
  names :: "string list \<Rightarrow> inode option"
  contents :: "inode \<Rightarrow> char list"
  next_inode :: inode
  writer :: "inode \<Rightarrow> tid option"
  readers :: "inode \<Rightarrow> tid set"
  can_create :: "string list \<Rightarrow> bool"
  can_write :: "string list \<Rightarrow> bool"
  can_read :: "string list \<Rightarrow> bool"
  can_remove :: "string list \<Rightarrow> bool"
  flock_works :: "string list \<Rightarrow> bool"
  read_works :: "inode \<Rightarrow> bool"
  free_space :: "inode \<Rightarrow> nat"

text \<open>\<open>open(path, O_WRONLY | O_CREAT | O_TRUNC, 0666)\<close>, \<open>open(path, O_WRONLY)\<close>, \<open>open(path, O_RDONLY)\<close>:
  the inode the descriptor refers to.\<close>

definition open_trunc :: "server \<Rightarrow> string list \<Rightarrow> (inode \<times> server) option" where
  "open_trunc s f =
     (case names s f of
        Some i \<Rightarrow> if can_write s f then Some (i, s\<lparr>contents := (contents s)(i := [])\<rparr>) else None
      | None \<Rightarrow>
          if can_create s f
          then let i = next_inode s
               in Some (i, s\<lparr>names := (names s)(f \<mapsto> i), contents := (contents s)(i := []),
                             next_inode := Suc i\<rparr>)
          else None)"

definition open_write :: "server \<Rightarrow> string list \<Rightarrow> inode option" where
  "open_write s f = (if can_write s f then names s f else None)"

definition open_read :: "server \<Rightarrow> string list \<Rightarrow> inode option" where
  "open_read s f = (if can_read s f then names s f else None)"

text \<open>\<open>flock\<close> waits until no other descriptor holds a conflicting lock.\<close>

definition lock_ex :: "tid \<Rightarrow> inode \<Rightarrow> server \<Rightarrow> server option" where
  "lock_ex t i s = (if writer s i = None \<and> readers s i = {} then Some (s\<lparr>writer := (writer s)(i := Some t)\<rparr>) else None)"

definition lock_sh :: "tid \<Rightarrow> inode \<Rightarrow> server \<Rightarrow> server option" where
  "lock_sh t i s = (if writer s i = None then Some (s\<lparr>readers := (readers s)(i := insert t (readers s i))\<rparr>) else None)"

text \<open>\<open>flock(fd, LOCK_UN); close(fd);\<close>\<close>

definition unlock :: "tid \<Rightarrow> inode \<Rightarrow> server \<Rightarrow> server" where
  "unlock t i s = s\<lparr>writer := (writer s)(i := if writer s i = Some t then None else writer s i),
     readers := (readers s)(i := readers s i - {t})\<rparr>"

text \<open>\<open>write(fd, buf, n)\<close> at the start of the file: what is written, and how much of it.\<close>

definition write_start :: "inode \<Rightarrow> char list \<Rightarrow> server \<Rightarrow> nat \<times> server" where
  "write_start i buf s =
     (let k = min (length buf) (free_space s i)
      in (k, s\<lparr>contents := (contents s)(i := take k buf @ drop k (contents s i))\<rparr>))"

definition read_start :: "inode \<Rightarrow> server \<Rightarrow> char list" where
  "read_start i s = (if read_works s i then take BUF_SIZE (contents s i) else [])"

definition remove_name :: "string list \<Rightarrow> server \<Rightarrow> bool \<times> server" where
  "remove_name f s =
     (if names s f \<noteq> None \<and> can_remove s f then (True, s\<lparr>names := (names s)(f := None)\<rparr>) else (False, s))"

text \<open>\<open>snprintf(full, sizeof(full), "%s/%s", SERVER_DATA_DIR, remotePath)\<close>\<close>

definition full_path :: "string \<Rightarrow> string" where
  "full_path remote = take (BUF_SIZE - 1) (SERVER_DATA_DIR @ ''/'' @ remote)"

section \<open>The handlers\<close>

text \<open>\<open>flock(fd, LOCK_EX)\<close> and its error branch.\<close>

definition with_lock_ex :: "tid \<Rightarrow> string list \<Rightarrow> inode \<Rightarrow> server prog \<Rightarrow> server prog" where
  "with_lock_ex t f i p = Act (\<lambda>s.
     if \<not> flock_works s f then Some (s, Send ''ERR_FLOCK_FAILED'' Close)
     else map_option (\<lambda>s. (s, p)) (lock_ex t i s))"

definition with_lock_sh :: "tid \<Rightarrow> string list \<Rightarrow> inode \<Rightarrow> server prog \<Rightarrow> server prog" where
  "with_lock_sh t f i p = Act (\<lambda>s.
     if \<not> flock_works s f then Some (s, Send ''ERR_FLOCK_FAILED'' Close)
     else map_option (\<lambda>s. (s, p)) (lock_sh t i s))"

definition save_data :: "tid \<Rightarrow> inode \<Rightarrow> char list \<Rightarrow> server prog" where
  "save_data t i buf = Act (\<lambda>s.
     let (n, s) = write_start i buf s
     in Some (s, act (unlock t i) (Send (if n \<noteq> length buf then ''ERR_WRITE_FAILED'' else ''WRITE_OK'') Close)))"

definition receive_file :: "tid \<Rightarrow> inode \<Rightarrow> server prog" where
  "receive_file t i = Recv BUF_SIZE (\<lambda>buf.
     if buf = [] then act (unlock t i) (Send ''ERR_RECV_FILE_DATA'' Close)
     else save_data t i buf)"

definition open_and_receive :: "tid \<Rightarrow> string list \<Rightarrow> server prog" where
  "open_and_receive t f = Act (\<lambda>s.
     case open_trunc s f of
       None \<Rightarrow> Some (s, Send ''ERR_OPEN'' Close)
     | Some (i, s) \<Rightarrow> Some (s, with_lock_ex t f i (receive_file t i)))"

definition write_checked :: "tid \<Rightarrow> string \<Rightarrow> permission_t \<Rightarrow> server prog" where
  "write_checked t remotePath p =
     (if p = READ_ONLY then Send (''ERR_FILE_IS_READ_ONLY'' @ [NUL]) Close
      else Send (''OK_READY_TO_RECEIVE'' @ [NUL]) (open_and_receive t (file_of (full_path remotePath))))"

definition set_and_check :: "tid \<Rightarrow> string \<Rightarrow> string option \<Rightarrow> server prog" where
  "set_and_check t remotePath permStr =
     act (\<lambda>s. s\<lparr>tab := set_file_permission (tab s) remotePath (parse_perm permStr)\<rparr>)
       (query (\<lambda>s. write_checked t remotePath (get_file_permission (tab s) remotePath)))"

definition handle_write :: "tid \<Rightarrow> string \<Rightarrow> string option \<Rightarrow> server prog" where
  "handle_write t remotePath permStr = query (\<lambda>s.
     let p = get_file_permission (tab s) remotePath
     in if p = READ_WRITE then set_and_check t remotePath permStr else write_checked t remotePath p)"

definition send_back :: "tid \<Rightarrow> inode \<Rightarrow> server prog" where
  "send_back t i = query (\<lambda>s.
     let buf = read_start i s
     in act (unlock t i) (Send ''OK_SENDING_FILE'' (if buf \<noteq> [] then Send buf Close else Close)))"

definition handle_get :: "tid \<Rightarrow> string \<Rightarrow> server prog" where
  "handle_get t remotePath =
     (let f = file_of (full_path remotePath)
      in query (\<lambda>s.
           case open_read s f of
             None \<Rightarrow> Send ''ERR_FILE_NOT_FOUND'' Close
           | Some i \<Rightarrow> with_lock_sh t f i (send_back t i)))"

definition remove_file :: "tid \<Rightarrow> string list \<Rightarrow> inode \<Rightarrow> server prog" where
  "remove_file t f i = Act (\<lambda>s.
     let (ok, s) = remove_name f s
     in Some (s, act (unlock t i) (Send (if ok then ''RM_OK'' else ''ERR_REMOVE_FAILED'') Close)))"

definition handle_rm :: "tid \<Rightarrow> string \<Rightarrow> server prog" where
  "handle_rm t remotePath = query (\<lambda>s.
     if get_file_permission (tab s) remotePath = READ_ONLY
     then Send (''ERR_FILE_IS_READ_ONLY'' @ [NUL]) Close
     else
       let f = file_of (full_path remotePath)
       in query (\<lambda>s.
            case open_write s f of
              None \<Rightarrow> Send ''ERR_REMOVE_FAILED'' Close
            | Some i \<Rightarrow> with_lock_ex t f i (remove_file t f i)))"

definition run_command :: "tid \<Rightarrow> string option \<Rightarrow> string option \<Rightarrow> string option \<Rightarrow> string option \<Rightarrow> server prog" where
  "run_command t cmd arg1 arg2 arg3 =
     (case cmd of
        None \<Rightarrow> Close
      | Some cmd \<Rightarrow>
          (case (strcaseeq cmd ''WRITE'', arg1, arg2) of
             (True, Some _, Some path) \<Rightarrow> handle_write t path arg3
           | _ \<Rightarrow>
          (case (strcaseeq cmd ''GET'', arg1, arg2) of
             (True, Some path, Some _) \<Rightarrow> handle_get t path
           | _ \<Rightarrow>
          (case (strcaseeq cmd ''RM'', arg1) of
             (True, Some path) \<Rightarrow> handle_rm t path
           | _ \<Rightarrow> Send ''ERR_BAD_ARGS'' Close))))"

text \<open>The request read in one step, as by a thread whose calls of \<open>strtok\<close> nobody disturbs.\<close>

definition dispatch :: "tid \<Rightarrow> string \<Rightarrow> server prog" where
  "dispatch t line =
     (let ts = tokens line
      in run_command t (nth_token 0 ts) (nth_token 1 ts) (nth_token 2 ts) (nth_token 3 ts))"

definition client_thread :: "tid \<Rightarrow> server prog" where
  "client_thread t = Recv (BUF_SIZE - 1) (\<lambda>buf. if buf = [] then Close else dispatch t (cstr buf))"

end
