(* ===== verification/Rfs_Client.thy ===== *)
theory Rfs_Client
  imports Rfs_Model
begin

text \<open>
  \<open>practicum2/client.c\<close>: the command-line client. Its state is the
  local files, what it prints about the answers of the server, and the exit status it ends with.
\<close>

record client =
  local :: "string \<Rightarrow> char list option"
  can_save :: "string \<Rightarrow> bool"
  printed :: "string list"
  status :: "int option"

definition finish :: "int \<Rightarrow> client prog" where
  "finish n = act (\<lambda>s. s\<lparr>status := Some n\<rparr>) Close"

definition say :: "string \<Rightarrow> client prog \<Rightarrow> client prog" where
  "say m p = act (\<lambda>s. s\<lparr>printed := printed s @ [m]\<rparr>) p"

text \<open>A formatted command is cut to the buffer; only the bytes before the first NUL are sent.\<close>

definition command :: "string \<Rightarrow> char list" where
  "command c = cstr (take (BUF_SIZE - 1) c)"

text \<open>\<open>strncmp(response, word, n) == 0\<close> for a word of \<open>n\<close> characters.\<close>

definition starts_with :: "string \<Rightarrow> string \<Rightarrow> bool" where
  "starts_with response word \<longleftrightarrow> take (length word) response = word"

text \<open>The parts of \<open>do_write\<close>: the final answer, the file data, the first answer.\<close>

definition final_reply :: "client prog" where
  "final_reply = Recv (BUF_SIZE - 1) (\<lambda>buf.
     if buf = [] then finish 1
     else say (''[Client] Server final response: '' @ cstr buf) (finish 0))"

definition send_file :: "char list \<Rightarrow> client prog" where
  "send_file file =
     (let file_buf = take BUF_SIZE file
      in if file_buf \<noteq> [] then Send file_buf final_reply else final_reply)"

definition ready_reply :: "string \<Rightarrow> client prog" where
  "ready_reply localFile = Recv (BUF_SIZE - 1) (\<lambda>buf.
     let response = cstr buf
     in if buf = [] then finish 1
        else if \<not> starts_with response ''OK_READY_TO_RECEIVE'' then say (''Server error: '' @ response) (finish 1)
        else query (\<lambda>s. case local s localFile of None \<Rightarrow> finish 1 | Some file \<Rightarrow> send_file file))"

definition do_write :: "string \<Rightarrow> string \<Rightarrow> string option \<Rightarrow> client prog" where
  "do_write localFile remoteFile permStr =
     Send (command (case permStr of
         Some p \<Rightarrow> ''WRITE '' @ localFile @ '' '' @ remoteFile @ '' '' @ p
       | None \<Rightarrow> ''WRITE '' @ localFile @ '' '' @ remoteFile))
     (ready_reply localFile)"

text \<open>The parts of \<open>do_get\<close>: the file data, the first answer.\<close>

definition received_line :: "string \<Rightarrow> string" where
  "received_line localFile = ''[Client] File received, written to '' @ [CHR 0x27] @ localFile @ [CHR 0x27]"

definition save_file :: "string \<Rightarrow> client prog" where
  "save_file localFile = Recv BUF_SIZE (\<lambda>file_buf.
     if file_buf \<noteq> []
     then query (\<lambda>s.
       if can_save s localFile
       then act (\<lambda>s. s\<lparr>local := (local s)(localFile \<mapsto> file_buf)\<rparr>)
              (say (received_line localFile) (finish 0))
       else finish 1)
     else say ''[Client] File is empty or server didn't send data.'' (finish 0))"

definition get_reply :: "string \<Rightarrow> client prog" where
  "get_reply localFile = Recv (BUF_SIZE - 1) (\<lambda>buf.
     let response = cstr buf
     in if buf = [] then finish 1
        else if starts_with response ''ERR_FILE_NOT_FOUND'' then say ''Server error: File not found.'' (finish 1)
        else if \<not> starts_with response ''OK_SENDING_FILE'' then say (''Server error: '' @ response) (finish 1)
        else save_file localFile)"

definition do_get :: "string \<Rightarrow> string \<Rightarrow> client prog" where
  "do_get remoteFile localFile = Send (command (''GET '' @ remoteFile @ '' '' @ localFile)) (get_reply localFile)"

definition rm_reply :: "client prog" where
  "rm_reply = Recv (BUF_SIZE - 1) (\<lambda>buf.
     if buf = [] then finish 1
     else say (''[Client] Server response: '' @ cstr buf) (finish 0))"

definition do_rm :: "string \<Rightarrow> client prog" where
  "do_rm remoteFile = Send (command (''RM '' @ remoteFile)) rm_reply"

text \<open>\<open>main\<close>, with the arguments after the program name.\<close>

definition main :: "string list \<Rightarrow> client prog" where
  "main args =
     (case args of
        [] \<Rightarrow> finish 1
      | cmd # rest \<Rightarrow>
          if strcaseeq cmd ''WRITE''
          then (case rest of
                  localFile # remoteFile # others \<Rightarrow> do_write localFile remoteFile (nth_token 0 others)
                | _ \<Rightarrow> finish 1)
          else if strcaseeq cmd ''GET''
          then (case rest of
                  remoteFile # localFile # _ \<Rightarrow> do_get remoteFile localFile
                | _ \<Rightarrow> finish 1)
          else if strcaseeq cmd ''RM''
          then (case rest of remoteFile # _ \<Rightarrow> do_rm remoteFile | _ \<Rightarrow> finish 1)
          else finish 1)"

text \<open>The program from its start. Which of the calls \<open>socket\<close>, \<open>inet_pton\<close> and \<open>connect\<close> work is given.\<close>

record connecting =
  socket_works :: bool
  pton_works :: bool
  connect_works :: bool

definition client_main :: "connecting \<Rightarrow> string list \<Rightarrow> client prog" where
  "client_main net args =
     (if args = [] then finish 1
      else if \<not> socket_works net then finish 1
      else if \<not> pton_works net then finish 1
      else if \<not> connect_works net then finish 1
      else main args)"

lemma client_main_connected: "socket_works net \<Longrightarrow> pton_works net \<Longrightarrow> connect_works net \<Longrightarrow> client_main net = main"
  by (auto simp: client_main_def main_def fun_eq_iff)

end
