(* ===== verification/Rfs_Network.thy ===== *)
theory Rfs_Network
  imports Rfs_Server Rfs_Client
begin

text \<open>
  Clients and server threads on TCP connections. A connection carries two byte streams without
  message boundaries; \<open>recv\<close> takes everything that has arrived, up to its limit, and returns no bytes
  once the peer has closed and nothing is left. The steps of all threads and clients interleave
  arbitrarily. The accept loop of \<open>main\<close> in \<open>server.c\<close> gives every connection a thread of its own. The
  state of the server process is a parameter: here it is that of \<open>Rfs_Server\<close>; \<open>Rfs_Requests\<close> adds the
  static variable of \<open>strtok\<close>.
\<close>

record 's net =
  srv :: 's
  thread :: "tid \<Rightarrow> 's prog"
  peer :: "tid \<Rightarrow> client prog"
  machine :: "tid \<Rightarrow> client"
  to_srv :: "tid \<Rightarrow> char list"
  to_cli :: "tid \<Rightarrow> char list"

type_synonym network = "server net"

definition srv_step :: "'s net \<Rightarrow> tid \<Rightarrow> 's net option" where
  "srv_step c t =
     (case thread c t of
        Close \<Rightarrow> None
      | Send m p \<Rightarrow> Some (c\<lparr>thread := (thread c)(t := p), to_cli := (to_cli c)(t := to_cli c t @ m)\<rparr>)
      | Recv n k \<Rightarrow>
          (if to_srv c t \<noteq> []
           then Some (c\<lparr>thread := (thread c)(t := k (take n (to_srv c t))),
                        to_srv := (to_srv c)(t := drop n (to_srv c t))\<rparr>)
           else (case peer c t of Close \<Rightarrow> Some (c\<lparr>thread := (thread c)(t := k [])\<rparr>) | _ \<Rightarrow> None))
      | Act f \<Rightarrow> map_option (\<lambda>(s, p). c\<lparr>srv := s, thread := (thread c)(t := p)\<rparr>) (f (srv c)))"

definition cli_step :: "'s net \<Rightarrow> tid \<Rightarrow> 's net option" where
  "cli_step c t =
     (case peer c t of
        Close \<Rightarrow> None
      | Send m p \<Rightarrow> Some (c\<lparr>peer := (peer c)(t := p), to_srv := (to_srv c)(t := to_srv c t @ m)\<rparr>)
      | Recv n k \<Rightarrow>
          (if to_cli c t \<noteq> []
           then Some (c\<lparr>peer := (peer c)(t := k (take n (to_cli c t))),
                        to_cli := (to_cli c)(t := drop n (to_cli c t))\<rparr>)
           else (case thread c t of Close \<Rightarrow> Some (c\<lparr>peer := (peer c)(t := k [])\<rparr>) | _ \<Rightarrow> None))
      | Act f \<Rightarrow> map_option (\<lambda>(s, p). c\<lparr>machine := (machine c)(t := s), peer := (peer c)(t := p)\<rparr>)
                  (f (machine c t)))"

inductive step :: "'s net \<Rightarrow> 's net \<Rightarrow> bool" where
  server: "srv_step c t = Some c' \<Longrightarrow> step c c'"
| client: "cli_step c t = Some c' \<Longrightarrow> step c c'"

inductive_cases stepE: "step c c'"

inductive reachable :: "'s net \<Rightarrow> 's net \<Rightarrow> bool" for c0 where
  refl: "reachable c0 c0"
| step: "reachable c0 c \<Longrightarrow> step c c' \<Longrightarrow> reachable c0 c'"

lemma net_trans: "reachable c1 c2 \<Longrightarrow> reachable c0 c1 \<Longrightarrow> reachable c0 c2"
  by (induction rule: reachable.induct) (auto intro: reachable.step)

text \<open>The clients given by their arguments and machines have connected; nothing is sent yet.\<close>

definition connect :: "server \<Rightarrow> (tid \<Rightarrow> string list) \<Rightarrow> (tid \<Rightarrow> client) \<Rightarrow> network" where
  "connect s args cs = \<lparr>srv = s, thread = client_thread, peer = (\<lambda>t. main (args t)), machine = cs,
     to_srv = (\<lambda>_. []), to_cli = (\<lambda>_. [])\<rparr>"

text \<open>\<open>main\<close> of the server: the exit code if a socket for connections cannot be made, else the connections
  of the accept loop, which never ends. A connection that \<open>accept\<close> fails for is none.\<close>

record listening =
  socket_made :: bool
  bind_works :: bool
  listen_works :: bool

definition server_main :: "listening \<Rightarrow> server \<Rightarrow> (tid \<Rightarrow> string list) \<Rightarrow> (tid \<Rightarrow> client) \<Rightarrow> int + network" where
  "server_main net s args cs =
     (if \<not> socket_made net then Inl 1
      else if \<not> bind_works net then Inl 1
      else if \<not> listen_works net then Inl 1
      else Inr (connect s args cs))"

text \<open>A schedule: which thread or client makes the next step.\<close>

datatype who = S tid | C tid

fun move :: "who \<Rightarrow> 's net \<Rightarrow> 's net option" where
  "move (S t) c = srv_step c t"
| "move (C t) c = cli_step c t"

fun run :: "who list \<Rightarrow> 's net \<Rightarrow> 's net option" where
  "run [] c = Some c"
| "run (w # ws) c = do { c \<leftarrow> move w c; run ws c }"

lemma move_step: "move w c = Some c' \<Longrightarrow> step c c'"
  by (cases w) (auto intro: step.intros)

lemma schedule_reachable: "run ws c = Some c' \<Longrightarrow> reachable c c'"
proof (induction ws arbitrary: c)
  case (Cons w ws)
  then obtain c1 where c1: "move w c = Some c1" "run ws c1 = Some c'" by (auto elim: bind_Some_E)
  have "reachable c c1" by (rule reachable.step [OF reachable.refl move_step [OF c1(1)]])
  with Cons.IH [OF c1(2)] show ?case by (rule net_trans)
qed (auto intro: reachable.refl)

end
