(* ===== verification/Rfs_Locks.thy ===== *)
theory Rfs_Locks
  imports Rfs_Network
begin

text \<open>
  The locking discipline of the server threads. A thread holds at most one lock; between taking and
  releasing an exclusive lock it may write the file or remove a name, and the only change to a file it
  makes without a lock is the creation or truncation by \<open>open\<close>. Every handler keeps to it, and so the
  locks of the running server are those of its threads, in every interleaving of any number of clients.
  Conversely, a thread at a point of its program where a file is written, read or removed holds a lock.
\<close>

datatype hold = Free | Shared inode | Exclusive inode

definition same_locks :: "server \<Rightarrow> server \<Rightarrow> bool" where
  "same_locks s s' \<longleftrightarrow> writer s' = writer s \<and> readers s' = readers s"

text \<open>The effects an action may have, with the lock held before and after.\<close>

inductive allowed :: "tid \<Rightarrow> hold \<Rightarrow> server \<Rightarrow> hold \<Rightarrow> server \<Rightarrow> bool" for t where
  quiet: "same_locks s s' \<Longrightarrow> contents s' = contents s \<Longrightarrow> names s' = names s \<Longrightarrow> allowed t h s h s'"
| truncate: "same_locks s s' \<Longrightarrow> contents s' = (contents s)(i := []) \<Longrightarrow>
    names s' = names s \<or> names s f = None \<and> names s' = (names s)(f \<mapsto> i) \<Longrightarrow> allowed t Free s Free s'"
| get_ex: "lock_ex t i s = Some s' \<Longrightarrow> allowed t Free s (Exclusive i) s'"
| get_sh: "lock_sh t i s = Some s' \<Longrightarrow> allowed t Free s (Shared i) s'"
| write_ex: "same_locks s s' \<Longrightarrow> contents s' = (contents s)(i := bs) \<Longrightarrow> names s' = names s \<Longrightarrow>
    allowed t (Exclusive i) s (Exclusive i) s'"
| unlink_ex: "same_locks s s' \<Longrightarrow> contents s' = contents s \<Longrightarrow> names s' = (names s)(f := None) \<Longrightarrow>
    allowed t (Exclusive i) s (Exclusive i) s'"
| release_ex: "allowed t (Exclusive i) s Free (unlock t i s)"
| release_sh: "allowed t (Shared i) s Free (unlock t i s)"

text \<open>A program keeps to the discipline, on any state of the process of which the server is a part \<open>v\<close>.\<close>

inductive disciplined_via :: "('s \<Rightarrow> server) \<Rightarrow> tid \<Rightarrow> hold \<Rightarrow> 's prog \<Rightarrow> bool" for v t where
  d_close: "disciplined_via v t Free Close"
| d_send: "disciplined_via v t h p \<Longrightarrow> disciplined_via v t h (Send m p)"
| d_recv: "(\<And>b. disciplined_via v t h (k b)) \<Longrightarrow> disciplined_via v t h (Recv n k)"
| d_act: "(\<And>s s' p. f s = Some (s', p) \<Longrightarrow> \<exists>h'. allowed t h (v s) h' (v s') \<and> disciplined_via v t h' p) \<Longrightarrow>
          disciplined_via v t h (Act f)"

inductive_cases disciplined_SendE: "disciplined_via v t h (Send m p)"
inductive_cases disciplined_RecvE: "disciplined_via v t h (Recv n k)"
inductive_cases disciplined_ActE: "disciplined_via v t h (Act f)"

abbreviation disciplined :: "tid \<Rightarrow> hold \<Rightarrow> server prog \<Rightarrow> bool" where
  "disciplined \<equiv> disciplined_via (\<lambda>s. s)"

lemma disciplined_ActD:
  "disciplined_via v t h (Act f) \<Longrightarrow> f s = Some (s', p) \<Longrightarrow> \<exists>h'. allowed t h (v s) h' (v s') \<and> disciplined_via v t h' p"
  by (auto elim!: disciplined_ActE)

lemma d_act1: "(\<And>s. allowed t h s h' (f s)) \<Longrightarrow> disciplined t h' p \<Longrightarrow> disciplined t h (act f p)"
  unfolding act_def by (rule d_act) auto

lemma d_query: "(\<And>s. disciplined t h (f s)) \<Longrightarrow> disciplined t h (query f)"
  unfolding query_def by (rule d_act) (auto intro!: exI [of _ h] allowed.quiet simp: same_locks_def)

lemma d_stay: "disciplined t h p \<Longrightarrow> \<exists>h'. allowed t h s h' s \<and> disciplined t h' p"
  by (auto intro!: exI [of _ h] allowed.quiet simp: same_locks_def)

lemma d_reply: "disciplined t Free (Send m Close)"
  by (intro disciplined_via.intros)

lemma d_unlock:
  "disciplined t Free p \<Longrightarrow> disciplined t (Exclusive i) (act (unlock t i) p)"
  "disciplined t Free p \<Longrightarrow> disciplined t (Shared i) (act (unlock t i) p)"
  by (rule d_act1, rule allowed.intros, assumption)+

lemma d_lock:
  "disciplined t (Exclusive i) p \<Longrightarrow> disciplined t Free (with_lock_ex t f i p)"
  "disciplined t (Shared i) p \<Longrightarrow> disciplined t Free (with_lock_sh t f i p)"
  unfolding with_lock_ex_def with_lock_sh_def
  by (rule d_act; auto split: if_splits intro: get_ex get_sh d_stay d_reply)+

lemma d_receive: "disciplined t (Exclusive i) (receive_file t i)"
proof -
  have "disciplined t (Exclusive i) (save_data t i b)" for b
    unfolding save_data_def
    by (rule d_act) (auto simp: write_start_def Let_def same_locks_def
        intro!: exI [of _ "Exclusive i"] allowed.write_ex d_unlock d_reply)
  then show ?thesis
    unfolding receive_file_def by (intro d_recv) (auto intro: d_unlock d_reply)
qed

lemma d_open: "disciplined t Free (open_and_receive t f)"
proof -
  have "allowed t Free s Free s'" if "open_trunc s f = Some (i, s')" for s i s'
    using that by (auto simp: open_trunc_def Let_def same_locks_def intro!: allowed.truncate [of _ _ i f]
        split: option.splits if_splits)
  then show ?thesis
    unfolding open_and_receive_def
    by (intro d_act) (auto split: option.splits intro: d_stay d_reply d_lock d_receive)
qed

lemma d_handle_write: "disciplined t Free (handle_write t r pm)"
proof -
  have wc: "disciplined t Free (write_checked t r p)" for p
    unfolding write_checked_def by (auto intro: d_send d_close d_open)
  have "disciplined t Free (set_and_check t r pm)"
    unfolding set_and_check_def
    by (rule d_act1 [of _ _ Free]) (auto intro: allowed.quiet d_query wc simp: same_locks_def)
  with wc show ?thesis unfolding handle_write_def by (intro d_query) (simp add: Let_def)
qed

lemma d_handle_get: "disciplined t Free (handle_get t r)"
proof -
  have "disciplined t (Shared i) (send_back t i)" for i
    unfolding send_back_def Let_def by (intro d_query d_unlock d_send) (auto intro: d_send d_close)
  then show ?thesis
    unfolding handle_get_def Let_def by (intro d_query) (auto split: option.splits intro: d_reply d_lock)
qed

lemma d_handle_rm: "disciplined t Free (handle_rm t r)"
proof -
  have "allowed t (Exclusive i) s (Exclusive i) s'" if "remove_name f s = (ok, s')" for f i s ok s'
    using that by (auto simp: remove_name_def same_locks_def split: if_splits
        intro: allowed.quiet allowed.unlink_ex [of _ _ f])
  then have "disciplined t (Exclusive i) (remove_file t f i)" for f i
    unfolding remove_file_def by (rule_tac d_act) (auto split: prod.splits intro!: exI [of _ "Exclusive i"] d_unlock d_reply)
  then show ?thesis
    unfolding handle_rm_def Let_def
    by (intro d_query) (auto split: option.splits intro!: d_reply d_query d_lock)
qed

lemma d_run_command: "disciplined t Free (run_command t cmd arg1 arg2 arg3)"
  unfolding run_command_def Let_def
  by (auto split: list.splits option.splits bool.splits
      intro: d_close d_reply d_handle_write d_handle_get d_handle_rm)

lemma d_client_thread: "disciplined t Free (client_thread t)"
  unfolding client_thread_def dispatch_def Let_def by (intro d_recv) (auto intro: d_close d_run_command)

section \<open>What a point of a program needs\<close>

text \<open>The points at which a thread is about to write the file it has received, or is receiving it, or is
  about to remove a name, and the point at which it is about to read the file.\<close>

definition at_change :: "tid \<Rightarrow> inode \<Rightarrow> server prog \<Rightarrow> bool" where
  "at_change t i p \<longleftrightarrow> p = receive_file t i \<or> (\<exists>buf. buf \<noteq> [] \<and> p = save_data t i buf) \<or> (\<exists>f. p = remove_file t f i)"

definition at_read :: "tid \<Rightarrow> inode \<Rightarrow> server prog \<Rightarrow> bool" where
  "at_read t i p \<longleftrightarrow> p = send_back t i"

definition unlocked :: "server \<Rightarrow> server" where
  "unlocked s = s\<lparr>writer := (\<lambda>_. None), readers := (\<lambda>_. {})\<rparr>"

lemma unlocked_simps [simp]:
  "writer (unlocked s) i = None" "readers (unlocked s) i = {}" "contents (unlocked s) = contents s"
  "names (unlocked s) = names s" "can_remove (unlocked s) = can_remove s" "free_space (unlocked s) = free_space s"
  by (simp_all add: unlocked_def)

lemma lock_changes:
  "lock_ex t i s = Some s' \<Longrightarrow> writer s' i \<noteq> writer s i"
  "lock_sh t i s = Some s' \<Longrightarrow> t \<in> readers s' i"
  "lock_ex t i s = Some s' \<Longrightarrow> names s' = names s" "lock_sh t i s = Some s' \<Longrightarrow> names s' = names s"
  "lock_ex t i s = Some s' \<Longrightarrow> contents s' = contents s" "lock_sh t i s = Some s' \<Longrightarrow> contents s' = contents s"
  "names (unlock t i s) = names s" "contents (unlock t i s) = contents s"
  by (auto simp: lock_ex_def lock_sh_def unlock_def split: if_splits)

text \<open>Giving a lock back needs the lock.\<close>

lemma needs_unlock:
  assumes "disciplined t h (act (unlock t i) p)"
  shows "h = Exclusive i \<or> h = Shared i"
proof -
  let ?s = "\<lambda>s :: server. unlocked s\<lparr>readers := (\<lambda>_. {})(i := {t})\<rparr>"
  fix s :: server
  obtain h' where al: "allowed t h (?s s) h' (unlock t i (?s s))"
    using disciplined_ActD [OF assms [unfolded act_def] HOL.refl] by blast
  have r: "readers (unlock t i (?s s)) i = {}" "writer (unlock t i (?s s)) k = writer (?s s) k"
    "readers (unlock t k (?s s)) i = (if k = i then {} else {t})" for k
    by (simp_all add: unlock_def)
  from al show ?thesis
  proof cases
    case (get_ex k)
    then show ?thesis using lock_changes(1) r(2) by blast
  next
    case (get_sh k)
    from lock_changes(2) [OF get_sh(3)] have "t \<in> readers (unlock t i (?s s)) k" .
    then show ?thesis by (auto simp: unlock_def split: if_splits)
  next
    case (release_ex k)
    then have "k = i" using r(1) r(3) [of k] by (metis insert_not_empty)
    with release_ex show ?thesis by simp
  next
    case (release_sh k)
    then have "k = i" using r(1) r(3) [of k] by (metis insert_not_empty)
    with release_sh show ?thesis by simp
  qed (use r(1) in \<open>auto simp: same_locks_def\<close>)
qed

text \<open>An action that changes nothing while nobody holds a lock leaves the thread with what it held, or with
  no lock.\<close>

lemma needs_same:
  assumes "disciplined t h (Act f)" and "f (unlocked s) = Some (unlocked s, p)"
  shows "disciplined t h p \<or> disciplined t Free p"
proof -
  obtain h' where "allowed t h (unlocked s) h' (unlocked s)" and p: "disciplined t h' p"
    using disciplined_ActD [OF assms] by blast
  then have "h' = h \<or> h' = Free"
  proof cases
    case (get_ex k)
    then show ?thesis using lock_changes(1) by blast
  next
    case (get_sh k)
    then show ?thesis using lock_changes(2) by force
  qed simp_all
  with p show ?thesis by blast
qed

lemma needs_save:
  assumes "disciplined t h (save_data t i buf)" and "buf \<noteq> []"
  shows "h = Exclusive i"
proof -
  fix s0 :: server
  let ?s = "unlocked s0\<lparr>contents := (\<lambda>_. []), free_space := (\<lambda>_. 1)\<rparr>"
  let ?s' = "?s\<lparr>contents := (\<lambda>_. [])(i := [hd buf])\<rparr>"
  have "write_start i buf ?s = (1, ?s')"
    using assms(2) by (cases buf) (simp_all add: write_start_def Let_def)
  then obtain h' where "allowed t h ?s h' ?s'"
    using disciplined_ActD [OF assms(1) [unfolded save_data_def], of ?s] by auto
  then show ?thesis
  proof cases
    case (write_ex k bs)
    have "contents ?s' i = ((\<lambda>_. [])(k := bs)) i" using write_ex(4) by simp
    then show ?thesis using write_ex(1) by (simp split: if_splits)
  next
    case (get_ex k)
    from lock_changes(5) [OF get_ex(3)] have "contents ?s' i = contents ?s i" by simp
    then show ?thesis by simp
  next
    case (get_sh k)
    from lock_changes(6) [OF get_sh(3)] have "contents ?s' i = contents ?s i" by simp
    then show ?thesis by simp
  next
    case (truncate k f)
    have "contents ?s' i = ((\<lambda>_. [])(k := [])) i" using truncate(4) by simp
    then show ?thesis by simp
  next
    case (release_ex k)
    have "contents ?s' i = contents ?s i" using release_ex(3) lock_changes(8) by metis
    then show ?thesis by simp
  next
    case (release_sh k)
    have "contents ?s' i = contents ?s i" using release_sh(3) lock_changes(8) by metis
    then show ?thesis by simp
  qed (auto simp: fun_eq_iff split: if_splits dest: spec [of _ i])
qed

lemma needs_receive: "disciplined t h (receive_file t i) \<Longrightarrow> h = Exclusive i"
  unfolding receive_file_def using needs_save [of t h i "[NUL]"] by (auto elim!: disciplined_RecvE dest: spec [of _ "[NUL]"])

lemma needs_read:
  assumes "disciplined t h (send_back t i)"
  shows "h = Exclusive i \<or> h = Shared i"
proof -
  fix s :: server
  let ?p = "act (unlock t i) (Send ''OK_SENDING_FILE'' (if read_start i (unlocked s) \<noteq> [] then Send (read_start i (unlocked s)) Close else Close))"
  have "disciplined t h ?p \<or> disciplined t Free ?p"
    using assms unfolding send_back_def query_def by (rule needs_same) (simp add: Let_def)
  then show ?thesis using needs_unlock by blast
qed

lemma needs_remove:
  assumes "disciplined t h (remove_file t f i)"
  shows "h = Exclusive i"
proof -
  fix s0 :: server
  let ?s = "unlocked s0\<lparr>names := (\<lambda>_. None)(f \<mapsto> 0), can_remove := (\<lambda>_. True)\<rparr>"
  let ?s' = "?s\<lparr>names := (\<lambda>_. None)\<rparr>"
  have "remove_name f ?s = (True, ?s')" by (simp add: remove_name_def)
  then obtain h' where al: "allowed t h ?s h' ?s'" and p: "disciplined t h' (act (unlock t i) (Send ''RM_OK'' Close))"
    using disciplined_ActD [OF assms [unfolded remove_file_def], of ?s] by auto
  have ne: "names ?s' \<noteq> names ?s" by (simp add: fun_eq_iff)
  have "\<exists>k. h = Exclusive k \<and> h' = h"
    using al
  proof cases
    case (truncate k g)
    then show ?thesis using ne by (auto simp: fun_eq_iff split: if_splits dest: spec [of _ f])
  next
    case (release_ex k)
    then show ?thesis using lock_changes(7) ne by metis
  next
    case (release_sh k)
    then show ?thesis using lock_changes(7) ne by metis
  qed (use ne lock_changes(3,4) in \<open>auto simp del: server.simps\<close>)
  with needs_unlock [OF p] show ?thesis by auto
qed

lemma needs_change: "disciplined t h p \<Longrightarrow> at_change t i p \<Longrightarrow> h = Exclusive i"
  unfolding at_change_def using needs_receive needs_save needs_remove by blast

section \<open>The locks of the running server\<close>

definition lock_state :: "server \<Rightarrow> (tid \<Rightarrow> hold) \<Rightarrow> bool" where
  "lock_state s hs \<longleftrightarrow> (\<forall>i t. writer s i = Some t \<longleftrightarrow> hs t = Exclusive i)
     \<and> (\<forall>i t. t \<in> readers s i \<longleftrightarrow> hs t = Shared i)
     \<and> (\<forall>i. writer s i \<noteq> None \<longrightarrow> readers s i = {})"

definition lock_inv_via :: "('s \<Rightarrow> server) \<Rightarrow> 's net \<Rightarrow> bool" where
  "lock_inv_via v c \<longleftrightarrow> (\<exists>hs. lock_state (v (srv c)) hs \<and> (\<forall>t. disciplined_via v t (hs t) (thread c t)))"

abbreviation lock_inv :: "network \<Rightarrow> bool" where
  "lock_inv \<equiv> lock_inv_via (\<lambda>s. s)"

lemmas lock_inv_def = lock_inv_via_def [of "\<lambda>s. s"]

lemma lock_state_same: "same_locks s s' \<Longrightarrow> lock_state s hs \<Longrightarrow> lock_state s' hs"
  by (simp add: same_locks_def lock_state_def)

lemma lock_stateD:
  assumes "lock_state s hs"
  shows "writer s i = Some t \<longleftrightarrow> hs t = Exclusive i" and "t \<in> readers s i \<longleftrightarrow> hs t = Shared i"
    and "writer s i \<noteq> None \<Longrightarrow> readers s i = {}"
  using assms unfolding lock_state_def by blast+

lemma lock_state_acquire_ex:
  assumes "lock_state s hs" and "hs t = Free" and "lock_ex t i s = Some s'"
  shows "lock_state s' (hs(t := Exclusive i))"
proof -
  have free: "writer s i = None" "readers s i = {}" "s' = s\<lparr>writer := (writer s)(i := Some t)\<rparr>"
    using assms(3) by (auto simp: lock_ex_def split: if_splits)
  have "hs u \<noteq> Exclusive i" "hs u \<noteq> Shared i" for u
    using lock_stateD(1) [OF assms(1), of i u] lock_stateD(2) [OF assms(1), of u i] free(1,2) by simp_all
  with assms(1,2) free show ?thesis by (auto simp: lock_state_def)
qed

lemma lock_state_acquire_sh:
  assumes "lock_state s hs" and "hs t = Free" and "lock_sh t i s = Some s'"
  shows "lock_state s' (hs(t := Shared i))"
proof -
  have free: "writer s i = None" "s' = s\<lparr>readers := (readers s)(i := insert t (readers s i))\<rparr>"
    using assms(3) by (auto simp: lock_sh_def split: if_splits)
  have "hs u \<noteq> Exclusive i" for u
    using lock_stateD(1) [OF assms(1), of i u] free(1) by simp
  with assms(1,2) free show ?thesis by (auto simp: lock_state_def)
qed

lemma lock_state_release_ex:
  assumes "lock_state s hs" and "hs t = Exclusive i"
  shows "lock_state (unlock t i s) (hs(t := Free))"
proof -
  note w = lock_stateD(1) [OF assms(1)] and r = lock_stateD(2) [OF assms(1)] and wr = lock_stateD(3) [OF assms(1)]
  have wi: "writer s i = Some t" using w assms(2) by simp
  have s': "writer (unlock t i s) j = (if j = i then None else writer s j)" "readers (unlock t i s) j = readers s j" for j
    using wi wr [of i] by (auto simp: unlock_def)
  have "writer (unlock t i s) j = Some u \<longleftrightarrow> (hs(t := Free)) u = Exclusive j" for j u
    using w [of j u] w [of i u] w [of j t] wi assms(2) by (cases "u = t"; cases "j = i") (simp_all add: s')
  moreover have "u \<in> readers (unlock t i s) j \<longleftrightarrow> (hs(t := Free)) u = Shared j" for j u
    using r [of u j] assms(2) by (cases "u = t") (simp_all add: s')
  moreover have "readers (unlock t i s) j = {}" if "writer (unlock t i s) j \<noteq> None" for j
    using wr [of j] that by (simp add: s' split: if_splits)
  ultimately show ?thesis unfolding lock_state_def by blast
qed

lemma lock_state_release_sh:
  assumes "lock_state s hs" and "hs t = Shared i"
  shows "lock_state (unlock t i s) (hs(t := Free))"
proof -
  note w = lock_stateD(1) [OF assms(1)] and r = lock_stateD(2) [OF assms(1)] and wr = lock_stateD(3) [OF assms(1)]
  have wi: "writer s i = None" using r [of t i] assms(2) wr [of i] by blast
  have s': "writer (unlock t i s) j = writer s j"
    "readers (unlock t i s) j = (if j = i then readers s i - {t} else readers s j)" for j
    using wi by (simp_all add: unlock_def)
  have "writer (unlock t i s) j = Some u \<longleftrightarrow> (hs(t := Free)) u = Exclusive j" for j u
    using w [of j u] assms(2) by (cases "u = t") (simp_all add: s')
  moreover have "u \<in> readers (unlock t i s) j \<longleftrightarrow> (hs(t := Free)) u = Shared j" for j u
    using r [of u j] r [of t j] assms(2) by (cases "u = t"; cases "j = i") (simp_all add: s')
  moreover have "readers (unlock t i s) j = {}" if "writer (unlock t i s) j \<noteq> None" for j
    using wr [of j] that by (cases "j = i") (simp_all add: s')
  ultimately show ?thesis unfolding lock_state_def by blast
qed

lemma lock_state_allowed:
  assumes "allowed t h s h' s'" and "lock_state s hs" and "hs t = h"
  shows "lock_state s' (hs(t := h'))"
  using assms(1)
proof cases
  case quiet
  then show ?thesis using assms(2,3) lock_state_same by (metis fun_upd_triv)
next
  case (truncate i)
  then show ?thesis using assms(2,3) lock_state_same by (metis fun_upd_triv)
next
  case (write_ex i)
  then show ?thesis using assms(2,3) lock_state_same by (metis fun_upd_triv)
next
  case (unlink_ex f i)
  then show ?thesis using assms(2,3) lock_state_same by (metis fun_upd_triv)
qed (use assms(2,3) lock_state_acquire_ex lock_state_acquire_sh lock_state_release_ex lock_state_release_sh
     in \<open>simp_all\<close>)

lemma lock_inv_srv:
  assumes "lock_inv_via v c" and "srv_step c t = Some c'"
  shows "\<exists>hs h'. lock_state (v (srv c)) hs \<and> (srv c' = srv c \<or> allowed t (hs t) (v (srv c)) h' (v (srv c'))) \<and> lock_inv_via v c'"
proof -
  obtain hs where hs: "lock_state (v (srv c)) hs" "\<And>t. disciplined_via v t (hs t) (thread c t)"
    using assms(1) by (auto simp: lock_inv_via_def)
  show ?thesis
  proof (cases "thread c t")
    case Close
    with assms(2) show ?thesis by (simp add: srv_step_def)
  next
    case (Send m p)
    then have c': "c' = c\<lparr>thread := (thread c)(t := p), to_cli := (to_cli c)(t := to_cli c t @ m)\<rparr>"
      using assms(2) by (simp add: srv_step_def)
    have "disciplined_via v t (hs t) p" using hs(2) [of t] Send by (auto elim: disciplined_SendE)
    with hs c' have "lock_inv_via v c'" by (auto simp: lock_inv_via_def intro!: exI [of _ hs])
    with hs(1) c' show ?thesis by auto
  next
    case (Recv n k)
    then have "disciplined_via v t (hs t) (k b)" for b using hs(2) [of t] by (auto elim: disciplined_RecvE)
    moreover obtain b where "thread c' = (thread c)(t := k b)" "srv c' = srv c"
      using assms(2) Recv by (auto simp: srv_step_def split: if_splits prog.splits)
    ultimately have "lock_inv_via v c'" using hs by (auto simp: lock_inv_via_def intro!: exI [of _ hs])
    with hs(1) \<open>srv c' = srv c\<close> show ?thesis by auto
  next
    case (Act f)
    then obtain s' p where f: "f (srv c) = Some (s', p)" and c': "c' = c\<lparr>srv := s', thread := (thread c)(t := p)\<rparr>"
      using assms(2) by (auto simp: srv_step_def)
    then obtain h' where h': "allowed t (hs t) (v (srv c)) h' (v s')" "disciplined_via v t h' p"
      using hs(2) [of t] Act disciplined_ActD by metis
    have "lock_state (v s') (hs(t := h'))" using lock_state_allowed [OF h'(1) hs(1)] by simp
    then have "lock_inv_via v c'" using hs(2) h'(2) c' by (auto simp: lock_inv_via_def intro!: exI [of _ "hs(t := h')"])
    with hs(1) h'(1) c' show ?thesis by auto
  qed
qed

lemma cli_step_srv: "cli_step c t = Some c' \<Longrightarrow> srv c' = srv c \<and> thread c' = thread c"
  by (auto simp: cli_step_def split: prog.splits if_splits)

lemma lock_inv_step: "step c c' \<Longrightarrow> lock_inv_via v c \<Longrightarrow> lock_inv_via v c'"
  by (erule stepE) (use lock_inv_srv in blast, metis cli_step_srv lock_inv_via_def)

lemma lock_inv_reachable: "reachable c0 c \<Longrightarrow> lock_inv_via v c0 \<Longrightarrow> lock_inv_via v c"
  by (induction rule: reachable.induct) (auto intro: lock_inv_step)

definition no_locks :: "server \<Rightarrow> bool" where
  "no_locks s \<longleftrightarrow> (\<forall>i. writer s i = None \<and> readers s i = {})"

lemma lock_inv_connect: "no_locks s \<Longrightarrow> lock_inv (connect s args cs)"
  unfolding lock_inv_def connect_def no_locks_def lock_state_def
  by (intro exI [of _ "\<lambda>_. Free"]) (simp add: d_client_thread)

text \<open>Who may change a file.\<close>

lemma change_needs_lock:
  assumes "lock_inv c" and "step c c'" and "contents (srv c') i \<noteq> contents (srv c) i" and "contents (srv c') i \<noteq> []"
  shows "\<exists>t. srv_step c t = Some c' \<and> writer (srv c) i = Some t \<and> readers (srv c) i = {}"
  using assms(2)
proof (rule stepE)
  fix t
  assume st: "srv_step c t = Some c'"
  obtain hs h' where hs: "lock_state (srv c) hs" "srv c' = srv c \<or> allowed t (hs t) (srv c) h' (srv c')"
    using lock_inv_srv [OF assms(1) st] by blast
  with assms(3) have al: "allowed t (hs t) (srv c) h' (srv c')" by auto
  have "hs t = Exclusive i"
    using al assms(3,4)
    by cases (auto simp: lock_ex_def lock_sh_def unlock_def fun_upd_def split: if_splits dest!: sym [of _ "srv c'"])
  with hs(1) st show ?thesis by (fastforce simp: lock_state_def)
next
  fix t
  assume "cli_step c t = Some c'"
  with assms(3) show ?thesis by (auto dest: cli_step_srv)
qed

end
