(* ===== verification/Rfs_Table.thy ===== *)
theory Rfs_Table
  imports Rfs_Server
begin

text \<open>
  The permission table: what it stores is a finite map in which the first setting of a path wins, with
  room for a hundred paths of at most 255 characters.
\<close>

definition wf_table :: "table \<Rightarrow> bool" where
  "wf_table tb \<longleftrightarrow> length (g_files tb) = 100 \<and> (\<forall>e \<in> set (g_files tb). length (filename e) = 256)
     \<and> 0 \<le> g_file_count tb \<and> g_file_count tb \<le> MAX_FILES"

text \<open>The map the table stands for.\<close>

definition known :: "table \<Rightarrow> string \<Rightarrow> permission_t option" where
  "known tb path = find_entry (entries tb) path"

lemma get_known: "get_file_permission tb path = (case known tb path of Some p \<Rightarrow> p | None \<Rightarrow> READ_WRITE)"
  by (simp add: get_file_permission_def known_def)

lemma find_entry_snoc:
  "find_entry (es @ [e]) path =
     (case find_entry es path of Some p \<Rightarrow> Some p | None \<Rightarrow> if cstr (filename e) = path then Some (perm e) else None)"
  by (induction es) auto

lemma wf_empty_table [simp]: "wf_table empty_table"
  by (simp add: wf_table_def empty_table_def MAX_FILES_def)

lemma known_empty [simp]: "known empty_table path = None"
  by (simp add: known_def entries_def empty_table_def)

lemma set_known: "known tb path \<noteq> None \<Longrightarrow> set_file_permission tb path p = tb"
  by (auto simp: set_file_permission_def known_def)

lemma set_full: "MAX_FILES \<le> g_file_count tb \<Longrightarrow> set_file_permission tb path p = tb"
  by (auto simp: set_file_permission_def split: option.splits)

text \<open>Setting the default changes no answer.\<close>

lemma set_default: "get_file_permission (set_file_permission tb r READ_WRITE) q = get_file_permission tb q"
proof (cases "find_entry (entries tb) r = None \<and> 0 \<le> g_file_count tb \<and> g_file_count tb < MAX_FILES")
  case True
  let ?n = "nat (g_file_count tb)"
  let ?e = "(g_files tb) ! ?n"
  let ?e' = "?e\<lparr>filename := (strncpy (filename ?e) r 255)[255 := NUL], perm := READ_WRITE\<rparr>"
  have "nat (g_file_count tb + 1) = Suc ?n" using True by linarith
  then have "entries (set_file_permission tb r READ_WRITE) = take (Suc ?n) ((g_files tb)[?n := ?e'])"
    using True by (simp add: set_file_permission_def entries_def Let_def)
  also have "\<dots> = entries tb @ (if ?n < length (g_files tb) then [?e'] else [])"
    by (cases "?n < length (g_files tb)") (simp_all add: entries_def take_Suc_conv_app_nth list_update_beyond)
  finally show ?thesis by (simp add: get_file_permission_def find_entry_snoc split: option.splits)
next
  case False
  then show ?thesis
    by (auto simp: set_file_permission_def get_file_permission_def entries_def Let_def split: option.splits)
qed

lemma set_new:
  assumes "wf_table tb" and "known tb path = None" and "g_file_count tb < MAX_FILES" and "no_nul path"
  shows "wf_table (set_file_permission tb path p)"
    and "known (set_file_permission tb path p) q =
      (case known tb q of Some r \<Rightarrow> Some r | None \<Rightarrow> if q = take 255 path then Some p else None)"
    and "g_file_count (set_file_permission tb path p) = g_file_count tb + 1"
proof -
  let ?n = "nat (g_file_count tb)"
  let ?e = "(g_files tb) ! ?n"
  let ?e' = "?e\<lparr>filename := (strncpy (filename ?e) path 255)[255 := NUL], perm := p\<rparr>"
  have n: "?n < 100" and wf: "length (g_files tb) = 100" "\<forall>e \<in> set (g_files tb). length (filename e) = 256"
    and c: "0 \<le> g_file_count tb"
    using assms(1,3) by (auto simp: wf_table_def MAX_FILES_def)
  have tb': "set_file_permission tb path p = tb\<lparr>g_files := (g_files tb)[?n := ?e'], g_file_count := g_file_count tb + 1\<rparr>"
    using assms(2,3) by (simp add: set_file_permission_def known_def Let_def)
  have len: "length (filename ?e) = 256" using wf n by simp
  have "nat (g_file_count tb + 1) = Suc ?n" using c by simp
  then have "entries (set_file_permission tb path p) = take (Suc ?n) ((g_files tb)[?n := ?e'])"
    by (simp add: tb' entries_def)
  also have "\<dots> = entries tb @ [?e']"
    using n wf(1) by (simp add: entries_def take_Suc_conv_app_nth)
  finally have e: "entries (set_file_permission tb path p) = entries tb @ [?e']" .
  have "cstr ((strncpy (filename ?e) path 255)[255 := NUL]) = take 255 path"
    using cstr_strncpy_terminated [of path "filename ?e" 255] assms(4) len by simp
  then show "known (set_file_permission tb path p) q =
      (case known tb q of Some r \<Rightarrow> Some r | None \<Rightarrow> if q = take 255 path then Some p else None)"
    unfolding known_def e find_entry_snoc by (auto split: option.splits)
  show "wf_table (set_file_permission tb path p)"
    using wf n len c assms(3) unfolding tb'
    by (auto simp: wf_table_def MAX_FILES_def dest!: set_update_subset_insert [THEN subsetD])
  show "g_file_count (set_file_permission tb path p) = g_file_count tb + 1" by (simp add: tb')
qed

lemma wf_set: "wf_table tb \<Longrightarrow> no_nul path \<Longrightarrow> wf_table (set_file_permission tb path p)"
  by (cases "known tb path = None \<and> g_file_count tb < MAX_FILES") (auto simp: set_new set_known set_full)

text \<open>A path that is known keeps its permission.\<close>

lemma known_sticky: "wf_table tb \<Longrightarrow> no_nul path \<Longrightarrow> known tb q = Some r \<Longrightarrow> known (set_file_permission tb path p) q = Some r"
  by (cases "known tb path = None \<and> g_file_count tb < MAX_FILES") (auto simp: set_new set_known set_full)

end
