(* ===== verification/Rfs_Session.thy ===== *)
theory Rfs_Session
  imports Rfs_Locks Rfs_Table
begin

text \<open>
  One connection of the running system: its view of the network, the steps of its two ends as
  functions on the view, their symbolic evaluation on the parts of the programs of server and client, and
  the argument by which a set of views that is closed under both steps decides every interleaving.
\<close>

section \<open>The view of a connection\<close>

type_synonym view = "server \<times> server prog \<times> client prog \<times> client \<times> char list \<times> char list"

definition view_of :: "tid \<Rightarrow> network \<Rightarrow> view" where
  "view_of t c = (srv c, thread c t, peer c t, machine c t, to_srv c t, to_cli c t)"

definition is_closed :: "'s prog \<Rightarrow> bool" where
  "is_closed p \<longleftrightarrow> (case p of Close \<Rightarrow> True | _ \<Rightarrow> False)"

definition sstep :: "view \<Rightarrow> view option" where
  "sstep v = (case v of (s, p, q, m, a, b) \<Rightarrow>
     (case p of
        Close \<Rightarrow> None
      | Send x p \<Rightarrow> Some (s, p, q, m, a, b @ x)
      | Recv n k \<Rightarrow>
          (if a \<noteq> [] then Some (s, k (take n a), q, m, drop n a, b)
           else if is_closed q then Some (s, k [], q, m, a, b) else None)
      | Act f \<Rightarrow> map_option (\<lambda>(s, p). (s, p, q, m, a, b)) (f s)))"

definition cstep :: "view \<Rightarrow> view option" where
  "cstep v = (case v of (s, p, q, m, a, b) \<Rightarrow>
     (case q of
        Close \<Rightarrow> None
      | Send x q \<Rightarrow> Some (s, p, q, m, a @ x, b)
      | Recv n k \<Rightarrow>
          (if b \<noteq> [] then Some (s, p, k (take n b), m, a, drop n b)
           else if is_closed p then Some (s, p, k [], m, a, b) else None)
      | Act f \<Rightarrow> map_option (\<lambda>(m, q). (s, p, q, m, a, b)) (f m)))"

lemma view_srv_step: "map_option (view_of t) (srv_step c t) = sstep (view_of t c)"
  by (auto simp: srv_step_def sstep_def view_of_def is_closed_def option.map_comp comp_def split_def
      split: prog.splits intro!: option.map_cong)

lemma view_cli_step: "map_option (view_of t) (cli_step c t) = cstep (view_of t c)"
  by (auto simp: cli_step_def cstep_def view_of_def is_closed_def option.map_comp comp_def split_def
      split: prog.splits intro!: option.map_cong)

section \<open>Symbolic evaluation\<close>

lemma is_closed_simps [simp]:
  "is_closed Close" "\<not> is_closed (Send x p)" "\<not> is_closed (Recv n k)" "\<not> is_closed (Act f)"
  "\<not> is_closed (act g p)" "\<not> is_closed (query h)" "\<not> is_closed (say w q)" "\<not> is_closed (finish e)"
  "\<not> is_closed final_reply" "\<not> is_closed (ready_reply lf)" "\<not> is_closed (save_file lf)" "\<not> is_closed (get_reply lf)" "\<not> is_closed rm_reply"
  by (simp_all add: is_closed_def act_def query_def say_def finish_def final_reply_def ready_reply_def
      save_file_def get_reply_def rm_reply_def)

lemma is_closed_threads [simp]:
  "\<not> is_closed (client_thread t)" "\<not> is_closed (handle_write t r pm)" "\<not> is_closed (set_and_check t r pm)"
  "\<not> is_closed (open_and_receive t f)" "\<not> is_closed (with_lock_ex t f i p)" "\<not> is_closed (with_lock_sh t f i p)"
  "\<not> is_closed (receive_file t i)" "\<not> is_closed (save_data t i x)" "\<not> is_closed (handle_get t r)"
  "\<not> is_closed (send_back t i)" "\<not> is_closed (handle_rm t r)" "\<not> is_closed (remove_file t f i)"
  by (simp_all add: is_closed_def client_thread_def handle_write_def set_and_check_def open_and_receive_def
      with_lock_ex_def with_lock_sh_def receive_file_def save_data_def handle_get_def send_back_def handle_rm_def
      remove_file_def act_def query_def Let_def)

lemma sstep_simps [simp]:
  "sstep (s, Close, q, m, a, b) = None"
  "sstep (s, Send x p, q, m, a, b) = Some (s, p, q, m, a, b @ x)"
  "sstep (s, act g p, q, m, a, b) = Some (g s, p, q, m, a, b)"
  "sstep (s, query h, q, m, a, b) = Some (s, h s, q, m, a, b)"
  by (simp_all add: sstep_def act_def query_def)

lemma cstep_simps [simp]:
  "cstep (s, p, Close, m, a, b) = None"
  "cstep (s, p, Send x q, m, a, b) = Some (s, p, q, m, a @ x, b)"
  "cstep (s, p, query h, m, a, b) = Some (s, p, h m, m, a, b)"
  "cstep (s, p, act g q, m, a, b) = Some (s, p, q, g m, a, b)"
  "cstep (s, p, say w q, m, a, b) = Some (s, p, q, m\<lparr>printed := printed m @ [w]\<rparr>, a, b)"
  "cstep (s, p, finish e, m, a, b) = Some (s, p, Close, m\<lparr>status := Some e\<rparr>, a, b)"
  by (simp_all add: cstep_def act_def query_def say_def finish_def)

text \<open>The handlers of the server.\<close>

lemma sstep_client_thread [simp]:
  "sstep (s, client_thread t, q, m, a, b) =
     (if a \<noteq> [] then Some (s, dispatch t (cstr (take 1023 a)), q, m, drop 1023 a, b)
      else if is_closed q then Some (s, Close, q, m, a, b) else None)"
  by (simp add: sstep_def client_thread_def BUF_SIZE_def)

lemma sstep_write [simp]:
  "sstep (s, handle_write t r pm, q, m, a, b) =
     Some (s, if get_file_permission (tab s) r = READ_WRITE then set_and_check t r pm else write_checked t r READ_ONLY, q, m, a, b)"
  "sstep (s, set_and_check t r pm, q, m, a, b) =
     Some (s\<lparr>tab := set_file_permission (tab s) r (parse_perm pm)\<rparr>,
       query (\<lambda>s. write_checked t r (get_file_permission (tab s) r)), q, m, a, b)"
  "sstep (s, open_and_receive t f, q, m, a, b) =
     (case open_trunc s f of
        None \<Rightarrow> Some (s, Send ''ERR_OPEN'' Close, q, m, a, b)
      | Some (i, s) \<Rightarrow> Some (s, with_lock_ex t f i (receive_file t i), q, m, a, b))"
  "sstep (s, receive_file t i, q, m, a, b) =
     (if a \<noteq> [] then Some (s, save_data t i (take 1024 a), q, m, drop 1024 a, b)
      else if is_closed q then Some (s, act (unlock t i) (Send ''ERR_RECV_FILE_DATA'' Close), q, m, a, b) else None)"
  "length x \<le> free_space s i \<Longrightarrow> sstep (s, save_data t i x, q, m, a, b) =
     Some (s\<lparr>contents := (contents s)(i := x @ drop (length x) (contents s i))\<rparr>,
       act (unlock t i) (Send ''WRITE_OK'' Close), q, m, a, b)"
  by (simp_all add: sstep_def handle_write_def set_and_check_def open_and_receive_def receive_file_def save_data_def
      act_def query_def Let_def BUF_SIZE_def write_start_def option.case_distrib split: option.splits prod.splits)
     (cases "get_file_permission (tab s) r"; simp)

lemma sstep_locks [simp]:
  "flock_works s f \<Longrightarrow> sstep (s, with_lock_ex t f i p, q, m, a, b) =
     map_option (\<lambda>s. (s, p, q, m, a, b)) (lock_ex t i s)"
  "flock_works s f \<Longrightarrow> sstep (s, with_lock_sh t f i p, q, m, a, b) =
     map_option (\<lambda>s. (s, p, q, m, a, b)) (lock_sh t i s)"
  by (simp_all add: sstep_def with_lock_ex_def with_lock_sh_def option.map_comp comp_def)

lemma sstep_get [simp]:
  "sstep (s, handle_get t r, q, m, a, b) =
     Some (s, (case open_read s (file_of (full_path r)) of
        None \<Rightarrow> Send ''ERR_FILE_NOT_FOUND'' Close
      | Some i \<Rightarrow> with_lock_sh t (file_of (full_path r)) i (send_back t i)), q, m, a, b)"
  "sstep (s, send_back t i, q, m, a, b) =
     Some (s, act (unlock t i) (Send ''OK_SENDING_FILE''
       (if read_start i s \<noteq> [] then Send (read_start i s) Close else Close)), q, m, a, b)"
  by (simp_all add: handle_get_def send_back_def Let_def)

lemma sstep_rm [simp]:
  "sstep (s, handle_rm t r, q, m, a, b) =
     Some (s, if get_file_permission (tab s) r = READ_ONLY then Send (''ERR_FILE_IS_READ_ONLY'' @ [NUL]) Close
       else query (\<lambda>s. case open_write s (file_of (full_path r)) of
              None \<Rightarrow> Send ''ERR_REMOVE_FAILED'' Close
            | Some i \<Rightarrow> with_lock_ex t (file_of (full_path r)) i (remove_file t (file_of (full_path r)) i)), q, m, a, b)"
  "sstep (s, remove_file t f i, q, m, a, b) =
     (case remove_name f s of (ok, s) \<Rightarrow>
       Some (s, act (unlock t i) (Send (if ok then ''RM_OK'' else ''ERR_REMOVE_FAILED'') Close), q, m, a, b))"
  by (simp_all add: handle_rm_def Let_def) (simp add: sstep_def remove_file_def split_def)

text \<open>The commands of the client.\<close>

lemma cstep_write [simp]:
  "cstep (s, p, ready_reply lf, m, a, b) =
     (if b \<noteq> []
      then Some (s, p,
        if \<not> starts_with (cstr (take 1023 b)) ''OK_READY_TO_RECEIVE'' then say (''Server error: '' @ cstr (take 1023 b)) (finish 1)
        else query (\<lambda>s. case local s lf of None \<Rightarrow> finish 1 | Some file \<Rightarrow> send_file file), m, a, drop 1023 b)
      else if is_closed p then Some (s, p, finish 1, m, a, b) else None)"
  "cstep (s, p, final_reply, m, a, b) =
     (if b \<noteq> [] then Some (s, p, say (''[Client] Server final response: '' @ cstr (take 1023 b)) (finish 0), m, a, drop 1023 b)
      else if is_closed p then Some (s, p, finish 1, m, a, b) else None)"
  by (simp_all add: cstep_def ready_reply_def final_reply_def Let_def BUF_SIZE_def)

lemma cstep_get [simp]:
  "cstep (s, p, get_reply lf, m, a, b) =
     (if b \<noteq> []
      then Some (s, p,
        if starts_with (cstr (take 1023 b)) ''ERR_FILE_NOT_FOUND'' then say ''Server error: File not found.'' (finish 1)
        else if \<not> starts_with (cstr (take 1023 b)) ''OK_SENDING_FILE'' then say (''Server error: '' @ cstr (take 1023 b)) (finish 1)
        else save_file lf, m, a, drop 1023 b)
      else if is_closed p then Some (s, p, finish 1, m, a, b) else None)"
  "cstep (s, p, save_file lf, m, a, b) =
     (if b \<noteq> []
      then Some (s, p, query (\<lambda>s.
         if can_save s lf
         then act (\<lambda>s. s\<lparr>local := (local s)(lf \<mapsto> take 1024 b)\<rparr>)
                (say (received_line lf) (finish 0))
         else finish 1), m, a, drop 1024 b)
      else if is_closed p then Some (s, p, say ''[Client] File is empty or server didn't send data.'' (finish 0), m, a, b)
      else None)"
  by (simp_all add: cstep_def get_reply_def save_file_def Let_def BUF_SIZE_def)

lemma cstep_rm [simp]:
  "cstep (s, p, rm_reply, m, a, b) =
     (if b \<noteq> [] then Some (s, p, say (''[Client] Server response: '' @ cstr (take 1023 b)) (finish 0), m, a, drop 1023 b)
      else if is_closed p then Some (s, p, finish 1, m, a, b) else None)"
  by (simp add: cstep_def rm_reply_def Let_def BUF_SIZE_def)

text \<open>A chosen order of the steps of the two ends.\<close>

fun vrun :: "bool list \<Rightarrow> view \<Rightarrow> view option" where
  "vrun [] v = Some v"
| "vrun (w # ws) v = (case (if w then sstep v else cstep v) of None \<Rightarrow> None | Some v \<Rightarrow> vrun ws v)"

lemma vrun_reachable: "vrun ws (view_of t c) = Some v \<Longrightarrow> \<exists>c'. reachable c c' \<and> view_of t c' = v"
proof (induction ws arbitrary: c)
  case Nil
  then show ?case using reachable.refl by auto
next
  case (Cons w ws)
  then obtain v1 where v1: "(if w then sstep (view_of t c) else cstep (view_of t c)) = Some v1" "vrun ws v1 = Some v"
    by (auto split: option.splits)
  obtain c1 where c1: "step c c1" "v1 = view_of t c1"
    using v1(1) view_srv_step [of t c] view_cli_step [of t c] step.intros [of c t] by (cases w) (auto simp: map_option_eq_Some)
  with Cons.IH v1(2) obtain c' where "reachable c1 c'" "view_of t c' = v" by blast
  with c1(1) show ?case using net_trans reachable.intros by blast
qed

section \<open>Command lines\<close>

lemma tokens_command:
  "tokens (''WRITE '' @ x) = ''WRITE'' # tokens x"
  "tokens (''GET '' @ x) = ''GET'' # tokens x"
  "tokens (''RM '' @ x) = ''RM'' # tokens x"
  using tokens_word_blank [of "''WRITE''" x] tokens_word_blank [of "''GET''" x] tokens_word_blank [of "''RM''" x]
  by (simp_all add: is_word_def is_delim_def)

lemmas tokens_lines = tokens_command [simplified] tokens_word_blank tokens_word

lemma tokens_blank: "is_word w \<Longrightarrow> tokens (w @ '' '' @ x) = w # tokens x"
  using tokens_word_blank [of w x] by simp

lemma command_short: "no_nul c \<Longrightarrow> length c < 1024 \<Longrightarrow> command c = c \<and> cstr (take 1023 (command c)) = c"
  by (simp add: command_def BUF_SIZE_def)

section \<open>Sessions\<close>

text \<open>What a session is about: the connection, the arguments of the client, and the state of the server
  and of the client's machine at its start.\<close>

record job =
  job_tid :: tid
  job_local :: string
  job_remote :: string
  job_perm :: "string option"
  job_srv :: server
  job_client :: client

text \<open>Only one client has arguments; the others (those without arguments end at once) leave the server alone.\<close>

definition only :: "tid \<Rightarrow> string list \<Rightarrow> tid \<Rightarrow> string list" where
  "only t args u = (if u = t then args else [])"

definition ended :: "tid \<Rightarrow> 's net \<Rightarrow> bool" where
  "ended t c \<longleftrightarrow> srv_step c t = None \<and> cli_step c t = None"

lemma ended_view: "ended t c \<longleftrightarrow> sstep (view_of t c) = None \<and> cstep (view_of t c) = None"
  by (simp add: ended_def flip: view_srv_step view_cli_step)

definition idle_others :: "tid \<Rightarrow> network \<Rightarrow> bool" where
  "idle_others t c \<longleftrightarrow> (\<forall>u. u \<noteq> t \<longrightarrow> thread c u \<in> {client_thread u, Close} \<and> peer c u \<in> {finish 1, Close}
     \<and> to_srv c u = [] \<and> to_cli c u = [])"

lemma idle_connect: "idle_others t (connect s (only t args) cs)"
  by (simp add: idle_others_def connect_def only_def main_def)

lemma other_srv_step:
  assumes "idle_others t c" and "u \<noteq> t" and "srv_step c u = Some c'"
  shows "view_of t c' = view_of t c \<and> idle_others t c'"
proof -
  have u: "thread c u \<in> {client_thread u, Close}" "to_srv c u = []" using assms(1,2) by (auto simp: idle_others_def)
  then have th: "thread c u = Recv 1023 (\<lambda>buf. if buf = [] then Close else dispatch u (cstr buf))"
    using assms(3) by (auto simp: srv_step_def client_thread_def BUF_SIZE_def)
  have c': "c' = c\<lparr>thread := (thread c)(u := Close)\<rparr>"
    using assms(3) u(2) by (auto simp: srv_step_def th split: prog.splits)
  show ?thesis using assms(1,2) by (simp add: c' view_of_def idle_others_def)
qed

lemma other_cli_step:
  assumes "idle_others t c" and "u \<noteq> t" and "cli_step c u = Some c'"
  shows "view_of t c' = view_of t c \<and> idle_others t c'"
proof -
  have "peer c u \<in> {finish 1, Close}" using assms(1,2) by (auto simp: idle_others_def)
  then have pe: "peer c u = finish 1" using assms(3) by (auto simp: cli_step_def)
  have c': "c' = c\<lparr>machine := (machine c)(u := (machine c u)\<lparr>status := Some 1\<rparr>), peer := (peer c)(u := Close)\<rparr>"
    using assms(3) by (simp add: cli_step_def pe finish_def act_def)
  show ?thesis using assms(1,2) by (simp add: c' view_of_def idle_others_def)
qed

lemma other_step:
  assumes "idle_others t c" and "step c c'"
  shows "idle_others t c' \<and> (view_of t c' = view_of t c
    \<or> sstep (view_of t c) = Some (view_of t c') \<or> cstep (view_of t c) = Some (view_of t c'))"
  using assms(2)
proof (rule stepE)
  fix u
  assume st: "srv_step c u = Some c'"
  show ?thesis
  proof (cases "u = t")
    case True
    then have "idle_others t c'" using assms(1) st
      by (auto simp: srv_step_def idle_others_def split: prog.splits if_splits)
    moreover have "sstep (view_of t c) = Some (view_of t c')" using view_srv_step [of t c] st True by simp
    ultimately show ?thesis by blast
  qed (use other_srv_step [OF assms(1) _ st] in blast)
next
  fix u
  assume st: "cli_step c u = Some c'"
  show ?thesis
  proof (cases "u = t")
    case True
    then have "idle_others t c'" using assms(1) st
      by (auto simp: cli_step_def idle_others_def split: prog.splits if_splits)
    moreover have "cstep (view_of t c) = Some (view_of t c')" using view_cli_step [of t c] st True by simp
    ultimately show ?thesis by blast
  qed (use other_cli_step [OF assms(1) _ st] in blast)
qed

text \<open>How many of the steps of a schedule are made by the two ends of a connection.\<close>

definition own_moves :: "tid \<Rightarrow> who list \<Rightarrow> nat" where
  "own_moves t ws = length (filter (\<lambda>w. w = S t \<or> w = C t) ws)"

lemma own_moves_simps [simp]:
  "own_moves t [] = 0" "own_moves t (w # ws) = (if w = S t \<or> w = C t then 1 else 0) + own_moves t ws"
  by (simp_all add: own_moves_def)

lemma move_view:
  assumes "idle_others t c" and "move w c = Some c'"
  shows "idle_others t c'"
    and "if w = S t \<or> w = C t then sstep (view_of t c) = Some (view_of t c') \<or> cstep (view_of t c) = Some (view_of t c')
      else view_of t c' = view_of t c"
proof -
  show "idle_others t c'" using other_step [OF assms(1) move_step [OF assms(2)]] by simp
  show "if w = S t \<or> w = C t then sstep (view_of t c) = Some (view_of t c') \<or> cstep (view_of t c) = Some (view_of t c')
      else view_of t c' = view_of t c"
    using assms(2) view_srv_step [of t c] view_cli_step [of t c] other_srv_step [OF assms(1)] other_cli_step [OF assms(1)]
    by (cases w) auto
qed

text \<open>A kind of session is given by its views, ranked by the steps that are left at most: the steps of
  either end lead from views to views of smaller rank, and only views of rank \<open>0\<close> are stuck.\<close>

locale session =
  fixes views :: "job \<Rightarrow> nat \<Rightarrow> view \<Rightarrow> bool"
  assumes server_view: "views j n v \<Longrightarrow> sstep v = Some v' \<Longrightarrow> \<exists>k<n. views j k v'"
    and client_view: "views j n v \<Longrightarrow> cstep v = Some v' \<Longrightarrow> \<exists>k<n. views j k v'"
    and progress: "views j (Suc n) v \<Longrightarrow> sstep v \<noteq> None \<or> cstep v \<noteq> None"
begin

definition in_session :: "job \<Rightarrow> network \<Rightarrow> bool" where
  "in_session j c \<longleftrightarrow> (\<exists>n. views j n (view_of (job_tid j) c)) \<and> idle_others (job_tid j) c"

lemma in_session_step: "in_session j c \<Longrightarrow> step c c' \<Longrightarrow> in_session j c'"
  using other_step [of "job_tid j" c c'] server_view client_view unfolding in_session_def by metis

lemma in_session_reachable: "reachable c0 c \<Longrightarrow> in_session j c0 \<Longrightarrow> in_session j c"
  by (induction rule: reachable.induct) (auto intro: in_session_step)

lemma ended_rank:
  assumes "in_session j c" and "ended (job_tid j) c"
  shows "views j 0 (view_of (job_tid j) c)"
proof -
  obtain n where n: "views j n (view_of (job_tid j) c)" using assms(1) by (auto simp: in_session_def)
  have "\<not> views j (Suc k) (view_of (job_tid j) c)" for k
    using assms(2) progress [of j k] unfolding ended_view by blast
  with n show ?thesis by (cases n) blast+
qed

lemma rank_ended: "views j 0 (view_of (job_tid j) c) \<Longrightarrow> ended (job_tid j) c"
  unfolding ended_view using server_view [of j 0] client_view [of j 0] not_less_zero
  by (metis not_None_eq)

text \<open>Every session can be continued until its connection is at rest.\<close>

lemma can_end: "in_session j c \<Longrightarrow> \<exists>c'. reachable c c' \<and> ended (job_tid j) c'"
proof -
  assume "in_session j c"
  then obtain n where n: "views j n (view_of (job_tid j) c)" by (auto simp: in_session_def)
  let ?t = "job_tid j"
  have "views j n (view_of ?t c) \<Longrightarrow> \<exists>c'. reachable c c' \<and> ended ?t c'" for c
  proof (induction n arbitrary: c rule: less_induct)
    case (less n)
    show ?case
    proof (cases "ended ?t c")
      case True
      then show ?thesis using reachable.refl by blast
    next
      case False
      then obtain c1 where c1: "srv_step c ?t = Some c1 \<or> cli_step c ?t = Some c1" by (auto simp: ended_def)
      then have "sstep (view_of ?t c) = Some (view_of ?t c1) \<or> cstep (view_of ?t c) = Some (view_of ?t c1)"
        using view_srv_step [of ?t c] view_cli_step [of ?t c] by auto
      with less.prems obtain k where k: "k < n" "views j k (view_of ?t c1)" using server_view client_view by blast
      obtain c2 where c2: "reachable c1 c2" "ended ?t c2" using less.IH [OF k] by blast
      have "reachable c c1" using c1 by (auto intro: reachable.intros step.intros)
      with c2 show ?thesis using net_trans by blast
    qed
  qed
  with n show ?thesis by blast
qed

text \<open>In every schedule the two ends make no more steps than the rank says.\<close>

lemma moves_bounded:
  "run ws c = Some c' \<Longrightarrow> idle_others (job_tid j) c \<Longrightarrow> views j n (view_of (job_tid j) c) \<Longrightarrow> own_moves (job_tid j) ws \<le> n"
proof (induction ws arbitrary: c n)
  case (Cons w ws)
  let ?t = "job_tid j"
  obtain c1 where c1: "move w c = Some c1" "run ws c1 = Some c'" using Cons.prems(1) by (auto elim: bind_Some_E)
  note v = move_view [OF Cons.prems(2) c1(1)]
  show ?case
  proof (cases "w = S ?t \<or> w = C ?t")
    case True
    with v(2) have "sstep (view_of ?t c) = Some (view_of ?t c1) \<or> cstep (view_of ?t c) = Some (view_of ?t c1)" by simp
    then obtain k where "k < n" "views j k (view_of ?t c1)"
      using server_view [OF Cons.prems(3)] client_view [OF Cons.prems(3)] by blast
    with Cons.IH [OF c1(2) v(1)] True show ?thesis by fastforce
  next
    case False
    with v Cons.IH [OF c1(2) v(1)] Cons.prems(3) show ?thesis by simp
  qed
qed simp

lemma session_bound:
  assumes "views j n (job_srv j, client_thread (job_tid j), main args, job_client j, [], [])"
    and "run ws (connect (job_srv j) (only (job_tid j) args) (\<lambda>_. job_client j)) = Some c"
  shows "own_moves (job_tid j) ws \<le> n"
  by (rule moves_bounded [OF assms(2) idle_connect]) (use assms(1) in \<open>simp add: view_of_def connect_def only_def\<close>)

lemma session_ends:
  assumes start: "views j n (job_srv j, client_thread (job_tid j), main args, job_client j, [], [])"
    and run: "reachable (connect (job_srv j) (only (job_tid j) args) (\<lambda>_. job_client j)) c"
  shows "ended (job_tid j) c \<Longrightarrow> views j 0 (view_of (job_tid j) c)"
    and "\<exists>c'. reachable c c' \<and> ended (job_tid j) c'"
proof -
  have "in_session j (connect (job_srv j) (only (job_tid j) args) (\<lambda>_. job_client j))"
    unfolding in_session_def using start idle_connect [of "job_tid j" "job_srv j" args "\<lambda>_. job_client j"]
    by (auto simp: view_of_def connect_def only_def)
  with run have c: "in_session j c" by (rule in_session_reachable)
  then show "\<exists>c'. reachable c c' \<and> ended (job_tid j) c'" by (rule can_end)
  show "ended (job_tid j) c \<Longrightarrow> views j 0 (view_of (job_tid j) c)" by (rule ended_rank [OF c])
qed

end

end
