(* ===== verification/Rfs_Write.thy ===== *)
theory Rfs_Write
  imports Rfs_Session
begin

text \<open>
  The sessions of \<open>WRITE\<close>: a file that is accepted, a file that is rejected as read-only, and an empty
  local file, which leaves both ends waiting.
\<close>

section \<open>The request\<close>

definition write_line :: "job \<Rightarrow> string" where
  "write_line j = (case job_perm j of
     Some p \<Rightarrow> ''WRITE '' @ job_local j @ '' '' @ job_remote j @ '' '' @ p
   | None \<Rightarrow> ''WRITE '' @ job_local j @ '' '' @ job_remote j)"

definition write_args :: "job \<Rightarrow> string list" where
  "write_args j = ''WRITE'' # job_local j # job_remote j # (case job_perm j of Some p \<Rightarrow> [p] | None \<Rightarrow> [])"

text \<open>The arguments are words and the command fits the buffers.\<close>

definition good_request :: "job \<Rightarrow> bool" where
  "good_request j \<longleftrightarrow> is_word (job_local j) \<and> is_word (job_remote j) \<and> pred_option is_word (job_perm j)
     \<and> length (write_line j) < 1024"

abbreviation remote_file :: "job \<Rightarrow> string list" where
  "remote_file j \<equiv> file_of (full_path (job_remote j))"

lemma main_write: "main (write_args j) = Send (command (write_line j)) (ready_reply (job_local j))"
  by (simp add: main_def write_args_def write_line_def do_write_def nth_token_def strcaseeq_def split: option.splits)

lemma write_command:
  assumes "good_request j"
  shows "command (write_line j) = write_line j" and "cstr (take 1023 (write_line j)) = write_line j"
    and "write_line j \<noteq> []" and "drop 1023 (write_line j) = []"
proof -
  have "no_nul (write_line j)"
    using assms by (auto simp: good_request_def write_line_def split: option.splits)
  then show "command (write_line j) = write_line j" "cstr (take 1023 (write_line j)) = write_line j"
    using command_short [of "write_line j"] assms by (auto simp: good_request_def)
  show "write_line j \<noteq> []" by (simp add: write_line_def split: option.splits)
  show "drop 1023 (write_line j) = []" using assms by (simp add: good_request_def)
qed

lemma dispatch_write:
  assumes "good_request j"
  shows "dispatch t (write_line j) = handle_write t (job_remote j) (job_perm j)"
proof -
  have "tokens (write_line j) = write_args j"
    using assms by (auto simp: write_line_def write_args_def good_request_def tokens_lines
        split: option.splits)
  then show ?thesis
    by (simp add: dispatch_def run_command_def write_args_def strcaseeq_def nth_token_def split: option.splits)
qed

lemma starts_ready: "starts_with (cstr (take 1023 (''OK_READY_TO_RECEIVE'' @ [NUL]))) ''OK_READY_TO_RECEIVE''"
  by (simp add: starts_with_def cstr_def)

section \<open>The states of the server\<close>

abbreviation new_tab :: "job \<Rightarrow> table" where
  "new_tab j \<equiv> set_file_permission (tab (job_srv j)) (job_remote j) (parse_perm (job_perm j))"

definition after_set :: "job \<Rightarrow> server" where
  "after_set j = (job_srv j)\<lparr>tab := new_tab j\<rparr>"

definition target :: "job \<Rightarrow> inode" where
  "target j = (case names (job_srv j) (remote_file j) of Some i \<Rightarrow> i | None \<Rightarrow> next_inode (job_srv j))"

definition after_open :: "job \<Rightarrow> server" where
  "after_open j = (case open_trunc (after_set j) (remote_file j) of Some (i, s) \<Rightarrow> s | None \<Rightarrow> after_set j)"

definition after_lock :: "job \<Rightarrow> server" where
  "after_lock j = (after_open j)\<lparr>writer := (writer (after_open j))(target j := Some (job_tid j))\<rparr>"

definition after_save :: "job \<Rightarrow> char list \<Rightarrow> server" where
  "after_save j x = (after_lock j)\<lparr>contents := (contents (after_lock j))(target j := x)\<rparr>"

text \<open>What the server allows: the file can be opened for writing, and nobody holds a lock.\<close>

definition writable :: "job \<Rightarrow> bool" where
  "writable j \<longleftrightarrow> no_locks (job_srv j) \<and> flock_works (job_srv j) (remote_file j)
     \<and> (if names (job_srv j) (remote_file j) = None then can_create (job_srv j) (remote_file j)
        else can_write (job_srv j) (remote_file j))"

definition accepted :: "job \<Rightarrow> bool" where
  "accepted j \<longleftrightarrow> get_file_permission (new_tab j) (job_remote j) = READ_WRITE"

lemma accepted_before: "accepted j \<Longrightarrow> get_file_permission (tab (job_srv j)) (job_remote j) = READ_WRITE"
  using set_known [of "tab (job_srv j)" "job_remote j" "parse_perm (job_perm j)"]
  by (auto simp: accepted_def get_known split: option.splits)

lemma open_write_target:
  "writable j \<Longrightarrow> open_trunc (after_set j) (remote_file j) = Some (target j, after_open j)"
  by (auto simp: writable_def open_trunc_def after_set_def target_def after_open_def Let_def split: option.splits if_splits)

lemma after_open_simps:
  assumes "writable j"
  shows "writer (after_open j) i = None" "readers (after_open j) i = {}" "contents (after_open j) (target j) = []"
    "names (after_open j) = (names (job_srv j))(remote_file j \<mapsto> target j)"
    "flock_works (after_open j) = flock_works (job_srv j)" "free_space (after_open j) = free_space (job_srv j)"
    "tab (after_open j) = new_tab j"
    "i \<noteq> target j \<Longrightarrow> contents (after_open j) i = contents (job_srv j) i"
  using assms
  by (auto simp: writable_def after_open_def after_set_def open_trunc_def target_def no_locks_def Let_def fun_upd_def fun_eq_iff
      split: option.splits if_splits)

lemma flock_after_open: "writable j \<Longrightarrow> flock_works (after_open j) (remote_file j)"
  using after_open_simps(5) by (simp add: writable_def)

lemma lock_target: "writable j \<Longrightarrow> lock_ex (job_tid j) (target j) (after_open j) = Some (after_lock j)"
  by (simp add: lock_ex_def after_lock_def after_open_simps)

lemma unlock_target: "writable j \<Longrightarrow> no_locks (unlock (job_tid j) (target j) (after_save j x))"
  by (auto simp: no_locks_def unlock_def after_save_def after_lock_def after_open_simps)

section \<open>The request reaches the server\<close>

inductive handshake :: "job \<Rightarrow> nat \<Rightarrow> view \<Rightarrow> bool" for j where
  hs2: "handshake j 2 (job_srv j, client_thread (job_tid j), main (write_args j), job_client j, [], [])"
| hs1: "handshake j 1 (job_srv j, client_thread (job_tid j), ready_reply (job_local j), job_client j, write_line j, [])"
| hs0: "handshake j 0 (job_srv j, handle_write (job_tid j) (job_remote j) (job_perm j),
    ready_reply (job_local j), job_client j, [], [])"

lemma handshake_sstep:
  assumes "good_request j" and "handshake j n v" and "sstep v = Some v'"
  shows "(\<exists>k<n. handshake j k v') \<or> n = 0 \<and> v' = (job_srv j,
     if get_file_permission (tab (job_srv j)) (job_remote j) = READ_WRITE
     then set_and_check (job_tid j) (job_remote j) (job_perm j) else write_checked (job_tid j) (job_remote j) READ_ONLY,
     ready_reply (job_local j), job_client j, [], [])"
  using assms(2)
proof cases
  case hs2 with assms(3) show ?thesis by (simp add: main_write)
next
  case hs1
  then have "v' = (job_srv j, handle_write (job_tid j) (job_remote j) (job_perm j), ready_reply (job_local j), job_client j, [], [])"
    using assms(1,3) by (simp add: write_command dispatch_write)
  with hs1 show ?thesis using handshake.hs0 [of j] by (intro disjI1 exI [of _ 0]) simp
next
  case hs0 with assms(3) show ?thesis by simp
qed

lemma handshake_cstep:
  assumes "good_request j" and "handshake j n v" and "cstep v = Some v'"
  shows "\<exists>k<n. handshake j k v'"
  using assms(2)
proof cases
  case hs2
  then have "v' = (job_srv j, client_thread (job_tid j), ready_reply (job_local j), job_client j, write_line j, [])"
    using assms(1,3) by (simp add: main_write write_command)
  with hs2 show ?thesis using handshake.hs1 [of j] by (intro exI [of _ 1]) simp
qed (use assms(3) in simp_all)

lemma handshake_progress: "good_request j \<Longrightarrow> handshake j n v \<Longrightarrow> sstep v \<noteq> None \<or> cstep v \<noteq> None"
  by (erule handshake.cases) (simp_all add: main_write write_command)

text \<open>The server accepts: it enters the permission and answers \<open>OK_READY_TO_RECEIVE\<close>.\<close>

abbreviation ready_line :: "char list" where "ready_line \<equiv> ''OK_READY_TO_RECEIVE'' @ [NUL]"

inductive accepting :: "job \<Rightarrow> nat \<Rightarrow> view \<Rightarrow> bool" for j where
  ac_request: "handshake j n v \<Longrightarrow> accepting j (3 + n) v"
| ac2: "accepting j 2 (job_srv j, set_and_check (job_tid j) (job_remote j) (job_perm j),
    ready_reply (job_local j), job_client j, [], [])"
| ac1: "accepting j 1 (after_set j,
    query (\<lambda>s. write_checked (job_tid j) (job_remote j) (get_file_permission (tab s) (job_remote j))),
    ready_reply (job_local j), job_client j, [], [])"
| ac0: "accepting j 0 (after_set j, Send ready_line (open_and_receive (job_tid j) (remote_file j)),
    ready_reply (job_local j), job_client j, [], [])"

lemma accepting_start:
  "accepting j 5 (job_srv j, client_thread (job_tid j), main (write_args j), job_client j, [], [])"
  using accepting.ac_request [OF handshake.hs2, of j] by simp

lemma accepting_sstep:
  assumes "good_request j" and "accepted j" and "accepting j n v" and "sstep v = Some v'"
  shows "(\<exists>k<n. accepting j k v') \<or> n = 0 \<and> v' = (after_set j, open_and_receive (job_tid j) (remote_file j),
    ready_reply (job_local j), job_client j, [], ready_line)"
  using assms(3)
proof cases
  case (ac_request k)
  from handshake_sstep [OF assms(1) ac_request(2) assms(4)] show ?thesis
  proof
    assume "\<exists>l<k. handshake j l v'"
    then obtain l where l: "l < k" "handshake j l v'" by blast
    show ?thesis using l(1) ac_request(1) accepting.ac_request [OF l(2)] by (intro disjI1 exI [of _ "3 + l"]) simp
  next
    assume v: "k = 0 \<and> v' = (job_srv j,
     if get_file_permission (tab (job_srv j)) (job_remote j) = READ_WRITE
     then set_and_check (job_tid j) (job_remote j) (job_perm j) else write_checked (job_tid j) (job_remote j) READ_ONLY,
     ready_reply (job_local j), job_client j, [], [])"
    then show ?thesis using ac_request(1) accepting.ac2 [of j] accepted_before [OF assms(2)]
      by (intro disjI1 exI [of _ 2]) simp
  qed
next
  case ac2
  then have "v' = (after_set j, query (\<lambda>s. write_checked (job_tid j) (job_remote j) (get_file_permission (tab s) (job_remote j))),
      ready_reply (job_local j), job_client j, [], [])"
    using assms(4) by (simp add: after_set_def)
  with ac2 show ?thesis using accepting.ac1 [of j] by (intro disjI1 exI [of _ 1]) simp
next
  case ac1
  have "get_file_permission (tab (after_set j)) (job_remote j) = READ_WRITE"
    using assms(2) by (simp add: after_set_def accepted_def)
  with ac1 assms(4) have "v' = (after_set j, Send ready_line (open_and_receive (job_tid j) (remote_file j)),
      ready_reply (job_local j), job_client j, [], [])"
    by (simp add: write_checked_def)
  with ac1 show ?thesis using accepting.ac0 [of j] by (intro disjI1 exI [of _ 0]) simp
next
  case ac0 with assms(4) show ?thesis by simp
qed

lemma accepting_cstep:
  assumes "good_request j" and "accepting j n v" and "cstep v = Some v'"
  shows "\<exists>k<n. accepting j k v'"
  using assms(2)
proof cases
  case (ac_request k)
  then obtain l where l: "l < k" "handshake j l v'" using handshake_cstep [OF assms(1) _ assms(3)] by blast
  show ?thesis using l(1) ac_request(1) accepting.ac_request [OF l(2)] by (intro exI [of _ "3 + l"]) simp
qed (use assms(3) in simp_all)

lemma accepting_progress: "good_request j \<Longrightarrow> accepting j n v \<Longrightarrow> sstep v \<noteq> None \<or> cstep v \<noteq> None"
  by (erule accepting.cases, use handshake_progress in blast) simp_all

text \<open>Then it opens and locks the file while the client is at its steps.\<close>

inductive opens :: "job \<Rightarrow> nat \<Rightarrow> server \<Rightarrow> server prog \<Rightarrow> bool" for j where
  op2: "opens j 2 (after_set j) (open_and_receive (job_tid j) (remote_file j))"
| op1: "opens j 1 (after_open j) (with_lock_ex (job_tid j) (remote_file j) (target j) (receive_file (job_tid j) (target j)))"
| op0: "opens j 0 (after_lock j) (receive_file (job_tid j) (target j))"

lemma opens_sstep:
  assumes "writable j" and "opens j k s p"
  shows "sstep (s, p, q, m, a, b) = (if k = 0 then sstep (after_lock j, receive_file (job_tid j) (target j), q, m, a, b)
     else Some (if k = 2 then after_open j else after_lock j,
       if k = 2 then with_lock_ex (job_tid j) (remote_file j) (target j) (receive_file (job_tid j) (target j))
       else receive_file (job_tid j) (target j), q, m, a, b))"
  using assms(2) by cases (use assms(1) in \<open>simp_all add: open_write_target lock_target flock_after_open\<close>)

lemma opens_next:
  assumes "opens j k s p" and "k \<noteq> 0"
  shows "opens j (k - 1) (if k = 2 then after_open j else after_lock j)
    (if k = 2 then with_lock_ex (job_tid j) (remote_file j) (target j) (receive_file (job_tid j) (target j))
       else receive_file (job_tid j) (target j))"
  using assms(1) by cases (use assms(2) opens.op1 [of j] opens.op0 [of j] in simp_all)

lemma opens_busy: "opens j k s p \<Longrightarrow> \<not> is_closed p"
  by (erule opens.cases) simp_all

section \<open>A file is accepted\<close>

definition upload_ok :: "job \<Rightarrow> char list \<Rightarrow> bool" where
  "upload_ok j file \<longleftrightarrow> good_request j \<and> writable j \<and> accepted j
     \<and> local (job_client j) (job_local j) = Some file \<and> file \<noteq> []
     \<and> length (take BUF_SIZE file) \<le> free_space (job_srv j) (target j)"

abbreviation chunk :: "job \<Rightarrow> char list" where
  "chunk j \<equiv> take BUF_SIZE (the (local (job_client j) (job_local j)))"

abbreviation uploadable :: "job \<Rightarrow> bool" where
  "uploadable j \<equiv> upload_ok j (the (local (job_client j) (job_local j)))"

abbreviation read_local :: "job \<Rightarrow> client prog" where
  "read_local j \<equiv> query (\<lambda>s. case local s (job_local j) of None \<Rightarrow> finish 1 | Some file \<Rightarrow> send_file file)"

inductive upload_client :: "job \<Rightarrow> nat \<Rightarrow> client prog \<Rightarrow> char list \<Rightarrow> char list \<Rightarrow> bool" for j where
  uc3: "upload_client j 3 (ready_reply (job_local j)) [] ready_line"
| uc2: "upload_client j 2 (read_local j) [] []"
| uc1: "upload_client j 1 (Send (chunk j) final_reply) [] []"
| uc0: "upload_client j 0 final_reply (chunk j) []"

abbreviation final_line :: string where "final_line \<equiv> ''[Client] Server final response: WRITE_OK''"

abbreviation uploaded :: "job \<Rightarrow> server" where
  "uploaded j \<equiv> unlock (job_tid j) (target j) (after_save j (chunk j))"

inductive upload_views :: "job \<Rightarrow> nat \<Rightarrow> view \<Rightarrow> bool" for j where
  u_start: "uploadable j \<Longrightarrow> accepting j n v \<Longrightarrow> upload_views j (13 + n) v"
| u_both: "uploadable j \<Longrightarrow> opens j k s p \<Longrightarrow> upload_client j l q a b \<Longrightarrow>
    upload_views j (7 + k + l) (s, p, q, job_client j, a, b)"
| u6: "uploadable j \<Longrightarrow> upload_views j 6 (after_lock j, save_data (job_tid j) (target j) (chunk j), final_reply, job_client j, [], [])"
| u5: "uploadable j \<Longrightarrow> upload_views j 5 (after_save j (chunk j), act (unlock (job_tid j) (target j)) (Send ''WRITE_OK'' Close),
    final_reply, job_client j, [], [])"
| u4: "uploadable j \<Longrightarrow> upload_views j 4 (uploaded j, Send ''WRITE_OK'' Close, final_reply, job_client j, [], [])"
| u3: "uploadable j \<Longrightarrow> upload_views j 3 (uploaded j, Close, final_reply, job_client j, [], ''WRITE_OK'')"
| u2: "uploadable j \<Longrightarrow> upload_views j 2 (uploaded j, Close, say final_line (finish 0), job_client j, [], [])"
| u1: "uploadable j \<Longrightarrow> upload_views j 1 (uploaded j, Close,
    finish 0, (job_client j)\<lparr>printed := printed (job_client j) @ [final_line]\<rparr>, [], [])"
| u0: "uploadable j \<Longrightarrow> upload_views j 0 (uploaded j, Close, Close,
    (job_client j)\<lparr>printed := printed (job_client j) @ [final_line], status := Some 0\<rparr>, [], [])"

lemma upload_facts:
  assumes "uploadable j"
  shows "good_request j" "writable j" "accepted j" "chunk j \<noteq> []" "drop 1024 (chunk j) = []" "take 1024 (chunk j) = chunk j"
    "local (job_client j) (job_local j) \<noteq> None"
    "length (chunk j) \<le> free_space (job_srv j) (target j)"
  using assms by (auto simp: upload_ok_def BUF_SIZE_def)

lemma upload_sstep: "upload_views j n v \<Longrightarrow> sstep v = Some v' \<Longrightarrow> \<exists>k<n. upload_views j k v'"
proof (induction rule: upload_views.cases)
  case (u_start n0 w)
  have "sstep w = Some v'" using u_start(2,5) by simp
  from accepting_sstep [OF upload_facts(1,3) [OF u_start(3)] u_start(4) this] show ?case
  proof
    assume "\<exists>k<n0. accepting j k v'"
    then obtain k where k: "k < n0" "accepting j k v'" by blast
    show ?thesis using k(1) u_start(1) upload_views.u_start [OF u_start(3) k(2)] by (intro exI [of _ "13 + k"]) simp
  next
    assume "n0 = 0 \<and> v' = (after_set j, open_and_receive (job_tid j) (remote_file j), ready_reply (job_local j), job_client j, [], ready_line)"
    then show ?thesis using u_start(1) upload_views.u_both [OF u_start(3) opens.op2 upload_client.uc3] by (intro exI [of _ 12]) simp
  qed
next
  case (u_both k s p l q a b)
  note wr = upload_facts(2) [OF u_both(3)]
  show ?case
  proof (cases "k = 0")
    case True
    with u_both(2,6) opens_sstep [OF wr u_both(4)]
    have st: "sstep (after_lock j, receive_file (job_tid j) (target j), q, job_client j, a, b) = Some v'" by simp
    from u_both(5) show ?thesis
    proof cases
      case uc0
      then have "v' = (after_lock j, save_data (job_tid j) (target j) (chunk j), final_reply, job_client j, [], [])"
        using st upload_facts(4-6) [OF u_both(3)] by simp
      then show ?thesis using upload_views.u6 [OF u_both(3)] u_both(1) by (intro exI [of _ 6]) simp
    qed (use st in simp_all)
  next
    case False
    show ?thesis
      using u_both(1,2,6) opens_sstep [OF wr u_both(4)] upload_views.u_both [OF u_both(3) opens_next [OF u_both(4) False] u_both(5)] False
      by (intro exI [of _ "7 + (k - 1) + l"]) simp
  qed
next
  case u6
  then show ?case using upload_views.u5 [of j] upload_facts(2,8) [of j] by (intro exI [of _ 5]) (auto simp: after_save_def after_lock_def after_open_simps)
next
  case u5
  then show ?case using upload_views.u4 [of j] by (intro exI [of _ 4]) auto
next
  case u4
  then show ?case using upload_views.u3 [of j] by (intro exI [of _ 3]) auto
qed simp_all

lemma upload_cstep: "upload_views j n v \<Longrightarrow> cstep v = Some v' \<Longrightarrow> \<exists>k<n. upload_views j k v'"
proof (induction rule: upload_views.cases)
  case (u_start n0 w)
  have "cstep w = Some v'" using u_start(2,5) by simp
  then obtain k where k: "k < n0" "accepting j k v'"
    using accepting_cstep [OF upload_facts(1) [OF u_start(3)] u_start(4)] by blast
  show ?case using k(1) u_start(1) upload_views.u_start [OF u_start(3) k(2)] by (intro exI [of _ "13 + k"]) simp
next
  case (u_both k s p l q a b)
  note both = upload_views.u_both [OF u_both(3,4)]
  from u_both(5) show ?case
  proof cases
    case uc3
    with u_both(2,6) have "v' = (s, p, read_local j, job_client j, [], [])" using starts_ready by simp
    then show ?thesis using both [OF upload_client.uc2] uc3 by (intro exI [of _ "7 + k + 2"]) (simp add: u_both(1))
  next
    case uc2
    with u_both(2,6) have "v' = (s, p, Send (chunk j) final_reply, job_client j, [], [])"
      using upload_facts(4,7) [OF u_both(3)] by (auto simp: send_file_def Let_def)
    then show ?thesis using both [OF upload_client.uc1] uc2 by (intro exI [of _ "7 + k + 1"]) (simp add: u_both(1))
  next
    case uc1
    with u_both(2,6) have "v' = (s, p, final_reply, job_client j, chunk j, [])" by simp
    then show ?thesis using both [OF upload_client.uc0] uc1 by (intro exI [of _ "7 + k + 0"]) (simp add: u_both(1))
  next
    case uc0
    with opens_busy [OF u_both(4)] u_both(2,6) show ?thesis by simp
  qed
next
  case u3
  then show ?case using upload_views.u2 [of j] by (intro exI [of _ 2]) (auto simp: cstr_def)
next
  case u2
  then show ?case using upload_views.u1 [of j] by (intro exI [of _ 1]) auto
next
  case u1
  then show ?case using upload_views.u0 [of j] by (intro exI [of _ 0]) auto
qed simp_all

lemma upload_progress: "upload_views j (Suc n) v \<Longrightarrow> sstep v \<noteq> None \<or> cstep v \<noteq> None"
proof (induction "Suc n" v rule: upload_views.induct)
  case (u_start n0 v)
  then show ?case using accepting_progress upload_facts(1) by blast
next
  case (u_both k s p l q a b)
  have "sstep (s, p, q, job_client j, a, b) \<noteq> None" if "l = 0"
    using u_both(3) by cases (use that opens_sstep [OF upload_facts(2) [OF u_both(1)] u_both(2)] upload_facts(4) [OF u_both(1)] in simp_all)
  moreover have "cstep (s, p, q, job_client j, a, b) \<noteq> None" if "l \<noteq> 0"
    using u_both(3) by cases (use that in simp_all)
  ultimately show ?case by blast
next
  case u6
  then show ?case using upload_facts(2,8) [of j] by (simp add: after_lock_def after_open_simps)
qed simp_all

interpretation upload: session upload_views
  using upload_sstep upload_cstep upload_progress by unfold_locales blast+

lemma upload_start:
  "uploadable j \<Longrightarrow> upload_views j 18 (job_srv j, client_thread (job_tid j), main (write_args j), job_client j, [], [])"
  using upload_views.u_start [OF _ accepting_start, of j] by simp

lemma upload_result:
  assumes "upload_ok j file"
    and "reachable (connect (job_srv j) (only (job_tid j) (write_args j)) (\<lambda>_. job_client j)) c"
  shows "ended (job_tid j) c \<Longrightarrow>
      srv c = uploaded j \<and> thread c (job_tid j) = Close \<and> peer c (job_tid j) = Close
      \<and> machine c (job_tid j) = (job_client j)\<lparr>printed := printed (job_client j) @ [final_line], status := Some 0\<rparr>"
    and "\<exists>c'. reachable c c' \<and> ended (job_tid j) c'"
proof -
  have up: "uploadable j" using assms(1) by (auto simp: upload_ok_def)
  note ends = upload.session_ends [OF upload_start [OF up] assms(2)]
  show "\<exists>c'. reachable c c' \<and> ended (job_tid j) c'" by (rule ends(2))
  assume "ended (job_tid j) c"
  then have "upload_views j 0 (view_of (job_tid j) c)" by (rule ends(1))
  then show "srv c = uploaded j \<and> thread c (job_tid j) = Close \<and> peer c (job_tid j) = Close
      \<and> machine c (job_tid j) = (job_client j)\<lparr>printed := printed (job_client j) @ [final_line], status := Some 0\<rparr>"
    by (rule upload_views.cases) (simp_all add: view_of_def)
qed

lemma uploaded_simps:
  assumes "upload_ok j file"
  shows "names (uploaded j) = (names (job_srv j))(remote_file j \<mapsto> target j)"
    and "contents (uploaded j) (target j) = take 1024 file"
    and "i \<noteq> target j \<Longrightarrow> contents (uploaded j) i = contents (job_srv j) i"
    and "tab (uploaded j) = new_tab j" and "no_locks (uploaded j)"
proof -
  have up: "uploadable j" and x: "chunk j = take 1024 file" using assms by (auto simp: upload_ok_def BUF_SIZE_def)
  note wr = upload_facts(2) [OF up]
  show "no_locks (uploaded j)" by (rule unlock_target [OF wr])
  show "names (uploaded j) = (names (job_srv j))(remote_file j \<mapsto> target j)"
    "contents (uploaded j) (target j) = take 1024 file" "tab (uploaded j) = new_tab j"
    "i \<noteq> target j \<Longrightarrow> contents (uploaded j) i = contents (job_srv j) i"
    using wr x by (simp_all add: after_open_simps unlock_def after_save_def after_lock_def)
qed

text \<open>C19: An upload of a local file that is not empty, by one client, to a path that may be written,
  with arguments that fit into the request, room on the disk, and sends that arrive as a whole:
  in every schedule the two ends make at most 18 steps, and from every state reached they can
  come to rest; when they have, the client has printed WRITE_OK and exited with 0, the file on
  the server holds exactly the first 1024 bytes of the local file, no other file is touched, the
  permission is entered and no lock is held.\<close>

theorem write_session:
  assumes "good_request j" and "writable j" and "accepted j"
    and "local (job_client j) (job_local j) = Some file" and "file \<noteq> []"
    and "length (take BUF_SIZE file) \<le> free_space (job_srv j) (target j)"
  defines "c0 \<equiv> connect (job_srv j) (only (job_tid j) (write_args j)) (\<lambda>_. job_client j)"
  shows "(\<forall>c. reachable c0 c \<and> ended (job_tid j) c \<longrightarrow>
      thread c (job_tid j) = Close \<and> peer c (job_tid j) = Close
      \<and> status (machine c (job_tid j)) = Some 0
      \<and> printed (machine c (job_tid j)) = printed (job_client j) @ [final_line]
      \<and> names (srv c) = (names (job_srv j))(remote_file j \<mapsto> target j)
      \<and> contents (srv c) (target j) = take 1024 file
      \<and> (\<forall>i. i \<noteq> target j \<longrightarrow> contents (srv c) i = contents (job_srv j) i)
      \<and> tab (srv c) = new_tab j \<and> no_locks (srv c))
    \<and> (\<forall>ws c. run ws c0 = Some c \<longrightarrow> own_moves (job_tid j) ws \<le> 18)
    \<and> (\<forall>c. reachable c0 c \<longrightarrow> (\<exists>c'. reachable c c' \<and> ended (job_tid j) c'))"
proof -
  have up: "upload_ok j file" using assms(1-6) by (simp add: upload_ok_def)
  then have up': "uploadable j" using assms(4) by simp
  show ?thesis
    unfolding c0_def using upload_result [OF up] uploaded_simps [OF up] upload.session_bound [OF upload_start [OF up']]
    by auto
qed

section \<open>An example\<close>

definition sample_server :: server where
  "sample_server = \<lparr>tab = empty_table, names = (\<lambda>_. None), contents = (\<lambda>_. []), next_inode = 7,
     writer = (\<lambda>_. None), readers = (\<lambda>_. {}), can_create = (\<lambda>_. True), can_write = (\<lambda>_. True),
     can_read = (\<lambda>_. True), can_remove = (\<lambda>_. True), flock_works = (\<lambda>_. True), read_works = (\<lambda>_. True),
     free_space = (\<lambda>_. 4096)\<rparr>"

definition sample_client :: client where
  "sample_client = \<lparr>local = [''a.txt'' \<mapsto> ''hello'', ''none'' \<mapsto> []], can_save = (\<lambda>_. True), printed = [], status = None\<rparr>"

definition sample_job :: "string \<Rightarrow> string option \<Rightarrow> job" where
  "sample_job file pm = \<lparr>job_tid = 3, job_local = file, job_remote = ''b.txt'', job_perm = pm,
     job_srv = sample_server, job_client = sample_client\<rparr>"

lemma sample_words: "is_word ''a.txt''" "is_word ''b.txt''" "is_word ''none''" "is_word ''RO''"
  by (simp_all add: is_word_def is_delim_def)

lemma sample_request: "good_request (sample_job ''a.txt'' None)" "good_request (sample_job ''none'' None)"
  "good_request (sample_job ''a.txt'' (Some ''RO''))"
  by (simp_all add: good_request_def sample_job_def sample_words write_line_def)

lemma sample_tab:
  "get_file_permission (new_tab (sample_job lf pm)) ''b.txt'' = parse_perm pm"
proof -
  have "no_nul ''b.txt''" by simp
  then show ?thesis
    using set_new(2) [of empty_table "''b.txt''" "parse_perm pm" "''b.txt''"]
    by (simp add: sample_job_def sample_server_def get_known, simp add: empty_table_def MAX_FILES_def)
qed

lemma sample_accepted: "accepted (sample_job lf None)"
  using sample_tab [of "lf" "None"] by (simp add: accepted_def sample_job_def parse_perm_def)

lemma sample_writable: "writable (sample_job lf pm)"
  by (simp add: writable_def sample_job_def sample_server_def no_locks_def)

lemma sample_target: "target (sample_job lf pm) = 7"
  by (simp add: target_def sample_job_def sample_server_def)

lemma sample_upload: "upload_ok (sample_job ''a.txt'' None) ''hello''"
  unfolding upload_ok_def
  by (intro conjI sample_request sample_accepted sample_writable)
    (simp_all add: sample_job_def sample_client_def sample_server_def BUF_SIZE_def)

lemma sample_uploaded:
  "\<exists>c. reachable (connect sample_server (only 3 [''WRITE'', ''a.txt'', ''b.txt'']) (\<lambda>_. sample_client)) c
     \<and> contents (srv c) 7 = ''hello''"
proof -
  let ?j = "sample_job ''a.txt'' None"
  have eqs: "job_tid ?j = 3" "job_srv ?j = sample_server" "job_client ?j = sample_client"
    "write_args ?j = [''WRITE'', ''a.txt'', ''b.txt'']"
    by (simp_all add: sample_job_def write_args_def)
  note res = upload_result [OF sample_upload, unfolded eqs] and simps = uploaded_simps(2) [OF sample_upload, unfolded sample_target]
  obtain c where c: "reachable (connect sample_server (only 3 [''WRITE'', ''a.txt'', ''b.txt'']) (\<lambda>_. sample_client)) c" "ended 3 c"
    using res(2) [OF reachable.refl] by blast
  have "contents (srv c) 7 = ''hello''" using res(1) [OF c] simps by (simp add: eqs sample_target)
  with c(1) show ?thesis by blast
qed

theorem write_session_witness:
  "\<exists>c. reachable (connect sample_server (only 3 [''WRITE'', ''a.txt'', ''b.txt'']) (\<lambda>_. sample_client)) c
     \<and> ended 3 c \<and> contents (srv c) 7 = ''hello'' \<and> status (machine c 3) = Some 0"
proof -
  let ?j = "sample_job ''a.txt'' None"
  have eqs: "job_tid ?j = 3" "job_srv ?j = sample_server" "job_client ?j = sample_client"
    "write_args ?j = [''WRITE'', ''a.txt'', ''b.txt'']"
    by (simp_all add: sample_job_def write_args_def)
  have up: "good_request ?j" "writable ?j" "accepted ?j" "local (job_client ?j) (job_local ?j) = Some ''hello''"
    "''hello'' \<noteq> []" "length (take BUF_SIZE ''hello'') \<le> free_space (job_srv ?j) (target ?j)"
    using sample_upload by (simp_all add: upload_ok_def)
  note th = write_session [OF up, unfolded eqs sample_target]
  obtain c where c: "reachable (connect sample_server (only 3 [''WRITE'', ''a.txt'', ''b.txt'']) (\<lambda>_. sample_client)) c" "ended 3 c"
    using th reachable.refl by blast
  with th have "contents (srv c) 7 = take 1024 ''hello''" "status (machine c 3) = Some 0" by blast+
  with c show ?thesis by auto
qed

end
