(* ===== verification/Rfs_Refuse.thy ===== *)
theory Rfs_Refuse
  imports Rfs_Write
begin

text \<open>
  The sessions of \<open>WRITE\<close> that do not store a file: the path is read-only, or the local file is empty.
\<close>

section \<open>A read-only path\<close>

definition refused :: "job \<Rightarrow> bool" where
  "refused j \<longleftrightarrow> good_request j \<and> get_file_permission (new_tab j) (job_remote j) = READ_ONLY"

abbreviation refusal :: "char list" where "refusal \<equiv> ''ERR_FILE_IS_READ_ONLY'' @ [NUL]"
abbreviation refusal_line :: string where "refusal_line \<equiv> ''Server error: ERR_FILE_IS_READ_ONLY''"

inductive refuse_views :: "job \<Rightarrow> nat \<Rightarrow> view \<Rightarrow> bool" for j where
  r_start: "refused j \<Longrightarrow> handshake j n v \<Longrightarrow> refuse_views j (7 + n) v"
| r6: "refused j \<Longrightarrow> refuse_views j 6 (job_srv j, set_and_check (job_tid j) (job_remote j) (job_perm j),
    ready_reply (job_local j), job_client j, [], [])"
| r5: "refused j \<Longrightarrow> refuse_views j 5 (after_set j,
    query (\<lambda>s. write_checked (job_tid j) (job_remote j) (get_file_permission (tab s) (job_remote j))),
    ready_reply (job_local j), job_client j, [], [])"
| r4: "refused j \<Longrightarrow> refuse_views j 4 (after_set j, Send refusal Close, ready_reply (job_local j), job_client j, [], [])"
| r3: "refused j \<Longrightarrow> refuse_views j 3 (after_set j, Close, ready_reply (job_local j), job_client j, [], refusal)"
| r2: "refused j \<Longrightarrow> refuse_views j 2 (after_set j, Close, say refusal_line (finish 1), job_client j, [], [])"
| r1: "refused j \<Longrightarrow> refuse_views j 1 (after_set j, Close, finish 1,
    (job_client j)\<lparr>printed := printed (job_client j) @ [refusal_line]\<rparr>, [], [])"
| r0: "refused j \<Longrightarrow> refuse_views j 0 (after_set j, Close, Close,
    (job_client j)\<lparr>printed := printed (job_client j) @ [refusal_line], status := Some 1\<rparr>, [], [])"

lemma after_set_same:
  assumes "get_file_permission (tab (job_srv j)) (job_remote j) \<noteq> READ_WRITE"
  shows "after_set j = job_srv j"
proof -
  have "known (tab (job_srv j)) (job_remote j) \<noteq> None"
    using assms by (auto simp: get_known split: option.splits)
  then show ?thesis by (simp add: after_set_def set_known)
qed

lemma refuse_sstep: "refuse_views j n v \<Longrightarrow> sstep v = Some v' \<Longrightarrow> \<exists>k<n. refuse_views j k v'"
proof (induction rule: refuse_views.cases)
  case (r_start n0 w)
  have gr: "good_request j" using r_start(3) by (simp add: refused_def)
  have "sstep w = Some v'" using r_start(2,5) by simp
  from handshake_sstep [OF gr r_start(4) this] show ?case
  proof
    assume "\<exists>k<n0. handshake j k v'"
    then obtain k where k: "k < n0" "handshake j k v'" by blast
    show ?thesis using k(1) r_start(1) refuse_views.r_start [OF r_start(3) k(2)] by (intro exI [of _ "7 + k"]) simp
  next
    assume v: "n0 = 0 \<and> v' = (job_srv j,
     if get_file_permission (tab (job_srv j)) (job_remote j) = READ_WRITE
     then set_and_check (job_tid j) (job_remote j) (job_perm j) else write_checked (job_tid j) (job_remote j) READ_ONLY,
     ready_reply (job_local j), job_client j, [], [])"
    show ?thesis
    proof (cases "get_file_permission (tab (job_srv j)) (job_remote j) = READ_WRITE")
      case True
      then show ?thesis using v r_start(1) refuse_views.r6 [OF r_start(3)] by (intro exI [of _ 6]) simp
    next
      case False
      then show ?thesis using v r_start(1) refuse_views.r4 [OF r_start(3)] after_set_same [OF False]
        by (intro exI [of _ 4]) (simp add: write_checked_def)
    qed
  qed
next
  case r6
  then show ?case using refuse_views.r5 [of j] by (intro exI [of _ 5]) (auto simp: after_set_def)
next
  case r5
  then have "get_file_permission (tab (after_set j)) (job_remote j) = READ_ONLY"
    by (simp add: refused_def after_set_def)
  with r5 have "v' = (after_set j, Send refusal Close, ready_reply (job_local j), job_client j, [], [])"
    by (simp add: write_checked_def)
  with r5 show ?case using refuse_views.r4 [of j] by (intro exI [of _ 4]) simp
next
  case r4
  then show ?case using refuse_views.r3 [of j] by (intro exI [of _ 3]) auto
qed simp_all

lemma refuse_cstep: "refuse_views j n v \<Longrightarrow> cstep v = Some v' \<Longrightarrow> \<exists>k<n. refuse_views j k v'"
proof (induction rule: refuse_views.cases)
  case (r_start n0 w)
  have gr: "good_request j" using r_start(3) by (simp add: refused_def)
  have "cstep w = Some v'" using r_start(2,5) by simp
  then obtain k where k: "k < n0" "handshake j k v'" using handshake_cstep [OF gr r_start(4)] by blast
  show ?case using k(1) r_start(1) refuse_views.r_start [OF r_start(3) k(2)] by (intro exI [of _ "7 + k"]) simp
next
  case r3
  then show ?case using refuse_views.r2 [of j] by (intro exI [of _ 2]) (auto simp: cstr_def starts_with_def)
next
  case r2
  then show ?case using refuse_views.r1 [of j] by (intro exI [of _ 1]) auto
next
  case r1
  then show ?case using refuse_views.r0 [of j] by (intro exI [of _ 0]) auto
qed simp_all

lemma refuse_progress: "refuse_views j (Suc n) v \<Longrightarrow> sstep v \<noteq> None \<or> cstep v \<noteq> None"
proof (induction "Suc n" v rule: refuse_views.induct)
  case (r_start n0 v)
  then show ?case using handshake_progress refused_def by blast
qed simp_all

interpretation refuse: session refuse_views
  using refuse_sstep refuse_cstep refuse_progress by unfold_locales blast+

text \<open>C20: An upload to a path that is read-only, or that the request itself makes read-only (so the
  first upload with RO as well), is refused: nothing is opened or changed but the table, the
  client prints the error and exits with 1.\<close>

theorem read_only_session:
  assumes "good_request j" and "get_file_permission (new_tab j) (job_remote j) = READ_ONLY"
    and "reachable (connect (job_srv j) (only (job_tid j) (write_args j)) (\<lambda>_. job_client j)) c"
  shows "(ended (job_tid j) c \<longrightarrow>
      thread c (job_tid j) = Close \<and> peer c (job_tid j) = Close
      \<and> status (machine c (job_tid j)) = Some 1
      \<and> printed (machine c (job_tid j)) = printed (job_client j) @ [refusal_line]
      \<and> srv c = (job_srv j)\<lparr>tab := new_tab j\<rparr>)
    \<and> (\<exists>c'. reachable c c' \<and> ended (job_tid j) c')"
proof -
  have re: "refused j" using assms(1,2) by (simp add: refused_def)
  have "refuse_views j 9 (job_srv j, client_thread (job_tid j), main (write_args j), job_client j, [], [])"
    using refuse_views.r_start [OF re handshake.hs2] by simp
  note ends = refuse.session_ends [OF this assms(3)]
  have "refuse_views j 0 (view_of (job_tid j) c) \<Longrightarrow>
      srv c = after_set j \<and> thread c (job_tid j) = Close \<and> peer c (job_tid j) = Close
      \<and> machine c (job_tid j) = (job_client j)\<lparr>printed := printed (job_client j) @ [refusal_line], status := Some 1\<rparr>"
    by (erule refuse_views.cases) (simp_all add: view_of_def)
  then show ?thesis using ends by (auto simp: after_set_def)
qed

theorem read_only_session_witness:
  "\<exists>c. reachable (connect sample_server (only 3 [''WRITE'', ''a.txt'', ''b.txt'', ''RO'']) (\<lambda>_. sample_client)) c
     \<and> ended 3 c \<and> names (srv c) = names sample_server \<and> status (machine c 3) = Some 1"
proof -
  let ?j = "sample_job ''a.txt'' (Some ''RO'')"
  have eqs: "job_tid ?j = 3" "job_srv ?j = sample_server" "job_client ?j = sample_client"
    "write_args ?j = [''WRITE'', ''a.txt'', ''b.txt'', ''RO'']" "job_remote ?j = ''b.txt''"
    by (simp_all add: sample_job_def write_args_def)
  have ro: "get_file_permission (new_tab ?j) (job_remote ?j) = READ_ONLY"
    using sample_tab [of "''a.txt''" "Some ''RO''"] eqs(5) by (simp add: parse_perm_def strcaseeq_def)
  note th = read_only_session [OF sample_request(3) ro, unfolded eqs]
  obtain c where c: "reachable (connect sample_server (only 3 [''WRITE'', ''a.txt'', ''b.txt'', ''RO'']) (\<lambda>_. sample_client)) c" "ended 3 c"
    using th [OF reachable.refl] by blast
  with th [OF c(1)] show ?thesis by auto
qed

section \<open>An empty local file\<close>

definition stuck_ok :: "job \<Rightarrow> bool" where
  "stuck_ok j \<longleftrightarrow> good_request j \<and> writable j \<and> accepted j \<and> local (job_client j) (job_local j) = Some []"

inductive stuck_client :: "job \<Rightarrow> nat \<Rightarrow> client prog \<Rightarrow> char list \<Rightarrow> bool" for j where
  sc2: "stuck_client j 2 (ready_reply (job_local j)) ready_line"
| sc1: "stuck_client j 1 (read_local j) []"
| sc0: "stuck_client j 0 final_reply []"

inductive stuck_views :: "job \<Rightarrow> nat \<Rightarrow> view \<Rightarrow> bool" for j where
  st_start: "stuck_ok j \<Longrightarrow> accepting j n v \<Longrightarrow> stuck_views j (5 + n) v"
| st_both: "stuck_ok j \<Longrightarrow> opens j k s p \<Longrightarrow> stuck_client j l q b \<Longrightarrow> stuck_views j (k + l) (s, p, q, job_client j, [], b)"

lemma stuck_facts: "stuck_ok j \<Longrightarrow> good_request j" "stuck_ok j \<Longrightarrow> writable j" "stuck_ok j \<Longrightarrow> accepted j"
  by (simp_all add: stuck_ok_def)

lemma stuck_client_busy: "stuck_client j l q b \<Longrightarrow> \<not> is_closed q"
  by (erule stuck_client.cases) simp_all

lemma stuck_sstep: "stuck_views j n v \<Longrightarrow> sstep v = Some v' \<Longrightarrow> \<exists>k<n. stuck_views j k v'"
proof (induction rule: stuck_views.cases)
  case (st_start n0 w)
  have "sstep w = Some v'" using st_start(2,5) by simp
  from accepting_sstep [OF stuck_facts(1) [OF st_start(3)] stuck_facts(3) [OF st_start(3)] st_start(4) this] show ?case
  proof
    assume "\<exists>k<n0. accepting j k v'"
    then obtain k where k: "k < n0" "accepting j k v'" by blast
    show ?thesis using k(1) st_start(1) stuck_views.st_start [OF st_start(3) k(2)] by (intro exI [of _ "5 + k"]) simp
  next
    assume "n0 = 0 \<and> v' = (after_set j, open_and_receive (job_tid j) (remote_file j), ready_reply (job_local j), job_client j, [], ready_line)"
    then show ?thesis using st_start(1) stuck_views.st_both [OF st_start(3) opens.op2 stuck_client.sc2] by (intro exI [of _ 4]) simp
  qed
next
  case (st_both k s p l q b)
  have "k \<noteq> 0" using st_both(2,6) opens_sstep [OF stuck_facts(2) [OF st_both(3)] st_both(4)] stuck_client_busy [OF st_both(5)]
    by (cases "k = 0") simp_all
  then show ?case
    using st_both(1,2,6) opens_sstep [OF stuck_facts(2) [OF st_both(3)] st_both(4)]
      stuck_views.st_both [OF st_both(3) opens_next [OF st_both(4)] st_both(5)]
    by (intro exI [of _ "k - 1 + l"]) simp
qed

lemma stuck_cstep: "stuck_views j n v \<Longrightarrow> cstep v = Some v' \<Longrightarrow> \<exists>k<n. stuck_views j k v'"
proof (induction rule: stuck_views.cases)
  case (st_start n0 w)
  have "cstep w = Some v'" using st_start(2,5) by simp
  then obtain k where k: "k < n0" "accepting j k v'"
    using accepting_cstep [OF stuck_facts(1) [OF st_start(3)] st_start(4)] by blast
  show ?case using k(1) st_start(1) stuck_views.st_start [OF st_start(3) k(2)] by (intro exI [of _ "5 + k"]) simp
next
  case (st_both k s p l q b)
  note both = stuck_views.st_both [OF st_both(3,4)]
  from st_both(5) show ?case
  proof cases
    case sc2
    with st_both(2,6) have "v' = (s, p, read_local j, job_client j, [], [])" using starts_ready by simp
    then show ?thesis using both [OF stuck_client.sc1] sc2 by (intro exI [of _ "k + 1"]) (simp add: st_both(1))
  next
    case sc1
    with st_both(2,6) have "v' = (s, p, final_reply, job_client j, [], [])"
      using st_both(3) by (auto simp: send_file_def Let_def stuck_ok_def)
    then show ?thesis using both [OF stuck_client.sc0] sc1 by (intro exI [of _ "k + 0"]) (simp add: st_both(1))
  next
    case sc0
    with opens_busy [OF st_both(4)] st_both(2,6) show ?thesis by simp
  qed
qed

lemma stuck_progress: "stuck_views j (Suc n) v \<Longrightarrow> sstep v \<noteq> None \<or> cstep v \<noteq> None"
proof (induction "Suc n" v rule: stuck_views.induct)
  case (st_start n0 v)
  then show ?case using accepting_progress stuck_facts(1) by blast
next
  case (st_both k s p l q b)
  have "sstep (s, p, q, job_client j, [], b) \<noteq> None" if "k \<noteq> 0"
    using opens_sstep [OF stuck_facts(2) [OF st_both(1)] st_both(2)] that by simp
  moreover have "cstep (s, p, q, job_client j, [], b) \<noteq> None" if "l \<noteq> 0"
    using st_both(3) by cases (use that in simp_all)
  moreover have "k \<noteq> 0 \<or> l \<noteq> 0" using st_both(4) by (cases k) simp_all
  ultimately show ?case by blast
qed

lemma stuck_end: "stuck_views j 0 v \<Longrightarrow>
  v = (after_lock j, receive_file (job_tid j) (target j), final_reply, job_client j, [], [])"
proof (induction "0::nat" v rule: stuck_views.induct)
  case (st_both k s p l q b)
  from st_both(4) have "k = 0" "l = 0" by simp_all
  have "s = after_lock j \<and> p = receive_file (job_tid j) (target j)"
    using st_both(2) by cases (use \<open>k = 0\<close> in simp_all)
  moreover have "q = final_reply \<and> b = []"
    using st_both(3) by cases (use \<open>l = 0\<close> in simp_all)
  ultimately show ?case by simp
qed simp

interpretation stuck: session stuck_views
  using stuck_sstep stuck_cstep stuck_progress by unfold_locales blast+

text \<open>C21: Uploading an empty file deadlocks: the client sends nothing and waits for the final answer,
  the server thread waits for data and keeps the exclusive lock on the file, so that every later
  request for the file waits as well.\<close>

theorem empty_file_session:
  assumes "good_request j" and "writable j" and "accepted j" and "local (job_client j) (job_local j) = Some []"
    and "reachable (connect (job_srv j) (only (job_tid j) (write_args j)) (\<lambda>_. job_client j)) c"
  shows "(ended (job_tid j) c \<longrightarrow>
      thread c (job_tid j) = receive_file (job_tid j) (target j) \<and> peer c (job_tid j) = final_reply
      \<and> machine c (job_tid j) = job_client j
      \<and> names (srv c) (remote_file j) = Some (target j) \<and> contents (srv c) (target j) = []
      \<and> (\<forall>u. lock_ex u (target j) (srv c) = None \<and> lock_sh u (target j) (srv c) = None))
    \<and> (\<exists>c'. reachable c c' \<and> ended (job_tid j) c')"
proof -
  have st: "stuck_ok j" using assms(1-4) by (simp add: stuck_ok_def)
  have "stuck_views j 10 (job_srv j, client_thread (job_tid j), main (write_args j), job_client j, [], [])"
    using stuck_views.st_start [OF st accepting_start] by simp
  note ends = stuck.session_ends [OF this assms(5)]
  have "stuck_views j 0 (view_of (job_tid j) c) \<Longrightarrow>
      srv c = after_lock j \<and> thread c (job_tid j) = receive_file (job_tid j) (target j) \<and> peer c (job_tid j) = final_reply
      \<and> machine c (job_tid j) = job_client j"
    by (drule stuck_end) (simp add: view_of_def)
  then show ?thesis using ends assms(2)
    by (auto simp: after_lock_def after_open_simps lock_ex_def lock_sh_def)
qed

theorem empty_file_session_witness:
  "\<exists>c. reachable (connect sample_server (only 3 [''WRITE'', ''none'', ''b.txt'']) (\<lambda>_. sample_client)) c
     \<and> ended 3 c \<and> peer c 3 = final_reply \<and> status (machine c 3) = None"
proof -
  let ?j = "sample_job ''none'' None"
  have eqs: "job_tid ?j = 3" "job_srv ?j = sample_server" "job_client ?j = sample_client"
    "write_args ?j = [''WRITE'', ''none'', ''b.txt'']"
    by (simp_all add: sample_job_def write_args_def)
  have "local (job_client ?j) (job_local ?j) = Some []" by (simp add: sample_job_def sample_client_def)
  note th = empty_file_session [OF sample_request(2) sample_writable sample_accepted this, unfolded eqs]
  obtain c where c: "reachable (connect sample_server (only 3 [''WRITE'', ''none'', ''b.txt'']) (\<lambda>_. sample_client)) c" "ended 3 c"
    using th [OF reachable.refl] by blast
  with th [OF c(1)] show ?thesis by (auto simp: sample_client_def)
qed

end
