(* ===== verification/Rfs_Get.thy ===== *)
theory Rfs_Get
  imports Rfs_Write
begin

text \<open>
  The sessions of \<open>GET\<close> for a file that exists.
\<close>

definition inode_of :: "job \<Rightarrow> inode" where
  "inode_of j = the (names (job_srv j) (remote_file j))"

section \<open>GET\<close>

definition get_line :: "job \<Rightarrow> string" where
  "get_line j = ''GET '' @ job_remote j @ '' '' @ job_local j"

definition get_args :: "job \<Rightarrow> string list" where
  "get_args j = [''GET'', job_remote j, job_local j]"

definition get_ok :: "job \<Rightarrow> bool" where
  "get_ok j \<longleftrightarrow> is_word (job_remote j) \<and> is_word (job_local j) \<and> length (get_line j) < 1024
     \<and> names (job_srv j) (remote_file j) \<noteq> None \<and> can_read (job_srv j) (remote_file j)
     \<and> flock_works (job_srv j) (remote_file j) \<and> no_locks (job_srv j) \<and> can_save (job_client j) (job_local j)"

text \<open>The bytes the server reads.\<close>

definition payload :: "job \<Rightarrow> char list" where
  "payload j = read_start (inode_of j) (job_srv j)"

abbreviation shared :: "job \<Rightarrow> server" where
  "shared j \<equiv> (job_srv j)\<lparr>readers := (readers (job_srv j))(inode_of j := insert (job_tid j) (readers (job_srv j) (inode_of j)))\<rparr>"

abbreviation send_rest :: "job \<Rightarrow> server prog" where
  "send_rest j \<equiv> if payload j \<noteq> [] then Send (payload j) Close else Close"

abbreviation empty_line :: string where
  "empty_line \<equiv> ''[Client] File is empty or server didn't send data.''"

abbreviation store :: "job \<Rightarrow> char list \<Rightarrow> client" where
  "store j r \<equiv> (job_client j)\<lparr>local := (local (job_client j))(job_local j \<mapsto> r)\<rparr>"

definition downloaded :: "job \<Rightarrow> char list \<Rightarrow> client" where
  "downloaded j r = (if r = []
     then (job_client j)\<lparr>printed := printed (job_client j) @ [empty_line], status := Some 0\<rparr>
     else (store j r)\<lparr>printed := printed (job_client j) @ [received_line (job_local j)], status := Some 0\<rparr>)"

lemma get_facts:
  assumes "get_ok j"
  shows "main (get_args j) = Send (get_line j) (get_reply (job_local j))"
    and "get_line j \<noteq> []" and "drop 1023 (get_line j) = []"
    and "dispatch t (cstr (take 1023 (get_line j))) = handle_get t (job_remote j)"
    and "open_read (job_srv j) (remote_file j) = Some (inode_of j)"
    and "flock_works (job_srv j) (remote_file j)"
    and "lock_sh (job_tid j) (inode_of j) (job_srv j) = Some (shared j)"
    and "read_start (inode_of j) (shared j) = payload j"
    and "unlock (job_tid j) (inode_of j) (shared j) = job_srv j"
    and "can_save (job_client j) (job_local j)"
    and "length (payload j) \<le> 1024"
proof -
  have w: "is_word (job_remote j)" "is_word (job_local j)" "length (get_line j) < 1024"
    using assms by (auto simp: get_ok_def)
  then have "no_nul (get_line j)" by (simp add: get_line_def)
  with w(3) have c: "command (get_line j) = get_line j" "cstr (take 1023 (get_line j)) = get_line j"
    using command_short [of "get_line j"] by auto
  show "main (get_args j) = Send (get_line j) (get_reply (job_local j))"
    using c(1) by (simp add: main_def get_args_def do_get_def strcaseeq_def to_lower_def get_line_def)
  show "get_line j \<noteq> []" "drop 1023 (get_line j) = []" using w(3) by (simp_all add: get_line_def)
  have "tokens (get_line j) = [''GET'', job_remote j, job_local j]"
    using w by (simp add: get_line_def tokens_lines)
  then show "dispatch t (cstr (take 1023 (get_line j))) = handle_get t (job_remote j)"
    unfolding c(2) by (simp add: dispatch_def run_command_def strcaseeq_def to_lower_def nth_token_def)
  show "open_read (job_srv j) (remote_file j) = Some (inode_of j)" "flock_works (job_srv j) (remote_file j)"
    "lock_sh (job_tid j) (inode_of j) (job_srv j) = Some (shared j)" "can_save (job_client j) (job_local j)"
    using assms by (auto simp: get_ok_def open_read_def inode_of_def lock_sh_def no_locks_def)
  show "read_start (inode_of j) (shared j) = payload j" by (simp add: payload_def read_start_def)
  have "writer (job_srv j) (inode_of j) = None" "readers (job_srv j) (inode_of j) = {}"
    using assms by (simp_all add: get_ok_def no_locks_def)
  then show "unlock (job_tid j) (inode_of j) (shared j) = job_srv j" by (simp add: unlock_def fun_upd_idem)
  show "length (payload j) \<le> 1024" by (simp add: payload_def read_start_def BUF_SIZE_def)
qed

text \<open>What the second \<open>recv\<close> of the client can get: the bytes of the file, or, when they arrived together
  with the answer and the first \<open>recv\<close> took them, what did not fit its buffer.\<close>

abbreviation ok_line :: string where "ok_line \<equiv> ''OK_SENDING_FILE''"

definition rest_ok :: "job \<Rightarrow> char list \<Rightarrow> bool" where
  "rest_ok j r \<longleftrightarrow> r = payload j \<or> r = drop 1008 (payload j)"

inductive get_views :: "job \<Rightarrow> nat \<Rightarrow> view \<Rightarrow> bool" for j where
  g14: "get_ok j \<Longrightarrow> get_views j 14 (job_srv j, client_thread (job_tid j), main (get_args j), job_client j, [], [])"
| g13: "get_ok j \<Longrightarrow> get_views j 13 (job_srv j, client_thread (job_tid j), get_reply (job_local j), job_client j, get_line j, [])"
| g12: "get_ok j \<Longrightarrow> get_views j 12 (job_srv j, handle_get (job_tid j) (job_remote j), get_reply (job_local j), job_client j, [], [])"
| g11: "get_ok j \<Longrightarrow> get_views j 11 (job_srv j, with_lock_sh (job_tid j) (remote_file j) (inode_of j) (send_back (job_tid j) (inode_of j)),
    get_reply (job_local j), job_client j, [], [])"
| g10: "get_ok j \<Longrightarrow> get_views j 10 (shared j, send_back (job_tid j) (inode_of j), get_reply (job_local j), job_client j, [], [])"
| g9: "get_ok j \<Longrightarrow> get_views j 9 (shared j, act (unlock (job_tid j) (inode_of j)) (Send ok_line (send_rest j)),
    get_reply (job_local j), job_client j, [], [])"
| g8: "get_ok j \<Longrightarrow> get_views j 8 (job_srv j, Send ok_line (send_rest j), get_reply (job_local j), job_client j, [], [])"
| g7: "get_ok j \<Longrightarrow> payload j \<noteq> [] \<Longrightarrow> get_views j 7 (job_srv j, Send (payload j) Close, get_reply (job_local j), job_client j, [], ok_line)"
| g6: "get_ok j \<Longrightarrow> payload j \<noteq> [] \<Longrightarrow> get_views j 6 (job_srv j, Send (payload j) Close, save_file (job_local j), job_client j, [], [])"
| g6': "get_ok j \<Longrightarrow> get_views j 6 (job_srv j, Close, get_reply (job_local j), job_client j, [], ok_line @ payload j)"
| g5: "get_ok j \<Longrightarrow> rest_ok j r \<Longrightarrow> get_views j 5 (job_srv j, Close, save_file (job_local j), job_client j, [], r)"
| g4: "get_ok j \<Longrightarrow> rest_ok j r \<Longrightarrow> r \<noteq> [] \<Longrightarrow> get_views j 4 (job_srv j, Close,
    query (\<lambda>s. if can_save s (job_local j)
      then act (\<lambda>s. s\<lparr>local := (local s)(job_local j \<mapsto> r)\<rparr>) (say (received_line (job_local j)) (finish 0))
      else finish 1), job_client j, [], [])"
| g3: "get_ok j \<Longrightarrow> rest_ok j r \<Longrightarrow> r \<noteq> [] \<Longrightarrow> get_views j 3 (job_srv j, Close,
    act (\<lambda>s. s\<lparr>local := (local s)(job_local j \<mapsto> r)\<rparr>) (say (received_line (job_local j)) (finish 0)), job_client j, [], [])"
| g2: "get_ok j \<Longrightarrow> rest_ok j r \<Longrightarrow> r \<noteq> [] \<Longrightarrow> get_views j 2 (job_srv j, Close,
    say (received_line (job_local j)) (finish 0), store j r, [], [])"
| g2': "get_ok j \<Longrightarrow> rest_ok j [] \<Longrightarrow> get_views j 2 (job_srv j, Close, say empty_line (finish 0), job_client j, [], [])"
| g1: "get_ok j \<Longrightarrow> rest_ok j r \<Longrightarrow> get_views j 1 (job_srv j, Close, finish 0,
    (downloaded j r)\<lparr>status := status (job_client j)\<rparr>, [], [])"
| g0: "get_ok j \<Longrightarrow> rest_ok j r \<Longrightarrow> get_views j 0 (job_srv j, Close, Close, downloaded j r, [], [])"

lemma rest_ok_length: "get_ok j \<Longrightarrow> rest_ok j r \<Longrightarrow> take 1024 r = r \<and> drop 1024 r = []"
  using get_facts(11) [of j] by (auto simp: rest_ok_def)

lemma get_sstep: "get_views j n v \<Longrightarrow> sstep v = Some v' \<Longrightarrow> \<exists>k<n. get_views j k v'"
proof (induction rule: get_views.cases)
  case g14 then show ?case by (simp add: get_facts)
next
  case g13
  then show ?case using get_views.g12 [of j] by (intro exI [of _ 12]) (auto simp: get_facts)
next
  case g12
  then show ?case using get_views.g11 [of j] by (intro exI [of _ 11]) (auto simp: get_facts)
next
  case g11
  then show ?case using get_views.g10 [of j] by (intro exI [of _ 10]) (auto simp: get_facts)
next
  case g10
  then show ?case using get_views.g9 [of j] get_facts(8) [of j] by (intro exI [of _ 9]) (auto cong: if_cong)
next
  case g9
  then show ?case using get_views.g8 [of j] get_facts(9) [of j] by (intro exI [of _ 8]) auto
next
  case g8
  then have v: "v' = (job_srv j, send_rest j, get_reply (job_local j), job_client j, [], ok_line)" by simp
  show ?case
  proof (cases "payload j = []")
    case True
    with v g8 show ?thesis using get_views.g6' [of j] by (intro exI [of _ 6]) simp
  next
    case False
    with v g8 show ?thesis using get_views.g7 [of j] by (intro exI [of _ 7]) simp
  qed
next
  case g7
  then show ?case using get_views.g6' [of j] by (intro exI [of _ 6]) auto
next
  case g6
  then show ?case using get_views.g5 [of j "payload j"] by (intro exI [of _ 5]) (auto simp: rest_ok_def)
qed simp_all

lemma get_cstep: "get_views j n v \<Longrightarrow> cstep v = Some v' \<Longrightarrow> \<exists>k<n. get_views j k v'"
proof (induction rule: get_views.cases)
  case g14
  then show ?case using get_views.g13 [of j] by (intro exI [of _ 13]) (auto simp: get_facts)
next
  case g7
  then show ?case using get_views.g6 [of j] by (intro exI [of _ 6]) (auto simp: starts_with_def cstr_def)
next
  case g6'
  then show ?case using get_views.g5 [of j "drop 1008 (payload j)"] by (intro exI [of _ 5]) (auto simp: starts_with_def cstr_def rest_ok_def)
next
  case (g5 r)
  show ?case
  proof (cases "r = []")
    case True
    with g5 have "v' = (job_srv j, Close, say empty_line (finish 0), job_client j, [], [])" by simp
    with g5 True show ?thesis using get_views.g2' [of j] by (intro exI [of _ 2]) simp
  next
    case False
    with g5 have "v' = (job_srv j, Close,
        query (\<lambda>s. if can_save s (job_local j)
          then act (\<lambda>s. s\<lparr>local := (local s)(job_local j \<mapsto> r)\<rparr>) (say (received_line (job_local j)) (finish 0))
          else finish 1), job_client j, [], [])"
      using rest_ok_length [of j r] by (simp cong: if_cong)
    with g5 False show ?thesis using get_views.g4 [of j r] by (intro exI [of _ 4]) simp
  qed
next
  case (g4 r)
  then show ?case using get_views.g3 [of j r] by (intro exI [of _ 3]) (auto simp: get_facts)
next
  case (g3 r)
  then show ?case using get_views.g2 [of j r] by (intro exI [of _ 2]) auto
next
  case (g2 r)
  then show ?case using get_views.g1 [of j r] by (intro exI [of _ 1]) (auto simp: downloaded_def)
next
  case g2'
  then show ?case using get_views.g1 [of j "[]"] by (intro exI [of _ 1]) (auto simp: downloaded_def)
next
  case (g1 r)
  then have "v' = (job_srv j, Close, Close, downloaded j r, [], [])"
    by (cases "r = []") (simp_all add: downloaded_def)
  with g1 show ?case using get_views.g0 [of j r] by (intro exI [of _ 0]) simp
qed simp_all

lemma get_progress: "get_views j (Suc n) v \<Longrightarrow> sstep v \<noteq> None \<or> cstep v \<noteq> None"
  by (induction "Suc n" v rule: get_views.induct) (simp_all add: get_facts)

interpretation get_file: session get_views
  using get_sstep get_cstep get_progress by unfold_locales blast+

lemma get_end: "get_views j 0 v \<Longrightarrow> \<exists>r. rest_ok j r \<and> v = (job_srv j, Close, Close, downloaded j r, [], [])"
  by (induction "0::nat" v rule: get_views.induct) auto

lemma get_result:
  assumes "get_ok j"
    and "reachable (connect (job_srv j) (only (job_tid j) (get_args j)) (\<lambda>_. job_client j)) c"
  shows "ended (job_tid j) c \<Longrightarrow>
      thread c (job_tid j) = Close \<and> peer c (job_tid j) = Close \<and> srv c = job_srv j
      \<and> machine c (job_tid j) \<in> {downloaded j (payload j), downloaded j (drop 1008 (payload j))}"
    and "\<exists>c'. reachable c c' \<and> ended (job_tid j) c'"
proof -
  note ends = get_file.session_ends [OF get_views.g14 [OF assms(1)] assms(2)]
  show "\<exists>c'. reachable c c' \<and> ended (job_tid j) c'" by (rule ends(2))
  assume "ended (job_tid j) c"
  then show "thread c (job_tid j) = Close \<and> peer c (job_tid j) = Close \<and> srv c = job_srv j
      \<and> machine c (job_tid j) \<in> {downloaded j (payload j), downloaded j (drop 1008 (payload j))}"
    using get_end [OF ends(1)] by (auto simp: view_of_def rest_ok_def)
qed

text \<open>A download of an existing file comes to rest in every interleaving and changes nothing on
  the server; the client has saved the first 1024 bytes of the file, or, when they came in with
  the answer, what did not fit the first buffer (nothing up to 1008 bytes).\<close>

theorem get_session:
  assumes "get_ok j"
    and "reachable (connect (job_srv j) (only (job_tid j) (get_args j)) (\<lambda>_. job_client j)) c"
  shows "(ended (job_tid j) c \<longrightarrow>
      thread c (job_tid j) = Close \<and> peer c (job_tid j) = Close \<and> srv c = job_srv j
      \<and> machine c (job_tid j) \<in> {downloaded j (payload j), downloaded j (drop 1008 (payload j))})
    \<and> (\<exists>c'. reachable c c' \<and> ended (job_tid j) c')"
  using get_result [OF assms] by simp

text \<open>The second case does happen: the server sends the answer and the file before the client reads.\<close>

text \<open>C23: A download can lose the file: for every file of 1 to 1008 bytes there is a run in which the
  answer and the data arrive together, the client saves nothing and exits with 0.\<close>

theorem get_loses_data:
  assumes "get_ok j" and "payload j \<noteq> []" and "length (payload j) \<le> 1008"
  shows "\<exists>c. reachable (connect (job_srv j) (only (job_tid j) (get_args j)) (\<lambda>_. job_client j)) c
    \<and> ended (job_tid j) c \<and> local (machine c (job_tid j)) = local (job_client j)
    \<and> status (machine c (job_tid j)) = Some 0"
proof -
  let ?c0 = "connect (job_srv j) (only (job_tid j) (get_args j)) (\<lambda>_. job_client j)"
  let ?fin = "(job_srv j, Close, Close, downloaded j [], [], [])"
  have v0: "view_of (job_tid j) ?c0 = (job_srv j, client_thread (job_tid j), main (get_args j), job_client j, [], [])"
    by (simp add: view_of_def connect_def only_def)
  have "vrun [False, True, True, True, True, True, True, True, False, False, False, False] (view_of (job_tid j) ?c0) = Some ?fin"
    unfolding v0 using get_facts [OF assms(1)] assms(2,3)
    by (simp add: starts_with_def cstr_def downloaded_def)
  then obtain c where c: "reachable ?c0 c" "view_of (job_tid j) c = ?fin" using vrun_reachable by blast
  have "ended (job_tid j) c" by (simp add: ended_view c(2))
  moreover have "machine c (job_tid j) = downloaded j []" using c(2) by (simp add: view_of_def)
  ultimately show ?thesis using c(1) by (auto simp: downloaded_def)
qed

section \<open>An example\<close>

definition stored_server :: server where
  "stored_server = sample_server\<lparr>names := [file_of (full_path ''b.txt'') \<mapsto> 7], contents := (\<lambda>_. [])(7 := ''hello'')\<rparr>"

definition stored_job :: job where
  "stored_job = (sample_job ''a.txt'' None)\<lparr>job_srv := stored_server\<rparr>"

lemma stored_simps:
  "job_tid stored_job = 3" "job_srv stored_job = stored_server" "job_client stored_job = sample_client"
  "job_remote stored_job = ''b.txt''" "job_local stored_job = ''a.txt''"
  "get_args stored_job = [''GET'', ''b.txt'', ''a.txt'']"
  by (simp_all add: stored_job_def sample_job_def get_args_def)

lemma stored_get: "get_ok stored_job"
  unfolding get_ok_def stored_simps
  by (intro conjI sample_words)
    (simp_all add: get_line_def stored_simps stored_server_def sample_server_def sample_client_def no_locks_def)

lemma stored_payload: "payload stored_job = ''hello''"
  by (simp add: payload_def inode_of_def stored_simps read_start_def stored_server_def sample_server_def BUF_SIZE_def)

theorem get_session_witness:
  "\<exists>c. reachable (connect stored_server (only 3 [''GET'', ''b.txt'', ''a.txt'']) (\<lambda>_. sample_client)) c
     \<and> ended 3 c \<and> srv c = stored_server \<and> status (machine c 3) = Some 0"
proof -
  note th = get_session [OF stored_get, unfolded stored_simps]
  obtain c where c: "reachable (connect stored_server (only 3 [''GET'', ''b.txt'', ''a.txt'']) (\<lambda>_. sample_client)) c" "ended 3 c"
    using th [OF reachable.refl] by blast
  with th [OF c(1)] show ?thesis by (auto simp: downloaded_def)
qed

theorem get_loses_data_witness:
  "\<exists>c. reachable (connect stored_server (only 3 [''GET'', ''b.txt'', ''a.txt'']) (\<lambda>_. sample_client)) c
     \<and> ended 3 c \<and> local (machine c 3) = local sample_client \<and> status (machine c 3) = Some 0"
  using get_loses_data [OF stored_get, unfolded stored_simps stored_payload] by simp

end
