(* ===== verification/Rfs_Remove.thy ===== *)
theory Rfs_Remove
  imports Rfs_Get
begin

text \<open>
  The sessions of \<open>RM\<close> for a file that exists and that the permission table does not protect.
\<close>

definition rm_line :: "job \<Rightarrow> string" where
  "rm_line j = ''RM '' @ job_remote j"

definition rm_args :: "job \<Rightarrow> string list" where
  "rm_args j = [''RM'', job_remote j]"

definition rm_ok :: "job \<Rightarrow> bool" where
  "rm_ok j \<longleftrightarrow> is_word (job_remote j) \<and> length (rm_line j) < 1024
     \<and> get_file_permission (tab (job_srv j)) (job_remote j) = READ_WRITE
     \<and> names (job_srv j) (remote_file j) \<noteq> None \<and> can_write (job_srv j) (remote_file j)
     \<and> flock_works (job_srv j) (remote_file j) \<and> no_locks (job_srv j)"

abbreviation held :: "job \<Rightarrow> server" where
  "held j \<equiv> (job_srv j)\<lparr>writer := (writer (job_srv j))(inode_of j := Some (job_tid j))\<rparr>"

definition removable :: "job \<Rightarrow> bool" where
  "removable j \<longleftrightarrow> can_remove (job_srv j) (remote_file j)"

definition removed :: "job \<Rightarrow> server" where
  "removed j = (if removable j then (job_srv j)\<lparr>names := (names (job_srv j))(remote_file j := None)\<rparr> else job_srv j)"

definition rm_answer :: "job \<Rightarrow> string" where
  "rm_answer j = (if removable j then ''RM_OK'' else ''ERR_REMOVE_FAILED'')"

abbreviation rm_report :: "job \<Rightarrow> string" where
  "rm_report j \<equiv> ''[Client] Server response: '' @ rm_answer j"

lemma rm_facts:
  assumes "rm_ok j"
  shows "main (rm_args j) = Send (rm_line j) rm_reply"
    and "rm_line j \<noteq> []" and "drop 1023 (rm_line j) = []"
    and "dispatch t (cstr (take 1023 (rm_line j))) = handle_rm t (job_remote j)"
    and "get_file_permission (tab (job_srv j)) (job_remote j) \<noteq> READ_ONLY"
    and "open_write (job_srv j) (remote_file j) = Some (inode_of j)"
    and "flock_works (job_srv j) (remote_file j)"
    and "lock_ex (job_tid j) (inode_of j) (job_srv j) = Some (held j)"
    and "remove_name (remote_file j) (held j) =
      (removable j, (removed j)\<lparr>writer := (writer (job_srv j))(inode_of j := Some (job_tid j))\<rparr>)"
    and "unlock (job_tid j) (inode_of j) ((removed j)\<lparr>writer := (writer (job_srv j))(inode_of j := Some (job_tid j))\<rparr>) = removed j"
proof -
  have w: "is_word (job_remote j)" "length (rm_line j) < 1024" using assms by (auto simp: rm_ok_def)
  then have "no_nul (rm_line j)" by (simp add: rm_line_def)
  with w(2) have c: "command (rm_line j) = rm_line j" "cstr (take 1023 (rm_line j)) = rm_line j"
    using command_short [of "rm_line j"] by auto
  show "main (rm_args j) = Send (rm_line j) rm_reply"
    using c(1) by (simp add: main_def rm_args_def do_rm_def strcaseeq_def to_lower_def rm_line_def)
  show "rm_line j \<noteq> []" "drop 1023 (rm_line j) = []" using w(2) by (simp_all add: rm_line_def)
  have "tokens (rm_line j) = [''RM'', job_remote j]" using w by (simp add: rm_line_def tokens_lines)
  then show "dispatch t (cstr (take 1023 (rm_line j))) = handle_rm t (job_remote j)"
    unfolding c(2) by (simp add: dispatch_def run_command_def strcaseeq_def to_lower_def nth_token_def)
  show "get_file_permission (tab (job_srv j)) (job_remote j) \<noteq> READ_ONLY" using assms by (simp add: rm_ok_def)
  have n: "names (job_srv j) (remote_file j) \<noteq> None" using assms by (simp add: rm_ok_def)
  show "open_write (job_srv j) (remote_file j) = Some (inode_of j)" "flock_works (job_srv j) (remote_file j)"
    "lock_ex (job_tid j) (inode_of j) (job_srv j) = Some (held j)"
    using assms by (auto simp: rm_ok_def open_write_def inode_of_def lock_ex_def no_locks_def)
  show "remove_name (remote_file j) (held j) =
      (removable j, (removed j)\<lparr>writer := (writer (job_srv j))(inode_of j := Some (job_tid j))\<rparr>)"
    using n by (simp add: remove_name_def removable_def removed_def)
  have "writer (job_srv j) = (\<lambda>_. None)" "readers (job_srv j) = (\<lambda>_. {})"
    using assms by (auto simp: rm_ok_def no_locks_def)
  then show "unlock (job_tid j) (inode_of j) ((removed j)\<lparr>writer := (writer (job_srv j))(inode_of j := Some (job_tid j))\<rparr>) = removed j"
    by (cases "removable j") (simp_all add: unlock_def removed_def fun_upd_idem)
qed

inductive rm_views :: "job \<Rightarrow> nat \<Rightarrow> view \<Rightarrow> bool" for j where
  m11: "rm_ok j \<Longrightarrow> rm_views j 11 (job_srv j, client_thread (job_tid j), main (rm_args j), job_client j, [], [])"
| m10: "rm_ok j \<Longrightarrow> rm_views j 10 (job_srv j, client_thread (job_tid j), rm_reply, job_client j, rm_line j, [])"
| m9: "rm_ok j \<Longrightarrow> rm_views j 9 (job_srv j, handle_rm (job_tid j) (job_remote j), rm_reply, job_client j, [], [])"
| m8: "rm_ok j \<Longrightarrow> rm_views j 8 (job_srv j, query (\<lambda>s. case open_write s (remote_file j) of
      None \<Rightarrow> Send ''ERR_REMOVE_FAILED'' Close
    | Some i \<Rightarrow> with_lock_ex (job_tid j) (remote_file j) i (remove_file (job_tid j) (remote_file j) i)), rm_reply, job_client j, [], [])"
| m7: "rm_ok j \<Longrightarrow> rm_views j 7 (job_srv j, with_lock_ex (job_tid j) (remote_file j) (inode_of j)
    (remove_file (job_tid j) (remote_file j) (inode_of j)), rm_reply, job_client j, [], [])"
| m6: "rm_ok j \<Longrightarrow> rm_views j 6 (held j, remove_file (job_tid j) (remote_file j) (inode_of j), rm_reply, job_client j, [], [])"
| m5: "rm_ok j \<Longrightarrow> rm_views j 5 ((removed j)\<lparr>writer := (writer (job_srv j))(inode_of j := Some (job_tid j))\<rparr>,
    act (unlock (job_tid j) (inode_of j)) (Send (rm_answer j) Close), rm_reply, job_client j, [], [])"
| m4: "rm_ok j \<Longrightarrow> rm_views j 4 (removed j, Send (rm_answer j) Close, rm_reply, job_client j, [], [])"
| m3: "rm_ok j \<Longrightarrow> rm_views j 3 (removed j, Close, rm_reply, job_client j, [], rm_answer j)"
| m2: "rm_ok j \<Longrightarrow> rm_views j 2 (removed j, Close, say (rm_report j) (finish 0), job_client j, [], [])"
| m1: "rm_ok j \<Longrightarrow> rm_views j 1 (removed j, Close, finish 0,
    (job_client j)\<lparr>printed := printed (job_client j) @ [rm_report j]\<rparr>, [], [])"
| m0: "rm_ok j \<Longrightarrow> rm_views j 0 (removed j, Close, Close,
    (job_client j)\<lparr>printed := printed (job_client j) @ [rm_report j], status := Some 0\<rparr>, [], [])"

lemma rm_sstep: "rm_views j n v \<Longrightarrow> sstep v = Some v' \<Longrightarrow> \<exists>k<n. rm_views j k v'"
proof (induction rule: rm_views.cases)
  case m11 then show ?case by (simp add: rm_facts)
next
  case m10
  then show ?case using rm_views.m9 [of j] by (intro exI [of _ 9]) (auto simp: rm_facts)
next
  case m9
  then show ?case using rm_views.m8 [of j] rm_facts(5) [of j] by (intro exI [of _ 8]) auto
next
  case m8
  then show ?case using rm_views.m7 [of j] by (intro exI [of _ 7]) (auto simp: rm_facts)
next
  case m7
  then show ?case using rm_views.m6 [of j] by (intro exI [of _ 6]) (auto simp: rm_facts)
next
  case m6
  then show ?case using rm_views.m5 [of j] rm_facts(9) [of j] by (intro exI [of _ 5]) (auto simp: rm_answer_def)
next
  case m5
  then show ?case using rm_views.m4 [of j] rm_facts(10) [of j] by (intro exI [of _ 4]) auto
next
  case m4
  then show ?case using rm_views.m3 [of j] by (intro exI [of _ 3]) auto
qed simp_all

lemma rm_cstep: "rm_views j n v \<Longrightarrow> cstep v = Some v' \<Longrightarrow> \<exists>k<n. rm_views j k v'"
proof (induction rule: rm_views.cases)
  case m11
  then show ?case using rm_views.m10 [of j] by (intro exI [of _ 10]) (auto simp: rm_facts)
next
  case m3
  then have "v' = (removed j, Close, say (rm_report j) (finish 0), job_client j, [], [])"
    by (cases "removable j") (simp_all add: rm_answer_def cstr_def)
  with m3 show ?case using rm_views.m2 [of j] by (intro exI [of _ 2]) simp
next
  case m2
  then show ?case using rm_views.m1 [of j] by (intro exI [of _ 1]) auto
next
  case m1
  then show ?case using rm_views.m0 [of j] by (intro exI [of _ 0]) auto
qed simp_all

lemma rm_progress: "rm_views j (Suc n) v \<Longrightarrow> sstep v \<noteq> None \<or> cstep v \<noteq> None"
  by (induction "Suc n" v rule: rm_views.induct) (simp_all add: rm_facts)

interpretation rm_file: session rm_views
  using rm_sstep rm_cstep rm_progress by unfold_locales blast+

lemma rm_end: "rm_views j 0 v \<Longrightarrow> v = (removed j, Close, Close,
    (job_client j)\<lparr>printed := printed (job_client j) @ [rm_report j], status := Some 0\<rparr>, [], [])"
  by (induction "0::nat" v rule: rm_views.induct) auto

text \<open>C25: A removal of an existing file whose path is not read-only: the name is gone (or, if the
  directory does not allow it, everything is as before), file contents, permissions and locks
  are as before, and the client prints the answer and exits with 0 in both cases.\<close>

theorem rm_session:
  assumes "rm_ok j"
    and "reachable (connect (job_srv j) (only (job_tid j) (rm_args j)) (\<lambda>_. job_client j)) c"
  shows "(ended (job_tid j) c \<longrightarrow>
      thread c (job_tid j) = Close \<and> peer c (job_tid j) = Close
      \<and> srv c = (if can_remove (job_srv j) (remote_file j)
          then (job_srv j)\<lparr>names := (names (job_srv j))(remote_file j := None)\<rparr> else job_srv j)
      \<and> machine c (job_tid j) = (job_client j)\<lparr>printed := printed (job_client j) @
          [if can_remove (job_srv j) (remote_file j) then ''[Client] Server response: RM_OK''
           else ''[Client] Server response: ERR_REMOVE_FAILED''], status := Some 0\<rparr>)
    \<and> (\<exists>c'. reachable c c' \<and> ended (job_tid j) c')"
proof -
  note ends = rm_file.session_ends [OF rm_views.m11 [OF assms(1)] assms(2)]
  have "rm_views j 0 (view_of (job_tid j) c) \<Longrightarrow>
      srv c = removed j \<and> thread c (job_tid j) = Close \<and> peer c (job_tid j) = Close
      \<and> machine c (job_tid j) = (job_client j)\<lparr>printed := printed (job_client j) @ [rm_report j], status := Some 0\<rparr>"
    by (drule rm_end) (simp add: view_of_def)
  then show ?thesis using ends by (auto simp: removed_def rm_answer_def removable_def)
qed

theorem rm_session_witness:
  "\<exists>c. reachable (connect stored_server (only 3 [''RM'', ''b.txt'']) (\<lambda>_. sample_client)) c
     \<and> ended 3 c \<and> names (srv c) (file_of (full_path ''b.txt'')) = None \<and> status (machine c 3) = Some 0"
proof -
  have args: "rm_args stored_job = [''RM'', ''b.txt'']" by (simp add: rm_args_def stored_simps)
  have "get_file_permission (tab stored_server) ''b.txt'' = READ_WRITE"
    by (simp add: stored_server_def sample_server_def get_known)
  then have ok: "rm_ok stored_job"
    unfolding rm_ok_def stored_simps
    by (intro conjI sample_words)
      (simp_all add: rm_line_def stored_simps stored_server_def sample_server_def no_locks_def)
  note th = rm_session [OF ok, unfolded stored_simps args]
  obtain c where c: "reachable (connect stored_server (only 3 [''RM'', ''b.txt'']) (\<lambda>_. sample_client)) c" "ended 3 c"
    using th [OF reachable.refl] by blast
  have "can_remove stored_server (file_of (full_path ''b.txt''))" by (simp add: stored_server_def sample_server_def)
  with th [OF c(1)] c show ?thesis by auto
qed

end
