(* ===== verification/Rfs_Mix.thy ===== *)
theory Rfs_Mix
  imports Rfs_Write
begin

text \<open>
  Two uploads to the same path. Each request opens the file, which empties it, before it waits for the lock;
  when both have opened it, the second one to write covers only the beginning of what the first has
  written.
\<close>

section \<open>Runs of one connection among others\<close>

definition same_conn :: "tid \<Rightarrow> network \<Rightarrow> network \<Rightarrow> bool" where
  "same_conn u c c' \<longleftrightarrow> snd (view_of u c') = snd (view_of u c)"

lemma srv_step_same: "srv_step c t = Some c' \<Longrightarrow> u \<noteq> t \<Longrightarrow> same_conn u c c'"
  by (auto simp: srv_step_def same_conn_def view_of_def split: prog.splits if_splits)

lemma cli_step_same: "cli_step c t = Some c' \<Longrightarrow> u \<noteq> t \<Longrightarrow> same_conn u c c'"
  by (auto simp: cli_step_def same_conn_def view_of_def split: prog.splits if_splits)

lemma vrun_among:
  "vrun ws (view_of t c) = Some v \<Longrightarrow> \<exists>c'. reachable c c' \<and> view_of t c' = v \<and> (\<forall>u. u \<noteq> t \<longrightarrow> same_conn u c c')"
proof (induction ws arbitrary: c)
  case Nil
  then show ?case using reachable.refl by (intro exI [of _ c]) (auto simp: same_conn_def)
next
  case (Cons w ws)
  then obtain v1 where v1: "(if w then sstep (view_of t c) else cstep (view_of t c)) = Some v1" "vrun ws v1 = Some v"
    by (auto split: option.splits)
  obtain c1 where c1: "step c c1" "v1 = view_of t c1" "\<forall>u. u \<noteq> t \<longrightarrow> same_conn u c c1"
    using v1(1) view_srv_step [of t c] view_cli_step [of t c] step.intros [of c t] srv_step_same [of c t] cli_step_same [of c t]
    by (cases w) (auto simp: map_option_eq_Some)
  with Cons.IH v1(2) obtain c' where c': "reachable c1 c'" "view_of t c' = v" "\<forall>u. u \<noteq> t \<longrightarrow> same_conn u c1 c'" by blast
  have "reachable c c'" using c1(1) c'(1) net_trans reachable.intros by blast
  moreover have "\<forall>u. u \<noteq> t \<longrightarrow> same_conn u c c'" using c1(3) c'(3) by (simp add: same_conn_def)
  ultimately show ?case using c'(2) by blast
qed

lemma view_same: "same_conn u c c' \<Longrightarrow> view_of u c' = (srv c', snd (view_of u c))"
  by (simp add: same_conn_def view_of_def)

section \<open>The parts of an upload\<close>

text \<open>A request without a permission for a file that exists.\<close>

definition plain_upload :: "job \<Rightarrow> inode \<Rightarrow> char list \<Rightarrow> server \<Rightarrow> bool" where
  "plain_upload j i x s \<longleftrightarrow> good_request j \<and> job_perm j = None \<and> local (job_client j) (job_local j) = Some x
     \<and> x \<noteq> [] \<and> length x \<le> 1024 \<and> names s (remote_file j) = Some i \<and> can_write s (remote_file j)
     \<and> flock_works s (remote_file j) \<and> 1024 \<le> free_space s i
     \<and> wf_table (tab s) \<and> get_file_permission (tab s) (job_remote j) = READ_WRITE"

definition opened :: "job \<Rightarrow> inode \<Rightarrow> server \<Rightarrow> server" where
  "opened j i s = s\<lparr>tab := set_file_permission (tab s) (job_remote j) READ_WRITE, contents := (contents s)(i := [])\<rparr>"

definition written :: "inode \<Rightarrow> char list \<Rightarrow> server \<Rightarrow> server" where
  "written i x s = s\<lparr>contents := (contents s)(i := x @ drop (length x) (contents s i)),
     writer := (writer s)(i := None), readers := (readers s)(i := {})\<rparr>"

definition ok_line :: string where
  "ok_line = ''[Client] Server final response: WRITE_OK''"

lemma still_writable:
  assumes "wf_table tb" and "no_nul r" and "get_file_permission tb r = READ_WRITE"
  shows "wf_table (set_file_permission tb r READ_WRITE)" and "get_file_permission (set_file_permission tb r READ_WRITE) r = READ_WRITE"
proof -
  show "wf_table (set_file_permission tb r READ_WRITE)" by (rule wf_set [OF assms(1,2)])
  show "get_file_permission (set_file_permission tb r READ_WRITE) r = READ_WRITE"
    using assms by (cases "known tb r = None \<and> g_file_count tb < MAX_FILES") (auto simp: get_known set_new set_known set_full)
qed

text \<open>Up to the lock, with the file data already on its way.\<close>

lemma upload_opens:
  assumes "plain_upload j i x s" and "job_tid j = t"
  shows "vrun [False, True, True, True, True, True, True, False, False, False]
      (s, client_thread t, main (write_args j), job_client j, [], [])
    = Some (opened j i s, with_lock_ex t (remote_file j) i (receive_file t i), final_reply, job_client j, x, [])"
proof -
  have g: "good_request j" and p: "job_perm j = None" and x: "local (job_client j) (job_local j) = Some x" "x \<noteq> []" "length x \<le> 1024"
    and w: "wf_table (tab s)" "get_file_permission (tab s) (job_remote j) = READ_WRITE"
    using assms(1) by (simp_all add: plain_upload_def)
  have nn: "no_nul (job_remote j)" using g by (simp add: good_request_def)
  note sw = still_writable [OF w(1) nn w(2)]
  have o: "open_trunc (s\<lparr>tab := set_file_permission (tab s) (job_remote j) READ_WRITE\<rparr>) (remote_file j) = Some (i, opened j i s)"
    using assms(1) by (simp add: plain_upload_def open_trunc_def opened_def)
  have pp: "parse_perm None = READ_WRITE" by (simp add: parse_perm_def)
  have sf: "send_file x = Send x final_reply" using x(2,3) by (simp add: send_file_def BUF_SIZE_def)
  show ?thesis
    using write_command [OF g] dispatch_write [OF g] w(2) sw(2) o x starts_ready
    by (simp add: main_write p pp write_checked_def sf)
qed

text \<open>From the lock on.\<close>

lemma upload_writes:
  assumes "writer s i = None" and "readers s i = {}" and "flock_works s f" and "length x \<le> free_space s i" and "x \<noteq> []" and "length x \<le> 1024"
  shows "vrun [True, True, True, True, True, False, False, False]
      (s, with_lock_ex t f i (receive_file t i), final_reply, m, x, [])
    = Some (written i x s, Close, Close, m\<lparr>printed := printed m @ [ok_line], status := Some 0\<rparr>, [], [])"
proof -
  have "cstr ''WRITE_OK'' = ''WRITE_OK''" by simp
  then show ?thesis using assms by (simp add: lock_ex_def unlock_def written_def ok_line_def)
qed

section \<open>Two uploads\<close>

lemma opened_simps [simp]:
  "tab (opened j i s) = set_file_permission (tab s) (job_remote j) READ_WRITE" "names (opened j i s) = names s"
  "contents (opened j i s) i = []" "writer (opened j i s) = writer s" "readers (opened j i s) = readers s"
  "can_write (opened j i s) = can_write s" "flock_works (opened j i s) = flock_works s" "free_space (opened j i s) = free_space s"
  by (simp_all add: opened_def)

lemma written_simps [simp]:
  "contents (written i x s) i = x @ drop (length x) (contents s i)" "writer (written i x s) i = None" "readers (written i x s) i = {}"
  "flock_works (written i x s) = flock_works s" "free_space (written i x s) = free_space s"
  by (simp_all add: written_def)

definition reported :: "client \<Rightarrow> client" where
  "reported m = m\<lparr>printed := printed m @ [ok_line], status := Some 0\<rparr>"

definition at_rest :: "tid \<Rightarrow> client \<Rightarrow> network \<Rightarrow> bool" where
  "at_rest t m c \<longleftrightarrow> ended t c \<and> peer c t = Close \<and> machine c t = m"

lemma at_restI: "snd (view_of t c) = (Close, Close, m, [], []) \<Longrightarrow> at_rest t m c"
  by (simp add: at_rest_def ended_def view_of_def srv_step_def cli_step_def)

text \<open>Both requests have opened the file, and wait for the lock.\<close>

lemma uploads_open:
  assumes j: "plain_upload j i x s" and k: "plain_upload k i y s" and r: "job_remote k = job_remote j"
    and tu: "job_tid j \<noteq> job_tid k"
    and args: "args (job_tid j) = write_args j" "args (job_tid k) = write_args k"
    and cs: "cs (job_tid j) = job_client j" "cs (job_tid k) = job_client k"
  defines "t \<equiv> job_tid j" and "u \<equiv> job_tid k" and "s2 \<equiv> opened k i (opened j i s)"
  shows "\<exists>c. reachable (connect s args cs) c
    \<and> view_of t c = (s2, with_lock_ex t (remote_file j) i (receive_file t i), final_reply, job_client j, x, [])
    \<and> view_of u c = (s2, with_lock_ex u (remote_file k) i (receive_file u i), final_reply, job_client k, y, [])"
proof -
  let ?c0 = "connect s args cs"
  have ut: "u \<noteq> t" using tu by (simp add: t_def u_def)
  have nn: "no_nul (job_remote j)" using j by (simp add: plain_upload_def good_request_def)
  have k': "plain_upload k i y (opened j i s)"
    using k j r still_writable [OF _ nn, of "tab s"] by (simp add: plain_upload_def)
  have v0: "view_of t ?c0 = (s, client_thread t, main (write_args j), job_client j, [], [])"
    "snd (view_of u ?c0) = (client_thread u, main (write_args k), job_client k, [], [])"
    using args cs by (simp_all add: view_of_def connect_def t_def u_def)
  obtain c1 where c1: "reachable ?c0 c1" "same_conn u ?c0 c1"
    "view_of t c1 = (opened j i s, with_lock_ex t (remote_file j) i (receive_file t i), final_reply, job_client j, x, [])"
    using vrun_among [of _ t ?c0, unfolded v0(1), OF upload_opens [OF j t_def [symmetric, THEN meta_eq_to_obj_eq]]] ut by blast
  have "view_of u c1 = (opened j i s, client_thread u, main (write_args k), job_client k, [], [])"
    using view_same [OF c1(2)] v0(2) c1(3) by (simp add: view_of_def)
  then obtain c2 where c2: "reachable c1 c2" "same_conn t c1 c2"
    "view_of u c2 = (s2, with_lock_ex u (remote_file k) i (receive_file u i), final_reply, job_client k, y, [])"
    using vrun_among [of _ u c1] upload_opens [OF k' u_def [symmetric, THEN meta_eq_to_obj_eq]] ut unfolding s2_def by metis
  have "view_of t c2 = (s2, with_lock_ex t (remote_file j) i (receive_file t i), final_reply, job_client j, x, [])"
    using view_same [OF c2(2)] c1(3) c2(3) by (simp add: view_of_def)
  with c2(3) net_trans [OF c2(1) c1(1)] show ?thesis by blast
qed

text \<open>C26: Two clients that upload to the same path at the same time can leave a file that neither has
  sent: both requests empty the file before the first one takes the lock, and the second to
  write then covers only the beginning of the first. Both clients are told WRITE_OK and exit
  with 0.\<close>

theorem concurrent_uploads_mix:
  assumes j: "plain_upload j i x s" and k: "plain_upload k i y s" and r: "job_remote k = job_remote j"
    and tu: "job_tid j \<noteq> job_tid k" and free: "no_locks s"
    and args: "args (job_tid j) = write_args j" "args (job_tid k) = write_args k"
    and cs: "cs (job_tid j) = job_client j" "cs (job_tid k) = job_client k"
  shows "\<exists>c. reachable (connect s args cs) c
    \<and> at_rest (job_tid j) (reported (job_client j)) c \<and> at_rest (job_tid k) (reported (job_client k)) c
    \<and> contents (srv c) i = y @ drop (length y) x"
proof -
  let ?t = "job_tid j" and ?u = "job_tid k" and ?c0 = "connect s args cs"
  let ?s2 = "opened k i (opened j i s)"
  have ut: "?u \<noteq> ?t" using tu by simp
  obtain c2 where c2: "reachable ?c0 c2"
    "view_of ?t c2 = (?s2, with_lock_ex ?t (remote_file j) i (receive_file ?t i), final_reply, job_client j, x, [])"
    "view_of ?u c2 = (?s2, with_lock_ex ?u (remote_file k) i (receive_file ?u i), final_reply, job_client k, y, [])"
    using uploads_open [OF j k r tu, of args cs, OF args cs] by blast
  have free2: "writer ?s2 i = None" "readers ?s2 i = {}" using free by (simp_all add: no_locks_def)
  have x: "flock_works ?s2 (remote_file j)" "length x \<le> free_space ?s2 i" "x \<noteq> []" "length x \<le> 1024"
    using j by (simp_all add: plain_upload_def)
  obtain c3 where c3: "reachable c2 c3" "same_conn ?u c2 c3"
    "view_of ?t c3 = (written i x ?s2, Close, Close, reported (job_client j), [], [])"
    using vrun_among [of _ ?t c2, unfolded c2(2), OF upload_writes [OF free2 x]] ut unfolding reported_def by blast
  have u3: "view_of ?u c3 = (written i x ?s2, with_lock_ex ?u (remote_file k) i (receive_file ?u i), final_reply, job_client k, y, [])"
    using view_same [OF c3(2)] c2(3) c3(3) by (simp add: view_of_def)
  have y: "writer (written i x ?s2) i = None" "readers (written i x ?s2) i = {}" "flock_works (written i x ?s2) (remote_file k)"
    "length y \<le> free_space (written i x ?s2) i" "y \<noteq> []" "length y \<le> 1024"
    using k by (simp_all add: plain_upload_def)
  obtain c4 where c4: "reachable c3 c4" "same_conn ?t c3 c4"
    "view_of ?u c4 = (written i y (written i x ?s2), Close, Close, reported (job_client k), [], [])"
    using vrun_among [of _ ?u c3, unfolded u3, OF upload_writes [OF y]] tu unfolding reported_def by blast
  have "reachable ?c0 c4" using c2(1) c3(1) c4(1) net_trans by blast
  moreover have "at_rest ?u (reported (job_client k)) c4" using c4(3) by (intro at_restI) simp
  moreover have "at_rest ?t (reported (job_client j)) c4" using c4(2) c3(3) by (intro at_restI) (simp add: same_conn_def)
  moreover have "contents (srv c4) i = y @ drop (length y) x" using c4(3) by (simp add: view_of_def)
  ultimately show ?thesis by blast
qed

definition mix_server :: server where
  "mix_server = sample_server\<lparr>names := [file_of (full_path ''b.txt'') \<mapsto> 7]\<rparr>"

definition mix_job :: "tid \<Rightarrow> char list \<Rightarrow> job" where
  "mix_job t x = (sample_job ''a.txt'' None)\<lparr>job_tid := t, job_client := sample_client\<lparr>local := [''a.txt'' \<mapsto> x]\<rparr>\<rparr>"

lemma mix_upload: "x \<noteq> [] \<Longrightarrow> length x \<le> 1024 \<Longrightarrow> plain_upload (mix_job t x) 7 x mix_server"
  using sample_request(1) by (simp add: plain_upload_def mix_job_def mix_server_def sample_job_def sample_server_def
      sample_client_def good_request_def write_line_def get_known)

theorem concurrent_uploads_mix_witness:
  "\<exists>c. reachable (connect mix_server (\<lambda>_. [''WRITE'', ''a.txt'', ''b.txt'']) (\<lambda>t. job_client (mix_job t (if t = 1 then ''winter'' else ''sun'')))) c
    \<and> contents (srv c) 7 = ''sunter''"
proof -
  let ?j = "mix_job 1 ''winter''" and ?k = "mix_job 2 ''sun''"
  have eqs: "job_tid (mix_job t x) = t" "job_remote (mix_job t x) = ''b.txt''" "write_args (mix_job t x) = [''WRITE'', ''a.txt'', ''b.txt'']" for t x
    by (simp_all add: mix_job_def sample_job_def write_args_def)
  let ?cs = "\<lambda>t. job_client (mix_job t (if t = 1 then ''winter'' else ''sun''))"
  have l: "no_locks mix_server" by (simp add: no_locks_def mix_server_def sample_server_def)
  have up: "plain_upload ?j 7 ''winter'' mix_server" "plain_upload ?k 7 ''sun'' mix_server" by (simp_all add: mix_upload)
  have a: "job_remote ?k = job_remote ?j" "job_tid ?j \<noteq> job_tid ?k" "[''WRITE'', ''a.txt'', ''b.txt''] = write_args ?j"
    "[''WRITE'', ''a.txt'', ''b.txt''] = write_args ?k" "?cs (job_tid ?j) = job_client ?j" "?cs (job_tid ?k) = job_client ?k"
    by (simp_all add: eqs)
  obtain c where "reachable (connect mix_server (\<lambda>_. [''WRITE'', ''a.txt'', ''b.txt'']) ?cs) c"
    "contents (srv c) 7 = ''sun'' @ drop (length ''sun'') ''winter''"
    using concurrent_uploads_mix [of ?j 7 "''winter''" mix_server ?k "''sun''" "\<lambda>_. [''WRITE'', ''a.txt'', ''b.txt'']" ?cs,
        OF up a(1,2) l a(3-6)] by blast
  then show ?thesis by auto
qed

text \<open>Before both have written: one of them has the lock, and the other waits.\<close>

lemma one_waits:
  "\<exists>c. reachable (connect mix_server (\<lambda>_. [''WRITE'', ''a.txt'', ''b.txt'']) (\<lambda>t. job_client (mix_job t ''sun''))) c
    \<and> thread c 1 = receive_file 1 7 \<and> writer (srv c) 7 = Some 1 \<and> readers (srv c) 7 = {}
    \<and> thread c 2 = with_lock_ex 2 (file_of (full_path ''b.txt'')) 7 (receive_file 2 7) \<and> srv_step c 2 = None"
proof -
  let ?args = "\<lambda>_. [''WRITE'', ''a.txt'', ''b.txt'']" and ?cs = "\<lambda>t. job_client (mix_job t ''sun'')"
  let ?j = "mix_job 1 ''sun''" and ?k = "mix_job 2 ''sun''" and ?f = "file_of (full_path ''b.txt'')"
  have eqs: "job_tid (mix_job t x) = t" "job_remote (mix_job t x) = ''b.txt''"
    "write_args (mix_job t x) = [''WRITE'', ''a.txt'', ''b.txt'']" for t x
    by (simp_all add: mix_job_def sample_job_def write_args_def)
  have up: "plain_upload ?j 7 ''sun'' mix_server" "plain_upload ?k 7 ''sun'' mix_server" by (simp_all add: mix_upload)
  have none: "no_locks mix_server" by (simp add: no_locks_def mix_server_def sample_server_def)
  have a: "job_remote ?k = job_remote ?j" "job_tid ?j \<noteq> job_tid ?k" "?args (job_tid ?j) = write_args ?j"
    "?args (job_tid ?k) = write_args ?k" "?cs (job_tid ?j) = job_client ?j" "?cs (job_tid ?k) = job_client ?k"
    by (simp_all add: eqs)
  obtain c where c: "reachable (connect mix_server ?args ?cs) c"
    "thread c 1 = with_lock_ex 1 ?f 7 (receive_file 1 7)" "thread c 2 = with_lock_ex 2 ?f 7 (receive_file 2 7)"
    "srv c = opened ?k 7 (opened ?j 7 mix_server)"
    using uploads_open [OF up a(1,2), of ?args ?cs, OF a(3-6)] by (auto simp only: eqs view_of_def prod.inject)
  let ?c = "c\<lparr>srv := (srv c)\<lparr>writer := (writer (srv c))(7 := Some 1)\<rparr>, thread := (thread c)(1 := receive_file 1 7)\<rparr>"
  have "flock_works (srv c) ?f" "writer (srv c) 7 = None" "readers (srv c) 7 = {}"
    using none up(1) by (simp_all add: c(4) no_locks_def plain_upload_def eqs)
  then have "srv_step c 1 = Some ?c" "srv_step ?c 2 = None" "readers (srv ?c) 7 = {}"
    using c(2,3) by (simp_all add: srv_step_def with_lock_ex_def lock_ex_def)
  moreover have "reachable (connect mix_server ?args ?cs) ?c"
    using reachable.step [OF c(1) step.server [OF \<open>srv_step c 1 = Some ?c\<close>]] .
  moreover have "thread ?c 1 = receive_file 1 7" "writer (srv ?c) 7 = Some 1"
    "thread ?c 2 = with_lock_ex 2 ?f 7 (receive_file 2 7)" using c(3) by simp_all
  ultimately show ?thesis by blast
qed

end
