(* ===== verification/Rfs_Theorems.thy ===== *)
theory Rfs_Theorems
  imports Rfs_Refuse Rfs_Remove Rfs_Mix
begin

text \<open>
  Properties of the remote file system: the permission table as a map, which step of
  any number of clients may change a file, and what a file has become after it was stored and fetched.
\<close>

section \<open>The permission table\<close>

text \<open>The table as a list of pairs: the first setting of a path counts, with room for a hundred paths, of
  which the first 255 characters are kept.\<close>

fun spec_set :: "string \<times> permission_t \<Rightarrow> (string \<times> permission_t) list \<Rightarrow> (string \<times> permission_t) list" where
  "spec_set (path, p) m = (if map_of m path \<noteq> None \<or> 100 \<le> length m then m else m @ [(take 255 path, p)])"

fun set_entry :: "string \<times> permission_t \<Rightarrow> table \<Rightarrow> table" where
  "set_entry (path, p) tb = set_file_permission tb path p"

definition stands_for :: "table \<Rightarrow> (string \<times> permission_t) list \<Rightarrow> bool" where
  "stands_for tb m \<longleftrightarrow> wf_table tb \<and> known tb = map_of m \<and> g_file_count tb = int (length m)"

lemma stands_for_set:
  assumes "stands_for tb m" and "no_nul path"
  shows "stands_for (set_file_permission tb path p) (spec_set (path, p) m)"
proof (cases "map_of m path = None \<and> length m < 100")
  case True
  then have n: "known tb path = None" "g_file_count tb < MAX_FILES" "wf_table tb"
    using assms(1) by (auto simp: stands_for_def MAX_FILES_def)
  show ?thesis
    using set_new [OF n(3,1,2) assms(2)] True assms(1)
    by (auto simp: stands_for_def map_of_append map_add_def fun_eq_iff split: option.splits)
next
  case False
  then have "known tb path \<noteq> None \<or> MAX_FILES \<le> g_file_count tb"
    using assms(1) by (auto simp: stands_for_def MAX_FILES_def)
  then have "set_file_permission tb path p = tb" using set_known set_full by blast
  moreover have "spec_set (path, p) m = m"
    using False by (cases "map_of m path = None") (simp_all add: not_less)
  ultimately show ?thesis using assms(1) by simp
qed

lemma stands_for_fold:
  "stands_for tb m \<Longrightarrow> \<forall>(path, p) \<in> set ops. no_nul path \<Longrightarrow> stands_for (fold set_entry ops tb) (fold spec_set ops m)"
proof (induction ops arbitrary: tb m)
  case (Cons a ops)
  obtain path p where a: "a = (path, p)" by (cases a)
  have "stands_for (set_entry a tb) (spec_set a m)"
    using stands_for_set [OF Cons.prems(1)] Cons.prems(2) unfolding a set_entry.simps by simp
  then show ?case using Cons.IH Cons.prems(2) by simp
qed simp

lemma stands_for_empty: "stands_for empty_table []"
  using known_empty by (auto simp: stands_for_def fun_eq_iff) (simp add: empty_table_def)

text \<open>C30: The permission table is a map in which the first setting of a path counts: after any
  settings, what is looked up is what a list of at most a hundred pairs gives, with paths cut to
  255 characters and read-write for unknown ones.\<close>

theorem permission_table_refines:
  assumes "\<forall>(path, p) \<in> set ops. no_nul path"
  shows "get_file_permission (fold set_entry ops empty_table) path =
    (case map_of (fold spec_set ops []) path of Some p \<Rightarrow> p | None \<Rightarrow> READ_WRITE)"
  using stands_for_fold [OF stands_for_empty assms] by (simp add: get_known stands_for_def)

theorem permission_table_refines_witness:
  "get_file_permission (fold set_entry [(''a'', READ_ONLY), (''a'', READ_WRITE)] empty_table) ''a'' = READ_ONLY"
  by (subst permission_table_refines) simp_all

lemma spec_set_cases: "spec_set e m = m \<or> spec_set e m = m @ [(take 255 (fst e), snd e)]"
  by (cases e) (simp only: spec_set.simps fst_conv snd_conv split: if_split, blast)

lemma spec_keys: "\<forall>e \<in> set m. length (fst e) \<le> 255 \<Longrightarrow> \<forall>e \<in> set (fold spec_set ops m). length (fst e) \<le> 255"
proof (induction ops arbitrary: m)
  case (Cons a ops)
  have "\<forall>e \<in> set (m @ [(take 255 (fst a), snd a)]). length (fst e) \<le> 255" using Cons.prems by simp
  with Cons.prems spec_set_cases [of a m] have "\<forall>e \<in> set (spec_set a m). length (fst e) \<le> 255" by metis
  then show ?case using Cons.IH by simp
qed simp

lemma spec_sticky: "map_of m path = Some p \<Longrightarrow> map_of (fold spec_set ops m) path = Some p"
proof (induction ops arbitrary: m)
  case (Cons a ops)
  from spec_set_cases [of a m] have "map_of (spec_set a m) path = Some p" by (rule disjE) (use Cons.prems in simp_all)
  then show ?case using Cons.IH by simp
qed simp

text \<open>A path that is read-only stays so whatever is set later; a path of more than 255 characters
  never becomes read-only; the count never exceeds 100.\<close>

theorem read_only_is_final:
  assumes "\<forall>(path, p) \<in> set (before @ after). no_nul path"
  shows "(get_file_permission (fold set_entry before empty_table) path = READ_ONLY \<longrightarrow>
      get_file_permission (fold set_entry (before @ after) empty_table) path = READ_ONLY)
    \<and> (255 < length path \<longrightarrow> get_file_permission (fold set_entry before empty_table) path = READ_WRITE)
    \<and> g_file_count (fold set_entry before empty_table) \<le> 100"
proof (intro conjI impI)
  have b: "stands_for (fold set_entry before empty_table) (fold spec_set before [])"
    and ba: "stands_for (fold set_entry (before @ after) empty_table) (fold spec_set after (fold spec_set before []))"
    using stands_for_fold [OF stands_for_empty, of before] stands_for_fold [OF stands_for_empty assms] assms by auto
  then show "g_file_count (fold set_entry before empty_table) \<le> 100"
    by (simp add: stands_for_def wf_table_def MAX_FILES_def)
  show "get_file_permission (fold set_entry (before @ after) empty_table) path = READ_ONLY"
    if "get_file_permission (fold set_entry before empty_table) path = READ_ONLY"
  proof -
    have "map_of (fold spec_set before []) path = Some READ_ONLY"
      using that b by (auto simp: get_known stands_for_def split: option.splits)
    then show ?thesis using ba spec_sticky by (simp add: get_known stands_for_def)
  qed
  show "get_file_permission (fold set_entry before empty_table) path = READ_WRITE" if "255 < length path"
  proof -
    have "path \<notin> fst ` set (fold spec_set before [])" using spec_keys [of "[]" before] that by fastforce
    then have "map_of (fold spec_set before []) path = None" by (simp add: map_of_eq_None_iff)
    then show ?thesis using b by (simp add: get_known stands_for_def)
  qed
qed

theorem read_only_is_final_witness:
  "get_file_permission (fold set_entry ([(''a'', READ_ONLY)] @ [(''a'', READ_WRITE), (''b'', READ_ONLY)]) empty_table) ''a'' = READ_ONLY"
proof -
  have "get_file_permission (fold set_entry [(''a'', READ_ONLY)] empty_table) ''a'' = READ_ONLY"
    using stands_for_fold [OF stands_for_empty, of "[(''a'', READ_ONLY)]"] by (simp add: get_known stands_for_def)
  then show ?thesis
    using read_only_is_final [of "[(''a'', READ_ONLY)]" "[(''a'', READ_WRITE), (''b'', READ_ONLY)]" "''a''"] by simp
qed

section \<open>Locks\<close>

text \<open>Whatever the interleaving, a step that gives a file contents other than the empty one is
  made by the thread that holds the exclusive lock on it, while nobody holds a shared one.\<close>

theorem file_changes_need_lock:
  assumes "no_locks s" and "reachable (connect s args cs) c" and "step c c'"
    and "contents (srv c') i \<noteq> contents (srv c) i"
  shows "contents (srv c') i = [] \<or>
    (\<exists>t. srv_step c t = Some c' \<and> writer (srv c) i = Some t \<and> readers (srv c) i = {})"
  using change_needs_lock [OF lock_inv_reachable [OF assms(2) lock_inv_connect [OF assms(1)]] assms(3,4)] by blast

lemma some_step_changes:
  assumes "reachable c0 c" and "contents (srv c) i \<noteq> contents (srv c0) i"
  shows "\<exists>d d'. reachable c0 d \<and> step d d' \<and> contents (srv d') i \<noteq> contents (srv d) i"
  using assms
proof (induction rule: reachable.induct)
  case (step c c')
  show ?case
  proof (cases "contents (srv c) i = contents (srv c0) i")
    case True
    with step.prems have "contents (srv c') i \<noteq> contents (srv c) i" by simp
    with step.hyps show ?thesis by blast
  qed (rule step.IH)
qed simp

theorem file_changes_need_lock_witness:
  "\<exists>c c'. reachable (connect sample_server (only 3 [''WRITE'', ''a.txt'', ''b.txt'']) (\<lambda>_. sample_client)) c
     \<and> step c c' \<and> contents (srv c') 7 \<noteq> contents (srv c) 7
     \<and> (contents (srv c') 7 = [] \<or>
         (\<exists>t. srv_step c t = Some c' \<and> writer (srv c) 7 = Some t \<and> readers (srv c) 7 = {}))"
proof -
  let ?c0 = "connect sample_server (only 3 [''WRITE'', ''a.txt'', ''b.txt'']) (\<lambda>_. sample_client)"
  have none: "no_locks sample_server" by (simp add: sample_server_def no_locks_def)
  obtain e where e: "reachable ?c0 e" "contents (srv e) 7 = ''hello''"
    using sample_uploaded by blast
  have "contents (srv ?c0) 7 = []" by (simp add: connect_def sample_server_def)
  with e(2) have "contents (srv e) 7 \<noteq> contents (srv ?c0) 7" by (simp only: list.distinct not_False_eq_True)
  from some_step_changes [OF e(1) this]
  obtain c c' where c: "reachable ?c0 c" "step c c'" "contents (srv c') 7 \<noteq> contents (srv c) 7" by blast
  with file_changes_need_lock [OF none c] show ?thesis by blast
qed

text \<open>The other change, the truncation when a file is opened for upload, needs no lock: it
  empties the file even while readers or a writer hold locks on it.\<close>

theorem truncation_ignores_locks:
  assumes "thread c t = open_and_receive t f" and "names (srv c) f = Some i" and "can_write (srv c) f"
  shows "\<exists>c'. srv_step c t = Some c' \<and> contents (srv c') i = []
    \<and> writer (srv c') = writer (srv c) \<and> readers (srv c') = readers (srv c)
    \<and> thread c' t = with_lock_ex t f i (receive_file t i)"
  using assms by (simp add: srv_step_def open_and_receive_def open_trunc_def)

theorem truncation_ignores_locks_witness:
  "let f = file_of (full_path ''b.txt'');
       c = (connect (stored_server\<lparr>readers := (\<lambda>_. {5})\<rparr>) (\<lambda>_. []) (\<lambda>_. sample_client))
             \<lparr>thread := (\<lambda>_. open_and_receive 2 f)\<rparr>
   in \<exists>c'. srv_step c 2 = Some c' \<and> contents (srv c) 7 = ''hello'' \<and> contents (srv c') 7 = [] \<and> readers (srv c') 7 = {5}"
proof -
  let ?f = "file_of (full_path ''b.txt'')"
  let ?c = "(connect (stored_server\<lparr>readers := (\<lambda>_. {5})\<rparr>) (\<lambda>_. []) (\<lambda>_. sample_client))
             \<lparr>thread := (\<lambda>_. open_and_receive 2 ?f)\<rparr>"
  have "thread ?c 2 = open_and_receive 2 ?f" "names (srv ?c) ?f = Some 7" "can_write (srv ?c) ?f"
    "contents (srv ?c) 7 = ''hello''" "readers (srv ?c) 7 = {5}"
    by (simp_all add: connect_def stored_server_def sample_server_def)
  with truncation_ignores_locks [of ?c 2 ?f 7] show ?thesis by (auto simp: Let_def)
qed

section \<open>What is stored and fetched\<close>

text \<open>C24: What an upload has stored is what a later download of the same path delivers: its first
  1024 bytes, or their last 16 bytes at most if the answer and the data arrive together.\<close>

theorem stored_then_fetched:
  assumes "upload_ok j file"
    and "reachable (connect (job_srv j) (only (job_tid j) (write_args j)) (\<lambda>_. job_client j)) c" and "ended (job_tid j) c"
    and "job_srv k = srv c" and "job_remote k = job_remote j" and "get_ok k" and "read_works (srv c) (target j)"
    and "reachable (connect (srv c) (only (job_tid k) (get_args k)) (\<lambda>_. job_client k)) d" and "ended (job_tid k) d"
  shows "machine d (job_tid k) \<in> {downloaded k (take 1024 file), downloaded k (drop 1008 (take 1024 file))}"
proof -
  have up: "srv c = uploaded j" using upload_result(1) [OF assms(1-3)] by simp
  have "inode_of k = target j"
    using uploaded_simps(1) [OF assms(1)] by (simp add: inode_of_def assms(4,5) up)
  then have "payload k = take 1024 file"
    using uploaded_simps(2) [OF assms(1)] assms(7) by (simp add: payload_def assms(4) read_start_def up BUF_SIZE_def)
  moreover have "machine d (job_tid k) \<in> {downloaded k (payload k), downloaded k (drop 1008 (payload k))}"
    using get_result(1) [OF assms(6) assms(8) [folded assms(4)] assms(9)] by simp
  ultimately show ?thesis by simp
qed

theorem stored_then_fetched_witness:
  "\<exists>c d. reachable (connect sample_server (only 3 [''WRITE'', ''a.txt'', ''b.txt'']) (\<lambda>_. sample_client)) c \<and> ended 3 c
     \<and> reachable (connect (srv c) (only 3 [''GET'', ''b.txt'', ''a.txt'']) (\<lambda>_. sample_client)) d \<and> ended 3 d
     \<and> local (machine d 3) \<in> {local sample_client, (local sample_client)(''a.txt'' \<mapsto> ''hello'')}"
proof -
  let ?j = "sample_job ''a.txt'' None"
  have js: "job_tid ?j = 3" "job_srv ?j = sample_server" "job_client ?j = sample_client" "job_remote ?j = ''b.txt''"
    "job_local ?j = ''a.txt''" "write_args ?j = [''WRITE'', ''a.txt'', ''b.txt'']"
    by (simp_all add: sample_job_def write_args_def)
  obtain c where c: "reachable (connect sample_server (only 3 [''WRITE'', ''a.txt'', ''b.txt'']) (\<lambda>_. sample_client)) c" "ended 3 c"
    using upload_result(2) [OF sample_upload, unfolded js, OF reachable.refl] by blast
  have up: "srv c = uploaded ?j"
    using upload_result(1) [OF sample_upload, unfolded js, OF c] by (simp add: js)
  let ?k = "?j\<lparr>job_srv := srv c\<rparr>"
  have ks: "job_tid ?k = 3" "job_srv ?k = srv c" "job_client ?k = sample_client" "job_remote ?k = ''b.txt''"
    "job_local ?k = ''a.txt''" "get_args ?k = [''GET'', ''b.txt'', ''a.txt'']"
    by (simp_all add: js sample_job_def get_args_def)
  have caps: "can_read (srv c) f" "flock_works (srv c) f" "read_works (srv c) i" for f i
    unfolding up unlock_def after_save_def after_lock_def after_open_def after_set_def open_trunc_def
    by (simp_all add: js sample_server_def Let_def)
  have "get_ok ?k"
    unfolding get_ok_def ks
    using uploaded_simps(1,5) [OF sample_upload] caps
    by (intro conjI sample_words) (simp_all add: get_line_def ks up js sample_client_def)
  note th = stored_then_fetched [OF sample_upload, unfolded js, OF c, of ?k, unfolded ks, OF HOL.refl HOL.refl this caps(3)]
  obtain d where d: "reachable (connect (srv c) (only 3 [''GET'', ''b.txt'', ''a.txt'']) (\<lambda>_. sample_client)) d" "ended 3 d"
    using get_result(2) [OF \<open>get_ok ?k\<close>, unfolded ks, OF reachable.refl] by blast
  have "local (machine d 3) \<in> {local sample_client, (local sample_client)(''a.txt'' \<mapsto> ''hello'')}"
    using th [OF d] by (auto simp: downloaded_def ks js sample_job_def)
  with c d show ?thesis by blast
qed

end
