(* ===== verification/Fifo_Interface.thy ===== *)
theory Fifo_Interface
  imports C_Prelude "HOL-Library.Sublist" "HOL-Library.Extended_Nat"
begin

text \<open>
  The contract of a first-in first-out queue, which three components of the repository implement: the
  doubly linked queue of \<open>week5\<close>, the linked queue of strings of \<open>week6\<close> and the ring buffer of
  \<open>week7\<close>. \<open>rep s xs\<close> relates a state of the implementation to the elements it holds, oldest first;
  \<open>accepts s\<close> says whether a put in this state stores its value (an allocation may fail, the ring
  buffer may be full); \<open>storable\<close> are the values the queue can hold; below \<open>limit\<close> elements its
  \<open>int\<close> counter does not overflow. The client's view, a run of operations, is treated once. Where a
  put is accepted exactly below a capacity (\<open>bounded_fifo\<close>), or always (\<open>unbounded_fifo\<close>, a bounded one of
  capacity \<open>\<infinity>\<close>), a run gives exactly the answers of the abstract queue \<open>spec_run\<close>.
\<close>

datatype 'v fifo_op = Put 'v | Get

text \<open>A run of operations: the values that were stored, the answers of the gets (\<open>None\<close> when the queue
  was empty), and the final state.\<close>

fun run_ops ::
  "('v \<Rightarrow> 's \<Rightarrow> 's c) \<Rightarrow> ('s \<Rightarrow> ('v option \<times> 's) c) \<Rightarrow> ('s \<Rightarrow> bool) \<Rightarrow> 'v fifo_op list \<Rightarrow> 's \<Rightarrow>
   ('v list \<times> 'v option list \<times> 's) c" where
  "run_ops put get accepts [] s = Some ([], [], s)"
| "run_ops put get accepts (Put v # ops) s = do {
     s' \<leftarrow> put v s;
     (ins, outs, s'') \<leftarrow> run_ops put get accepts ops s';
     Some ((if accepts s then v # ins else ins), outs, s'')
   }"
| "run_ops put get accepts (Get # ops) s = do {
     (r, s') \<leftarrow> get s;
     (ins, outs, s'') \<leftarrow> run_ops put get accepts ops s';
     Some (ins, r # outs, s'')
   }"

definition puts :: "'v fifo_op list \<Rightarrow> 'v list" where
  "puts ops = concat (map (\<lambda>p. case p of Put v \<Rightarrow> [v] | Get \<Rightarrow> []) ops)"

lemma puts_simps [simp]:
  "puts [] = []" "puts (Put v # ops) = v # puts ops" "puts (Get # ops) = puts ops"
  by (simp_all add: puts_def)

text \<open>The values a list of answers delivered.\<close>

definition delivered_values :: "'v option list \<Rightarrow> 'v list" where
  "delivered_values outs = map the (filter (\<lambda>r. r \<noteq> None) outs)"

lemma delivered_values_simps [simp]:
  "delivered_values [] = []" "delivered_values (None # outs) = delivered_values outs"
  "delivered_values (Some v # outs) = v # delivered_values outs"
  by (simp_all add: delivered_values_def)

text \<open>The abstract queue, a list of at most \<open>cap\<close> elements, oldest first: the answers of a run and what
  is left. A put into a full queue is dropped.\<close>

fun spec_run :: "enat \<Rightarrow> 'v fifo_op list \<Rightarrow> 'v list \<Rightarrow> 'v option list \<times> 'v list" where
  "spec_run cap [] xs = ([], xs)"
| "spec_run cap (Put v # ops) xs = spec_run cap ops (if enat (length xs) < cap then xs @ [v] else xs)"
| "spec_run cap (Get # ops) [] = (let (outs, ys) = spec_run cap ops [] in (None # outs, ys))"
| "spec_run cap (Get # ops) (x # xs) = (let (outs, ys) = spec_run cap ops xs in (Some x # outs, ys))"

locale fifo =
  fixes rep :: "'s \<Rightarrow> 'v list \<Rightarrow> bool"
    and put :: "'v \<Rightarrow> 's \<Rightarrow> 's c"
    and get :: "'s \<Rightarrow> ('v option \<times> 's) c"
    and accepts :: "'s \<Rightarrow> bool"
    and storable :: "'v \<Rightarrow> bool"
    and limit :: nat
  assumes put_stores:
      "rep s xs \<Longrightarrow> storable v \<Longrightarrow> accepts s \<Longrightarrow> length xs < limit \<Longrightarrow>
       \<exists>s'. put v s = Some s' \<and> rep s' (xs @ [v])"
    and put_rejects:
      "rep s xs \<Longrightarrow> storable v \<Longrightarrow> \<not> accepts s \<Longrightarrow> \<exists>s'. put v s = Some s' \<and> rep s' xs"
    and get_oldest: "rep s (x # xs) \<Longrightarrow> \<exists>s'. get s = Some (Some x, s') \<and> rep s' xs"
    and get_empty: "rep s [] \<Longrightarrow> \<exists>s'. get s = Some (None, s') \<and> rep s' []"
begin

text \<open>Every run is defined, and what was in the queue followed by what was stored is what came out
  followed by what is left: nothing is lost, duplicated or reordered.\<close>

lemma run_conserves:
  assumes "rep s xs" and "\<forall>v \<in> set (puts ops). storable v" and "length xs + length (puts ops) \<le> limit"
  shows "\<exists>ins outs s' ys. run_ops put get accepts ops s = Some (ins, outs, s') \<and> rep s' ys
    \<and> xs @ ins = delivered_values outs @ ys \<and> subseq ins (puts ops)"
  using assms
proof (induction ops arbitrary: s xs)
  case Nil
  then show ?case by simp
next
  case (Cons p ops)
  show ?case
  proof (cases p)
    case (Put v)
    with Cons.prems have st: "storable v" "length xs < limit" "\<forall>v \<in> set (puts ops). storable v" by auto
    show ?thesis
    proof (cases "accepts s")
      case True
      with put_stores Cons.prems(1) st obtain s1 where s1: "put v s = Some s1" "rep s1 (xs @ [v])"
        by blast
      then obtain ins outs s' ys where "run_ops put get accepts ops s1 = Some (ins, outs, s')" "rep s' ys"
        "(xs @ [v]) @ ins = delivered_values outs @ ys" "subseq ins (puts ops)"
        using Cons.IH [OF s1(2) st(3)] Cons.prems(3) Put by auto
      with Put True s1 show ?thesis by auto
    next
      case False
      with put_rejects Cons.prems(1) st obtain s1 where s1: "put v s = Some s1" "rep s1 xs" by blast
      then obtain ins outs s' ys where "run_ops put get accepts ops s1 = Some (ins, outs, s')" "rep s' ys"
        "xs @ ins = delivered_values outs @ ys" "subseq ins (puts ops)"
        using Cons.IH [OF s1(2) st(3)] Cons.prems(3) Put by auto
      with Put False s1 show ?thesis by auto
    qed
  next
    case Get
    with Cons.prems have ok: "\<forall>v \<in> set (puts ops). storable v" by simp
    obtain r s1 zs where s1: "get s = Some (r, s1)" "rep s1 zs" "xs = delivered_values [r] @ zs"
    proof (cases xs)
      case Nil
      with get_empty Cons.prems(1) that [of None] show ?thesis by fastforce
    next
      case (Cons x zs)
      with get_oldest Cons.prems(1) that [of "Some x"] show ?thesis by fastforce
    qed
    then obtain ins outs s' ys where "run_ops put get accepts ops s1 = Some (ins, outs, s')" "rep s' ys"
      "zs @ ins = delivered_values outs @ ys" "subseq ins (puts ops)"
      using Cons.IH [OF s1(2) ok] Cons.prems(3) Get by auto
    with Get s1 show ?thesis by (cases r) auto
  qed
qed

text \<open>From an empty queue, the values come out in the order they were stored.\<close>

lemma run_fifo:
  assumes "rep s []" and "\<forall>v \<in> set (puts ops). storable v" and "length (puts ops) \<le> limit"
  shows "\<exists>ins outs s' ys. run_ops put get accepts ops s = Some (ins, outs, s') \<and> rep s' ys
    \<and> ins = delivered_values outs @ ys \<and> subseq ins (puts ops)"
  using run_conserves [of s "[]" ops] assms by auto

text \<open>A get in a state that holds something answers.\<close>

lemma get_some: "rep s xs \<Longrightarrow> xs \<noteq> [] \<Longrightarrow> \<exists>s'. get s = Some (Some (hd xs), s') \<and> rep s' (tl xs)"
  using get_oldest by (cases xs) auto

end

locale bounded_fifo = fifo +
  fixes cap :: enat
  assumes accepts_iff: "rep s xs \<Longrightarrow> accepts s \<longleftrightarrow> enat (length xs) < cap"
begin

text \<open>Every run gives the answers of the abstract queue and leaves what it leaves.\<close>

lemma run_refines:
  assumes "rep s xs" and "\<forall>v \<in> set (puts ops). storable v" and "length xs + length (puts ops) \<le> limit"
  shows "\<exists>ins s'. run_ops put get accepts ops s = Some (ins, fst (spec_run cap ops xs), s')
    \<and> rep s' (snd (spec_run cap ops xs)) \<and> subseq ins (puts ops)
    \<and> xs @ ins = delivered_values (fst (spec_run cap ops xs)) @ snd (spec_run cap ops xs)"
  using assms
proof (induction ops arbitrary: s xs)
  case Nil
  then show ?case by simp
next
  case (Cons p ops)
  show ?case
  proof (cases p)
    case (Put v)
    let ?xs = "if enat (length xs) < cap then xs @ [v] else xs"
    have v: "storable v" "length xs < limit" "\<forall>v \<in> set (puts ops). storable v"
      "length ?xs + length (puts ops) \<le> limit" using Cons.prems Put by simp_all
    obtain s1 where s1: "put v s = Some s1" "rep s1 ?xs"
      using put_stores [OF Cons.prems(1) v(1) _ v(2)] put_rejects [OF Cons.prems(1) v(1)]
        accepts_iff [OF Cons.prems(1)] by (metis (full_types))
    obtain ins s' where "run_ops put get accepts ops s1 = Some (ins, fst (spec_run cap ops ?xs), s')"
      "rep s' (snd (spec_run cap ops ?xs))" "subseq ins (puts ops)"
      "?xs @ ins = delivered_values (fst (spec_run cap ops ?xs)) @ snd (spec_run cap ops ?xs)"
      using Cons.IH [OF s1(2) v(3,4)] by blast
    then show ?thesis using Put s1(1) accepts_iff [OF Cons.prems(1)] by (auto split: if_splits)
  next
    case Get
    obtain r s1 zs where s1: "get s = Some (r, s1)" "rep s1 zs" "xs = delivered_values [r] @ zs"
      "spec_run cap (Get # ops) xs = (r # fst (spec_run cap ops zs), snd (spec_run cap ops zs))"
    proof (cases xs)
      case Nil
      with get_empty Cons.prems(1) that [of None _ "[]"] show ?thesis by (fastforce simp: split_beta)
    next
      case (Cons x zs)
      with get_oldest Cons.prems(1) that [of "Some x" _ zs] show ?thesis by (fastforce simp: split_beta)
    qed
    have "\<forall>v \<in> set (puts ops). storable v" "length zs + length (puts ops) \<le> limit"
      using Cons.prems(2,3) s1(3) Get by (cases r; simp)+
    from Cons.IH [OF s1(2) this] obtain ins s' where
      "run_ops put get accepts ops s1 = Some (ins, fst (spec_run cap ops zs), s')" "rep s' (snd (spec_run cap ops zs))"
      "subseq ins (puts ops)" "zs @ ins = delivered_values (fst (spec_run cap ops zs)) @ snd (spec_run cap ops zs)"
      by blast
    then show ?thesis using Get s1(1,3,4) by (cases r) simp_all
  qed
qed

end

locale unbounded_fifo = fifo +
  assumes accepts_always: "rep s xs \<Longrightarrow> accepts s"

sublocale unbounded_fifo \<subseteq> unbounded: bounded_fifo rep put get accepts storable limit \<infinity>
  by unfold_locales (simp add: accepts_always)

context unbounded_fifo
begin

text \<open>Nothing is rejected: all values of the puts are stored.\<close>

lemma run_stores_all:
  assumes "rep s xs" and "\<forall>v \<in> set (puts ops). storable v" and "length xs + length (puts ops) \<le> limit"
  shows "\<exists>s'. run_ops put get accepts ops s = Some (puts ops, fst (spec_run \<infinity> ops xs), s')
    \<and> rep s' (snd (spec_run \<infinity> ops xs))
    \<and> xs @ puts ops = delivered_values (fst (spec_run \<infinity> ops xs)) @ snd (spec_run \<infinity> ops xs)"
proof -
  have "ins = puts ops" if "run_ops put get accepts ops s = Some (ins, outs, s')" "rep s xs"
    "\<forall>v \<in> set (puts ops). storable v" "length xs + length (puts ops) \<le> limit" for ins outs s'
    using that
  proof (induction ops arbitrary: s xs ins outs)
    case (Cons p ops)
    show ?case
    proof (cases p)
      case (Put v)
      with Cons.prems obtain s1 where s1: "put v s = Some s1" "rep s1 (xs @ [v])"
        using put_stores [OF Cons.prems(2) _ accepts_always [OF Cons.prems(2)], of v] by auto
      with Put Cons.prems show ?thesis
        using Cons.IH [of s1 _ outs "xs @ [v]"] accepts_always [OF Cons.prems(2)]
        by (auto split: bind_splits)
    next
      case Get
      obtain r s1 zs where s1: "get s = Some (r, s1)" "rep s1 zs" "length zs \<le> length xs"
        using get_empty get_some [of s xs] Cons.prems(2) by (cases xs) fastforce+
      with Get Cons.prems show ?thesis
        using Cons.IH [of s1 ins _ zs] by (auto split: bind_splits)
    qed
  qed simp
  with unbounded.run_refines [OF assms] assms show ?thesis by blast
qed

end

end
