(* ===== verification/Week5_Queue.thy ===== *)
theory Week5_Queue
  imports Linked_Shape Fifo_Interface
begin

text \<open>
  \<open>week5/queue.h\<close>, \<open>week5/queue.c\<close>, \<open>week5/queuetest.c\<close>: a queue of untyped pointers as a doubly
  linked list with NULL at both ends, a search that removes the process with the highest priority,
  and the test program. The heap has one store per struct type.
\<close>

section \<open>State\<close>

record process_t =
  id :: int
  name :: string
  runtime :: int
  priority :: int

record node_t = links +
  data :: ptr

record queue_t =
  head :: ptr
  tail :: ptr
  qsize :: int

record heap =
  queues :: "queue_t store"
  nodes :: "node_t store"
  procs :: "process_t store"

section \<open>Operations\<close>

definition create_queue :: "heap \<Rightarrow> (ptr \<times> heap) c" where
  "create_queue h =
     (case malloc (queues h) of
        (Null, qs) \<Rightarrow> Some (Null, h\<lparr>queues := qs\<rparr>)
      | (q, qs) \<Rightarrow> do {
          qs \<leftarrow> assign qs q (\<lambda>r. r\<lparr>head := Null\<rparr>);
          qs \<leftarrow> assign qs q (\<lambda>r. r\<lparr>tail := Null\<rparr>);
          qs \<leftarrow> assign qs q (\<lambda>r. r\<lparr>qsize := 0\<rparr>);
          Some (q, h\<lparr>queues := qs\<rparr>)
        })"

text \<open>\<open>queue->size++\<close> and \<open>queue->size--\<close>.\<close>

definition add_size :: "queue_t store \<Rightarrow> ptr \<Rightarrow> (int \<Rightarrow> int c) \<Rightarrow> queue_t store c" where
  "add_size qs q f = do { r \<leftarrow> load qs q; n \<leftarrow> f (qsize r); assign qs q (\<lambda>r. r\<lparr>qsize := n\<rparr>) }"

definition push_queue :: "heap \<Rightarrow> ptr \<Rightarrow> ptr \<Rightarrow> heap c" where
  "push_queue h q element =
     (if q = Null then Some h
      else
        (case malloc (nodes h) of
           (Null, ns) \<Rightarrow> Some (h\<lparr>nodes := ns\<rparr>)
         | (new_node, ns) \<Rightarrow> do {
             ns \<leftarrow> assign ns new_node (\<lambda>n. n\<lparr>data := element\<rparr>);
             ns \<leftarrow> assign ns new_node (\<lambda>n. n\<lparr>prv := Null\<rparr>);
             ns \<leftarrow> assign ns new_node (\<lambda>n. n\<lparr>nxt := Null\<rparr>);
             r \<leftarrow> load (queues h) q;
             (ns, qs) \<leftarrow>
               (if tail r = Null
                then do {
                  qs \<leftarrow> assign (queues h) q (\<lambda>r. r\<lparr>head := new_node\<rparr>);
                  qs \<leftarrow> assign qs q (\<lambda>r. r\<lparr>tail := new_node\<rparr>);
                  Some (ns, qs)
                }
                else do {
                  ns \<leftarrow> assign ns new_node (\<lambda>n. n\<lparr>prv := tail r\<rparr>);
                  ns \<leftarrow> assign ns (tail r) (\<lambda>n. n\<lparr>nxt := new_node\<rparr>);
                  qs \<leftarrow> assign (queues h) q (\<lambda>r. r\<lparr>tail := new_node\<rparr>);
                  Some (ns, qs)
                });
             qs \<leftarrow> add_size qs q c_incr;
             Some (h\<lparr>nodes := ns, queues := qs\<rparr>)
           }))"

definition pop_queue :: "heap \<Rightarrow> ptr \<Rightarrow> (ptr \<times> heap) c" where
  "pop_queue h q =
     (if q = Null then Some (Null, h)
      else do {
        r \<leftarrow> load (queues h) q;
        (if head r = Null then Some (Null, h)
         else do {
           let front = head r;
           f \<leftarrow> load (nodes h) front;
           qs \<leftarrow> assign (queues h) q (\<lambda>r. r\<lparr>head := nxt f\<rparr>);
           (ns, qs) \<leftarrow>
             (if nxt f \<noteq> Null
              then do { ns \<leftarrow> assign (nodes h) (nxt f) (\<lambda>n. n\<lparr>prv := Null\<rparr>); Some (ns, qs) }
              else do { qs \<leftarrow> assign qs q (\<lambda>r. r\<lparr>tail := Null\<rparr>); Some (nodes h, qs) });
           ns \<leftarrow> free ns front;
           qs \<leftarrow> add_size qs q c_decr;
           Some (data f, h\<lparr>nodes := ns, queues := qs\<rparr>)
         })
      })"

text \<open>The loop of \<open>remove_process\<close>: the best node and process so far, and the node to look at.\<close>

partial_function (option) find_best ::
  "node_t store \<Rightarrow> process_t store \<Rightarrow> ptr \<Rightarrow> ptr \<Rightarrow> ptr \<Rightarrow> (ptr \<times> ptr) c" where
  "find_best ns ps best_node best_proc current =
     (if current = Null then Some (best_node, best_proc)
      else do {
        n \<leftarrow> load ns current;
        p \<leftarrow> load ps (data n);
        b \<leftarrow> load ps best_proc;
        (if priority p > priority b
         then find_best ns ps current (data n) (nxt n)
         else find_best ns ps best_node best_proc (nxt n))
      })"

declare find_best.simps [code]

definition remove_process :: "heap \<Rightarrow> ptr \<Rightarrow> (ptr \<times> heap) c" where
  "remove_process h q =
     (if q = Null then Some (Null, h)
      else do {
        r \<leftarrow> load (queues h) q;
        (if head r = Null then Some (Null, h)
         else do {
           n \<leftarrow> load (nodes h) (head r);
           (best_node, best_proc) \<leftarrow> find_best (nodes h) (procs h) (head r) (data n) (head r);
           b \<leftarrow> load (nodes h) best_node;
           (ns, qs) \<leftarrow>
             (if prv b \<noteq> Null
              then do { ns \<leftarrow> assign (nodes h) (prv b) (\<lambda>n. n\<lparr>nxt := nxt b\<rparr>); Some (ns, queues h) }
              else do { qs \<leftarrow> assign (queues h) q (\<lambda>r. r\<lparr>head := nxt b\<rparr>); Some (nodes h, qs) });
           b \<leftarrow> load ns best_node;
           (ns, qs) \<leftarrow>
             (if nxt b \<noteq> Null
              then do { ns \<leftarrow> assign ns (nxt b) (\<lambda>n. n\<lparr>prv := prv b\<rparr>); Some (ns, qs) }
              else do { qs \<leftarrow> assign qs q (\<lambda>r. r\<lparr>tail := prv b\<rparr>); Some (ns, qs) });
           ns \<leftarrow> free ns best_node;
           qs \<leftarrow> add_size qs q c_decr;
           Some (best_proc, h\<lparr>nodes := ns, queues := qs\<rparr>)
         })
      })"

definition get_queue_size :: "heap \<Rightarrow> ptr \<Rightarrow> int c" where
  "get_queue_size h q = (if q = Null then Some 0 else do { r \<leftarrow> load (queues h) q; Some (qsize r) })"

partial_function (option) free_nodes :: "node_t store \<Rightarrow> ptr \<Rightarrow> node_t store c" where
  "free_nodes ns current =
     (if current = Null then Some ns
      else do { n \<leftarrow> load ns current; ns \<leftarrow> free ns current; free_nodes ns (nxt n) })"

declare free_nodes.simps [code]

definition destroy_queue :: "heap \<Rightarrow> ptr \<Rightarrow> heap c" where
  "destroy_queue h q =
     (if q = Null then Some h
      else do {
        r \<leftarrow> load (queues h) q;
        ns \<leftarrow> free_nodes (nodes h) (head r);
        qs \<leftarrow> free (queues h) q;
        Some (h\<lparr>nodes := ns, queues := qs\<rparr>)
      })"

section \<open>The test program\<close>

definition new_process :: "heap \<Rightarrow> int \<Rightarrow> string \<Rightarrow> int \<Rightarrow> int \<Rightarrow> (ptr \<times> heap) c" where
  "new_process h i nm rt pr = do {
     let (p, ps) = malloc (procs h);
     ps \<leftarrow> assign ps p (\<lambda>r. r\<lparr>id := i\<rparr>);
     ps \<leftarrow> assign ps p (\<lambda>r. r\<lparr>name := nm\<rparr>);
     ps \<leftarrow> assign ps p (\<lambda>r. r\<lparr>runtime := rt\<rparr>);
     ps \<leftarrow> assign ps p (\<lambda>r. r\<lparr>priority := pr\<rparr>);
     Some (p, h\<lparr>procs := ps\<rparr>)
   }"

text \<open>What is printed about a process that was taken out, if there is one.\<close>

definition show_process :: "heap \<Rightarrow> string \<Rightarrow> ptr \<Rightarrow> string list c" where
  "show_process h what p =
     (if p = Null then Some []
      else do {
        r \<leftarrow> load (procs h) p;
        Some [''  '' @ what @ '' process: id='' @ dec_int (id r) @ '', name='' @ name r
              @ '', priority='' @ dec_int (priority r)]
      })"

definition free_proc :: "heap \<Rightarrow> ptr \<Rightarrow> heap c" where
  "free_proc h p = do { ps \<leftarrow> free (procs h) p; Some (h\<lparr>procs := ps\<rparr>) }"

text \<open>\<open>main\<close> with its exit code and the lines it prints (blank lines left out).\<close>

definition main :: "heap \<Rightarrow> (int \<times> string list \<times> heap) c" where
  "main h = do {
     (q, h) \<leftarrow> create_queue h;
     (if q = Null then Some (1, [], h)
      else do {
        (p1, h) \<leftarrow> new_process h 1 ''ProcA'' 1000 2;
        (p2, h) \<leftarrow> new_process h 2 ''ProcB'' 500 5;
        (p3, h) \<leftarrow> new_process h 3 ''ProcC'' 300 1;
        h \<leftarrow> push_queue h q p1;
        h \<leftarrow> push_queue h q p2;
        h \<leftarrow> push_queue h q p3;
        n1 \<leftarrow> get_queue_size h q;
        (p_front, h) \<leftarrow> pop_queue h q;
        o1 \<leftarrow> show_process h ''Popped'' p_front;
        n2 \<leftarrow> get_queue_size h q;
        (p_high, h) \<leftarrow> remove_process h q;
        o2 \<leftarrow> show_process h ''Removed highest priority'' p_high;
        n3 \<leftarrow> get_queue_size h q;
        (remaining, h) \<leftarrow> pop_queue h q;
        h \<leftarrow> (if remaining \<noteq> Null then free_proc h remaining else Some h);
        h \<leftarrow> destroy_queue h q;
        h \<leftarrow> free_proc h p_front;
        h \<leftarrow> free_proc h p_high;
        Some (0,
          [''Pushing p1, p2, p3 onto queue...'',
           ''Queue size is now '' @ dec_int n1 @ ''.'',
           ''Pop one element from the front:''] @ o1 @
          [''Queue size after pop: '' @ dec_int n2 @ ''.'',
           ''Remove process with highest priority:''] @ o2 @
          [''Queue size after remove_process: '' @ dec_int n3 @ ''.''], h)
      })
   }"

end
