(* ===== verification/Week5_Theorems.thy ===== *)
theory Week5_Theorems
  imports Week5_Queue
begin

text \<open>
  The queue of \<open>week5\<close> is a queue: its nodes represent a list of pointers, push and pop work on its
  ends, \<open>remove_process\<close> takes out the first element of maximal priority, and the test program prints
  what it should and gives all memory back.
\<close>

section \<open>The list a queue represents\<close>

definition datas :: "node_t store \<Rightarrow> nat list \<Rightarrow> ptr option list" where
  "datas ns as = map (\<lambda>a. map_option data (cells ns a)) as"

definition chain :: "node_t store \<Rightarrow> nat list \<Rightarrow> ptr list \<Rightarrow> bool" where
  "chain ns as xs \<longleftrightarrow> dseg (cells ns) Null as Null \<and> datas ns as = map Some xs
     \<and> live ns = set as \<and> wf_store ns"

definition queue_nodes :: "heap \<Rightarrow> ptr \<Rightarrow> nat list \<Rightarrow> ptr list \<Rightarrow> bool" where
  "queue_nodes h q as xs \<longleftrightarrow>
     load (queues h) q = Some \<lparr>head = first_ptr as Null, tail = last_ptr Null as, qsize = int (length as)\<rparr>
   \<and> chain (nodes h) as xs"

definition queue_rep :: "ptr \<Rightarrow> heap \<Rightarrow> ptr list \<Rightarrow> bool" where
  "queue_rep q h xs \<longleftrightarrow> (\<exists>as. queue_nodes h q as xs) \<and> int (length xs) \<le> INT_MAX"

lemma datas_simps [simp]:
  "datas ns [] = []" "datas ns (a # as) = map_option data (cells ns a) # datas ns as"
  "datas ns (as @ bs) = datas ns as @ datas ns bs" "length (datas ns as) = length as"
  by (simp_all add: datas_def)

lemma datas_frame [simp]: "a \<notin> set as \<Longrightarrow> datas (ns\<lparr>cells := (cells ns)(a := v)\<rparr>) as = datas ns as"
  by (auto simp: datas_def)

lemma datas_same: "(\<And>a. a \<in> set as \<Longrightarrow> map_option data (cells ns' a) = map_option data (cells ns a)) \<Longrightarrow>
    datas ns' as = datas ns as"
  by (simp add: datas_def)

lemma chain_length: "chain ns as xs \<Longrightarrow> length xs = length as"
  by (metis chain_def datas_simps(4) length_map)

lemma chain_distinct: "chain ns as xs \<Longrightarrow> distinct as"
  by (auto simp: chain_def intro: dseg_Null_distinct)

lemma chain_fresh:
  assumes "chain ns as xs"
  shows "next_addr ns \<notin> set as" and "cells ns (next_addr ns) = None"
proof -
  show "cells ns (next_addr ns) = None" using assms by (simp add: chain_def fresh_cell)
  then show "next_addr ns \<notin> set as" using assms by (auto simp: chain_def live_def)
qed

lemma chain_cell: "chain ns as xs \<Longrightarrow> a \<in> set as \<Longrightarrow> \<exists>n. cells ns a = Some n"
  by (auto simp: chain_def dest: dseg_live)

lemma chain_split:
  assumes "chain ns (as @ a # bs) zs"
  obtains xs ys n where "zs = xs @ data n # ys" and "length xs = length as" and "cells ns a = Some n"
    and "prv n = last_ptr Null as" and "nxt n = first_ptr bs Null"
proof -
  obtain n where n: "cells ns a = Some n" "prv n = last_ptr Null as" "nxt n = first_ptr bs Null"
    using assms dseg_mid [of "cells ns" Null as a bs Null] by (auto simp: chain_def)
  have "datas ns as @ Some (data n) # datas ns bs = map Some zs" using assms n by (simp add: chain_def)
  then obtain us vs where uv: "zs = us @ vs" "datas ns as = map Some us" "Some (data n) # datas ns bs = map Some vs"
    by (auto simp: append_eq_map_conv)
  then obtain ys where "vs = data n # ys" by auto
  moreover have "length us = length as" using arg_cong [OF uv(2), of length] by simp
  ultimately show thesis using that n uv(1) by blast
qed

text \<open>Appending a node, at the nodes.\<close>

lemma chain_single:
  assumes "chain ns [] []" and "prv m = Null" and "nxt m = Null"
  shows "chain (ns\<lparr>cells := (cells ns)(next_addr ns := Some m), next_addr := Suc (next_addr ns)\<rparr>)
    [next_addr ns] [data m]"
  using assms by (simp add: chain_def live_simps live_simps_next wf_store_alloc)

lemma chain_snoc:
  assumes "chain ns (bs @ [l]) xs" and "cells ns l = Some n" and "prv m = Addr l" and "nxt m = Null"
  shows "chain (ns\<lparr>cells := (cells ns)(next_addr ns := Some m, l := Some (n\<lparr>nxt := Addr (next_addr ns)\<rparr>)),
      next_addr := Suc (next_addr ns)\<rparr>) (bs @ [l, next_addr ns]) (xs @ [data m])"
proof -
  let ?a = "next_addr ns" and ?h = "(cells ns)(next_addr ns := Some m, l := Some (n\<lparr>nxt := Addr (next_addr ns)\<rparr>))"
  have fresh: "?a \<noteq> l" "?a \<notin> set bs" "l \<notin> set bs"
    using chain_fresh(1) [OF assms(1)] chain_distinct [OF assms(1)] by auto
  have "dseg ?h Null (bs @ [l, ?a]) Null"
    using assms fresh by (simp add: chain_def dseg_append dseg_frame)
  moreover have "datas (ns\<lparr>cells := ?h, next_addr := Suc ?a\<rparr>) (bs @ [l, ?a]) = map Some (xs @ [data m])"
  proof -
    have "datas (ns\<lparr>cells := ?h, next_addr := Suc ?a\<rparr>) (bs @ [l]) = datas ns (bs @ [l])"
      using assms(2) fresh by (intro datas_same) auto
    then show ?thesis using assms(1) fresh by (simp add: chain_def)
  qed
  moreover have "live (ns\<lparr>cells := ?h, next_addr := Suc ?a\<rparr>) = set (bs @ [l, ?a])"
    using assms(1) by (auto simp: chain_def live_simps live_simps_next)
  moreover have "wf_store (ns\<lparr>cells := ?h, next_addr := Suc ?a\<rparr>)"
    using assms(1) live_bound [OF _ assms(2)] by (auto simp: chain_def wf_store_def less_SucI)
  ultimately show ?thesis by (simp add: chain_def)
qed

text \<open>Taking a node out, at the nodes: the neighbours are joined.\<close>

fun setp :: "(nat \<Rightarrow> 'n option) \<Rightarrow> ptr \<Rightarrow> ('n \<Rightarrow> 'n) \<Rightarrow> nat \<Rightarrow> 'n option" where
  "setp h Null f = h"
| "setp h (Addr a) f = h(a := map_option f (h a))"

lemma dseg_join:
  assumes "dseg h Null (as @ a # bs) Null" and "distinct (as @ a # bs)"
  shows "dseg (setp (setp h (last_ptr Null as) (\<lambda>n. n\<lparr>nxt := first_ptr bs Null\<rparr>)) (first_ptr bs Null)
      (\<lambda>n. n\<lparr>prv := last_ptr Null as\<rparr>)) Null (as @ bs) Null"
proof (cases as rule: rev_cases; cases bs)
  fix b bs' l as'
  assume "as = as' @ [l]" "bs = b # bs'"
  with assms show ?thesis by (auto simp: dseg_append dseg_frame)
qed (use assms in \<open>auto simp: dseg_append dseg_frame\<close>)

lemma live_setp: "p = Null \<or> (\<exists>a. p = Addr a \<and> a \<in> live s) \<Longrightarrow> live (s\<lparr>cells := setp (cells s) p f\<rparr>) = live s"
  by (cases p) (auto simp: live_def)

lemma setp_datas:
  "(\<And>n. data (f n) = data n) \<Longrightarrow> map_option data (setp h p f a) = map_option data (h a)"
  by (cases p) (auto simp: option.map_comp comp_def)

lemma setp_None: "setp h p f a = None \<longleftrightarrow> h a = None"
  by (cases p) auto

lemma chain_remove:
  assumes "chain ns (as @ a # bs) (xs @ x # ys)" and "length xs = length as"
  defines "h1 \<equiv> setp (cells ns) (last_ptr Null as) (\<lambda>n. n\<lparr>nxt := first_ptr bs Null\<rparr>)"
  defines "h2 \<equiv> setp h1 (first_ptr bs Null) (\<lambda>n. n\<lparr>prv := last_ptr Null as\<rparr>)"
  shows "chain (ns\<lparr>cells := h2(a := None)\<rparr>) (as @ bs) (xs @ ys)"
proof -
  have dist: "distinct (as @ a # bs)" using chain_distinct [OF assms(1)] .
  have "dseg (cells ns) Null (as @ a # bs) Null" using assms(1) by (simp only: chain_def)
  from dseg_join [OF this dist] have "dseg h2 Null (as @ bs) Null" by (simp only: h1_def h2_def)
  then have "dseg (h2(a := None)) Null (as @ bs) Null" using dist by (simp add: dseg_frame)
  moreover have "datas (ns\<lparr>cells := h2(a := None)\<rparr>) (as @ bs) = datas ns (as @ bs)"
    using dist by (intro datas_same) (auto simp: h1_def h2_def setp_datas)
  moreover have "datas ns (as @ bs) = map Some (xs @ ys)"
  proof -
    have "datas ns as @ map_option data (cells ns a) # datas ns bs = map Some xs @ Some x # map Some ys"
      using assms(1) by (simp add: chain_def)
    then show ?thesis using assms(2) by simp
  qed
  moreover have same: "h2 c = None \<longleftrightarrow> cells ns c = None" for c by (simp only: h1_def h2_def setp_None)
  moreover have "live (ns\<lparr>cells := h2(a := None)\<rparr>) = set (as @ bs)"
  proof -
    have "live (ns\<lparr>cells := h2\<rparr>) = live ns" by (simp add: live_def dom_def same)
    then show ?thesis using assms(1) dist by (auto simp: chain_def live_simps)
  qed
  moreover have "wf_store (ns\<lparr>cells := h2(a := None)\<rparr>)"
  proof -
    have "c < next_addr ns" if "h2 c = Some n" for c n
      using that same [of c] assms(1) live_bound [of ns c] by (cases "cells ns c") (auto simp: chain_def)
    then show ?thesis by (auto simp: wf_store_def)
  qed
  ultimately show ?thesis by (simp add: chain_def)
qed

section \<open>Push\<close>

text \<open>What stays: the other queue structs and all processes.\<close>

definition same_others :: "heap \<Rightarrow> ptr \<Rightarrow> heap \<Rightarrow> bool" where
  "same_others h q h' \<longleftrightarrow> procs h' = procs h \<and> live (queues h') = live (queues h)
     \<and> alloc (nodes h') = alloc (nodes h)
     \<and> (\<forall>a. q \<noteq> Addr a \<longrightarrow> cells (queues h') a = cells (queues h) a)"

lemma add_size_cell [simp]:
  "cells qs a = Some r \<Longrightarrow> f (qsize r) = Some n \<Longrightarrow>
   add_size qs (Addr a) f = Some (qs\<lparr>cells := (cells qs)(a := Some (r\<lparr>qsize := n\<rparr>))\<rparr>)"
  by (simp add: add_size_def)

lemma queue_nodes_struct:
  assumes "queue_nodes h q as xs"
  obtains qa where "q = Addr qa" and "cells (queues h) qa =
    Some \<lparr>head = first_ptr as Null, tail = last_ptr Null as, qsize = int (length as)\<rparr>"
  using assms by (auto simp: queue_nodes_def load_Some_iff)

text \<open>A new struct for the queue, and new nodes.\<close>

lemma queue_nodes_upd:
  assumes "q = Addr qa" and "cells (queues h) qa = Some r" and "chain ns as xs"
    and "alloc ns = alloc (nodes h)"
    and "r' = \<lparr>head = first_ptr as Null, tail = last_ptr Null as, qsize = int (length as)\<rparr>"
  defines "h' \<equiv> h\<lparr>nodes := ns, queues := (queues h)\<lparr>cells := (cells (queues h))(qa := Some r')\<rparr>\<rparr>"
  shows "queue_nodes h' q as xs \<and> same_others h q h'"
  using assms live_cell [OF assms(2)]
  by (auto simp: queue_nodes_def same_others_def live_simps live_simps_next)

lemma push_nodes:
  assumes "queue_nodes h q as xs" and "alloc (nodes h) (next_addr (nodes h)) = Some junk"
    and "int (length xs) < INT_MAX"
  shows "\<exists>h'. push_queue h q e = Some h' \<and> queue_nodes h' q (as @ [next_addr (nodes h)]) (xs @ [e])
    \<and> same_others h q h'"
proof -
  let ?a = "next_addr (nodes h)"
  obtain qa where q: "q = Addr qa"
    "cells (queues h) qa = Some \<lparr>head = first_ptr as Null, tail = last_ptr Null as, qsize = int (length as)\<rparr>"
    using assms(1) by (rule queue_nodes_struct)
  have ch: "chain (nodes h) as xs" using assms(1) by (simp add: queue_nodes_def)
  have len: "int (length as) < INT_MAX" using chain_length [OF ch] assms(3) by simp
  show ?thesis
  proof (cases as rule: rev_cases)
    case Nil
    with ch have "xs = []" by (auto dest: chain_length)
    let ?m = "junk\<lparr>data := e, prv := Null, nxt := Null\<rparr>"
    have "chain ((nodes h)\<lparr>cells := (cells (nodes h))(?a := Some ?m), next_addr := Suc ?a\<rparr>) [?a] [e]"
      using chain_single [of "nodes h" ?m] ch Nil \<open>xs = []\<close> by simp
    from queue_nodes_upd [OF q this] show ?thesis
      using Nil \<open>xs = []\<close> q assms(2) by (simp add: push_queue_def malloc_ok)
  next
    case (snoc bs l)
    obtain n where n: "cells (nodes h) l = Some n" using chain_cell [OF ch, of l] snoc by auto
    have la: "l \<noteq> ?a" using chain_fresh(1) [OF ch] snoc by auto
    let ?m = "junk\<lparr>data := e, nxt := Null, prv := Addr l\<rparr>"
    from chain_snoc [of "nodes h" bs l xs n ?m] ch n snoc
    have "chain ((nodes h)\<lparr>cells := (cells (nodes h))(?a := Some ?m, l := Some (n\<lparr>nxt := Addr ?a\<rparr>)),
        next_addr := Suc ?a\<rparr>) (as @ [?a]) (xs @ [e])"
      by simp
    from queue_nodes_upd [OF q this] show ?thesis
      using q n la len snoc assms(2) by (simp add: push_queue_def malloc_ok)
  qed
qed

lemma push_full:
  assumes "queue_nodes h q as xs" and "alloc (nodes h) (next_addr (nodes h)) = None"
  shows "\<exists>h'. push_queue h q e = Some h' \<and> queue_nodes h' q as xs \<and> same_others h q h'"
  using assms
  by (auto simp: push_queue_def queue_nodes_def malloc_fail chain_def live_simps datas_def same_others_def
      wf_store_def less_SucI load_Some_iff)

section \<open>Pop\<close>

lemma pop_nodes:
  assumes "queue_nodes h q (a # as) (x # xs)" and "int (length as) < INT_MAX"
  shows "\<exists>h'. pop_queue h q = Some (x, h') \<and> queue_nodes h' q as xs \<and> same_others h q h'"
proof -
  obtain qa where q: "q = Addr qa" "cells (queues h) qa =
      Some \<lparr>head = first_ptr (a # as) Null, tail = last_ptr Null (a # as), qsize = int (length (a # as))\<rparr>"
    using assms(1) by (rule queue_nodes_struct)
  have ch: "chain (nodes h) ([] @ a # as) ([] @ x # xs)" using assms(1) by (simp add: queue_nodes_def)
  then obtain f where f: "cells (nodes h) a = Some f" "nxt f = first_ptr as Null" "data f = x"
    by (auto simp: chain_def)
  have dist: "a \<notin> set as" using chain_distinct [OF ch] by simp
  let ?ns = "(nodes h)\<lparr>cells := (setp (cells (nodes h)) (first_ptr as Null) (\<lambda>n. n\<lparr>prv := Null\<rparr>))(a := None)\<rparr>"
  have ch': "chain ?ns as xs" using chain_remove [OF ch] by simp
  show ?thesis
  proof (cases as)
    case Nil
    with queue_nodes_upd [OF q ch'] f q show ?thesis by (simp add: pop_queue_def)
  next
    case (Cons b bs)
    obtain n where n: "cells (nodes h) b = Some n" using chain_cell [OF ch, of b] Cons by auto
    have ab: "a \<noteq> b" using dist Cons by auto
    from queue_nodes_upd [OF q ch'] show ?thesis
      using f q n ab Cons assms(2) by (simp add: pop_queue_def fun_upd_twist)
  qed
qed

lemma pop_empty: "queue_nodes h q as [] \<Longrightarrow> pop_queue h q = Some (Null, h)"
  using chain_length [of "nodes h" as "[]"] by (auto simp: pop_queue_def queue_nodes_def load_Some_iff)

section \<open>Removing the process with the highest priority\<close>

definition prio :: "process_t store \<Rightarrow> ptr \<Rightarrow> int" where
  "prio ps p = (case load ps p of None \<Rightarrow> 0 | Some r \<Rightarrow> priority r)"

lemma prio_load: "load ps p = Some r \<Longrightarrow> prio ps p = priority r"
  by (simp add: prio_def)

text \<open>The scan, over the list of nodes and their processes.\<close>

fun best_of :: "(ptr \<Rightarrow> int) \<Rightarrow> nat \<times> ptr \<Rightarrow> (nat \<times> ptr) list \<Rightarrow> nat \<times> ptr" where
  "best_of f b [] = b"
| "best_of f b (c # cs) = best_of f (if f (snd c) > f (snd b) then c else b) cs"

lemma best_of_first_max:
  assumes "\<forall>c \<in> set us. f (snd c) < f (snd b)" and "\<forall>c \<in> set vs. f (snd c) \<le> f (snd b)"
  shows "\<exists>us' vs'. us @ b # vs @ ws = us' @ best_of f b ws # vs'
    \<and> (\<forall>c \<in> set us'. f (snd c) < f (snd (best_of f b ws)))
    \<and> (\<forall>c \<in> set vs'. f (snd c) \<le> f (snd (best_of f b ws)))"
  using assms
proof (induction ws arbitrary: us b vs)
  case Nil
  then show ?case by auto
next
  case (Cons w ws)
  show ?case
  proof (cases "f (snd w) > f (snd b)")
    case True
    with Cons.prems have "\<forall>c \<in> set (us @ b # vs). f (snd c) < f (snd w)" by auto
    with Cons.IH [of "us @ b # vs" w "[]"] True show ?thesis by simp
  next
    case False
    with Cons.prems Cons.IH [of us b "vs @ [w]"] show ?thesis by simp
  qed
qed

lemma find_best_scan:
  assumes "dseg (cells ns) p cs Null" and "datas ns cs = map Some zs"
    and "\<forall>z \<in> set zs. load ps z \<noteq> None" and "load ps (snd b) \<noteq> None"
  shows "find_best ns ps (Addr (fst b)) (snd b) (first_ptr cs Null)
    = Some (let r = best_of (prio ps) b (zip cs zs) in (Addr (fst r), snd r))"
  using assms
proof (induction cs arbitrary: p zs b)
  case Nil
  then show ?case by (subst find_best.simps) simp
next
  case (Cons c cs)
  then obtain n where n: "cells ns c = Some n" "nxt n = first_ptr cs Null" and d: "dseg (cells ns) (Addr c) cs Null"
    by auto
  with Cons.prems(2) obtain zs' where zs: "zs = data n # zs'" "datas ns cs = map Some zs'"
    by (cases zs) auto
  obtain r rb where r: "load ps (data n) = Some r" and rb: "load ps (snd b) = Some rb"
    using Cons.prems(3,4) zs(1) by auto
  have IH: "find_best ns ps (Addr (fst b')) (snd b') (first_ptr cs Null)
      = Some (let r = best_of (prio ps) b' (zip cs zs') in (Addr (fst r), snd r))"
    if "load ps (snd b') \<noteq> None" for b'
    using Cons.IH [OF d zs(2) _ that] Cons.prems(3) zs(1) by simp
  show ?case
    using n r rb zs(1) IH [of b] IH [of "(c, data n)"]
    by (subst find_best.simps) (simp add: prio_load)
qed

lemma find_best_split:
  assumes "chain ns (a0 # as0) (x0 # xs0)" and "\<forall>x \<in> set (x0 # xs0). load ps x \<noteq> None"
  obtains as1 a as2 xs1 x xs2 where "a0 # as0 = as1 @ a # as2" and "x0 # xs0 = xs1 @ x # xs2"
    and "length xs1 = length as1" and "find_best ns ps (Addr a0) x0 (Addr a0) = Some (Addr a, x)"
    and "\<forall>y \<in> set xs1. prio ps y < prio ps x" and "\<forall>y \<in> set xs2. prio ps y \<le> prio ps x"
proof -
  let ?f = "prio ps" and ?as = "a0 # as0" and ?xs = "x0 # xs0"
  define b where "b = best_of ?f (a0, x0) (zip as0 xs0)"
  have l: "length ?as = length ?xs" using chain_length [OF assms(1)] by simp
  have best: "find_best ns ps (Addr a0) x0 (Addr a0) = Some (Addr (fst b), snd b)"
    using find_best_scan [of ns Null ?as ?xs ps "(a0, x0)"] assms by (simp add: chain_def b_def Let_def)
  obtain us vs where uv: "zip ?as ?xs = us @ b # vs"
    "\<forall>c \<in> set us. ?f (snd c) < ?f (snd b)" "\<forall>c \<in> set vs. ?f (snd c) \<le> ?f (snd b)"
    using best_of_first_max [of "[]" ?f "(a0, x0)" "[]" "zip as0 xs0"] by (auto simp: b_def)
  have "?as = map fst (us @ b # vs)" "?xs = map snd (us @ b # vs)"
    using map_fst_zip [OF l] map_snd_zip [OF l] by (simp_all only: uv(1))
  then have "?as = map fst us @ fst b # map fst vs" "?xs = map snd us @ snd b # map snd vs" by simp_all
  then show ?thesis by (rule that) (use best uv(2,3) in auto)
qed

text \<open>The node store after the node \<open>a\<close> between \<open>p\<close> and \<open>q\<close> is taken out.\<close>

abbreviation unlinked :: "node_t store \<Rightarrow> ptr \<Rightarrow> nat \<Rightarrow> ptr \<Rightarrow> node_t store" where
  "unlinked ns p a q \<equiv> ns\<lparr>cells := (setp (setp (cells ns) p (\<lambda>n. n\<lparr>nxt := q\<rparr>)) q (\<lambda>n. n\<lparr>prv := p\<rparr>))(a := None)\<rparr>"

lemma remove_run:
  assumes ch: "chain (nodes h) (as1 @ a # as2) xs" and len: "int (length (as1 @ a # as2)) \<le> INT_MAX"
    and q: "cells (queues h) qa = Some \<lparr>head = Addr a0, tail = last_ptr Null (as1 @ a # as2), qsize = int (length (as1 @ a # as2))\<rparr>"
    and a0: "first_ptr (as1 @ a # as2) Null = Addr a0" "cells (nodes h) a0 = Some n0"
    and best: "find_best (nodes h) (procs h) (Addr a0) (data n0) (Addr a0) = Some (Addr a, x)"
  shows "remove_process h (Addr qa) = Some (x,
    h\<lparr>nodes := unlinked (nodes h) (last_ptr Null as1) a (first_ptr as2 Null), queues := (queues h)\<lparr>cells := (cells (queues h))(qa := Some
      \<lparr>head = first_ptr (as1 @ as2) Null, tail = last_ptr Null (as1 @ as2), qsize = int (length (as1 @ as2))\<rparr>)\<rparr>\<rparr>)"
proof -
  have hd1: "as1 \<noteq> [] \<Longrightarrow> first_ptr (as1 @ as2) Null = Addr a0" using a0(1) by (cases as1) auto
  obtain n where n: "cells (nodes h) a = Some n" "prv n = last_ptr Null as1" "nxt n = first_ptr as2 Null"
    using chain_split [OF ch] by metis
  have dist: "distinct (as1 @ a # as2)" using chain_distinct [OF ch] .
  have dec: "c_decr (int (length (as1 @ a # as2))) = Some (int (length (as1 @ as2)))"
    using len c_decr_Some [of "int (length (as1 @ a # as2))"] by simp
  show ?thesis
  proof (cases as1 rule: rev_cases; cases as2)
    assume "as1 = []" "as2 = []"
    with q n best dec a0 show ?thesis by (simp add: remove_process_def)
  next
    fix b2 bs2
    assume e: "as1 = []" "as2 = b2 # bs2"
    obtain m where "cells (nodes h) b2 = Some m" using chain_cell [OF ch, of b2] e by auto
    moreover have "a \<noteq> b2" using dist e by auto
    ultimately show ?thesis
      using e q n best dec a0 by (simp add: remove_process_def fun_upd_twist)
  next
    fix bs1 b1
    assume e: "as1 = bs1 @ [b1]" "as2 = []"
    obtain m where "cells (nodes h) b1 = Some m" using chain_cell [OF ch, of b1] e by auto
    moreover have "a \<noteq> b1" using dist e by auto
    ultimately show ?thesis
      using e q n best dec a0 hd1 by (simp add: remove_process_def fun_upd_twist)
  next
    fix bs1 b1 b2 bs2
    assume e: "as1 = bs1 @ [b1]" "as2 = b2 # bs2"
    obtain m1 m2 where "cells (nodes h) b1 = Some m1" "cells (nodes h) b2 = Some m2"
      using chain_cell [OF ch, of b1] chain_cell [OF ch, of b2] e by auto
    moreover have "a \<noteq> b1" "a \<noteq> b2" "b1 \<noteq> b2" using dist e by auto
    ultimately show ?thesis
      using e q n best dec a0 hd1 by (simp add: remove_process_def fun_upd_twist)
  qed
qed

lemma remove_nodes:
  assumes "queue_nodes h q as xs" and "xs \<noteq> []" and "\<forall>x \<in> set xs. load (procs h) x \<noteq> None"
    and "int (length xs) \<le> INT_MAX"
  shows "\<exists>h' as' us x vs. remove_process h q = Some (x, h') \<and> xs = us @ x # vs
    \<and> (\<forall>y \<in> set us. prio (procs h) y < prio (procs h) x)
    \<and> (\<forall>y \<in> set vs. prio (procs h) y \<le> prio (procs h) x)
    \<and> queue_nodes h' q as' (us @ vs) \<and> same_others h q h'"
proof -
  obtain qa where q: "q = Addr qa" "cells (queues h) qa =
      Some \<lparr>head = first_ptr as Null, tail = last_ptr Null as, qsize = int (length as)\<rparr>"
    using assms(1) by (rule queue_nodes_struct)
  have ch: "chain (nodes h) as xs" using assms(1) by (simp add: queue_nodes_def)
  have len: "length as = length xs" using chain_length [OF ch] by simp
  then obtain a0 as0 where as0: "as = a0 # as0" using assms(2) by (cases as) auto
  then obtain x0 xs0 n0 where x0: "xs = x0 # xs0" "cells (nodes h) a0 = Some n0" "data n0 = x0"
    using ch by (cases xs) (auto simp: chain_def)
  obtain as1 a as2 xs1 x xs2 where s: "as = as1 @ a # as2" "xs = xs1 @ x # xs2" "length xs1 = length as1"
    "find_best (nodes h) (procs h) (Addr a0) x0 (Addr a0) = Some (Addr a, x)"
    "\<forall>y \<in> set xs1. prio (procs h) y < prio (procs h) x" "\<forall>y \<in> set xs2. prio (procs h) y \<le> prio (procs h) x"
    using find_best_split [of "nodes h" a0 as0 x0 xs0 "procs h"] ch assms(3) unfolding as0 x0(1) by metis
  have "chain (unlinked (nodes h) (last_ptr Null as1) a (first_ptr as2 Null)) (as1 @ as2) (xs1 @ xs2)"
    using chain_remove [of "nodes h" as1 a as2 xs1 x xs2] ch s(1-3) by simp
  note rep = queue_nodes_upd [OF q this _ HOL.refl]
  let ?h' = "h\<lparr>nodes := unlinked (nodes h) (last_ptr Null as1) a (first_ptr as2 Null), queues := (queues h)\<lparr>cells := (cells (queues h))(qa := Some
      \<lparr>head = first_ptr (as1 @ as2) Null, tail = last_ptr Null (as1 @ as2), qsize = int (length (as1 @ as2))\<rparr>)\<rparr>\<rparr>"
  have "first_ptr as Null = Addr a0" "int (length as) \<le> INT_MAX" using as0 len assms(4) by simp_all
  then have "remove_process h q = Some (x, ?h')"
    unfolding q(1) using ch q(2) x0 s(4) unfolding s(1) by (intro remove_run [of h as1 a as2 xs qa a0 n0 x]) simp_all
  moreover have "queue_nodes ?h' q (as1 @ as2) (xs1 @ xs2) \<and> same_others h q ?h'" using rep by simp
  ultimately show ?thesis using s by blast
qed

section \<open>Creating and destroying\<close>

lemma create_rep:
  assumes "wf_store (queues h)" and "alloc (queues h) (next_addr (queues h)) \<noteq> None"
    and "live (nodes h) = {}" and "wf_store (nodes h)"
  shows "\<exists>h'. create_queue h = Some (Addr (next_addr (queues h)), h')
    \<and> queue_rep (Addr (next_addr (queues h))) h' [] \<and> nodes h' = nodes h \<and> procs h' = procs h
    \<and> live (queues h') = insert (next_addr (queues h)) (live (queues h))"
  using assms
  by (auto simp: create_queue_def malloc_ok queue_rep_def queue_nodes_def chain_def live_simps live_simps_next)

lemma free_nodes_seg:
  assumes "dseg (cells ns) p as Null" and "distinct as"
  shows "\<exists>ns'. free_nodes ns (first_ptr as Null) = Some ns' \<and> live ns' = live ns - set as"
  using assms
proof (induction as arbitrary: p ns)
  case Nil
  then show ?case by (subst free_nodes.simps) simp
next
  case (Cons a as)
  then obtain n where n: "cells ns a = Some n" "nxt n = first_ptr as Null" and d: "dseg (cells ns) (Addr a) as Null"
    by auto
  let ?ns = "ns\<lparr>cells := (cells ns)(a := None)\<rparr>"
  have "dseg (cells ?ns) (Addr a) as Null" using d Cons.prems(2) by (simp add: dseg_frame)
  with Cons.IH Cons.prems(2) obtain ns' where "free_nodes ?ns (first_ptr as Null) = Some ns'"
    "live ns' = live ?ns - set as" by force
  moreover have "live ?ns = live ns - {a}" by (simp add: live_simps live_simps_next)
  ultimately show ?case using n by (subst free_nodes.simps) auto
qed

lemma destroy_rep:
  assumes "queue_rep (Addr qa) h xs"
  shows "\<exists>h'. destroy_queue h (Addr qa) = Some h' \<and> live (nodes h') = {} \<and> procs h' = procs h
    \<and> live (queues h') = live (queues h) - {qa}"
proof -
  obtain as where as: "queue_nodes h (Addr qa) as xs" using assms by (auto simp: queue_rep_def)
  then have ch: "chain (nodes h) as xs" by (simp add: queue_nodes_def)
  obtain ns where "free_nodes (nodes h) (first_ptr as Null) = Some ns" "live ns = live (nodes h) - set as"
    using free_nodes_seg [of "nodes h" Null as] chain_distinct [OF ch] ch by (auto simp: chain_def)
  with as ch show ?thesis
    by (auto simp: destroy_queue_def queue_nodes_def chain_def live_simps live_simps_next)
qed

section \<open>The contract of a queue\<close>

text \<open>A client takes NULL as the answer of the empty queue, so it must not store NULL.\<close>

definition take_process :: "ptr \<Rightarrow> heap \<Rightarrow> (ptr option \<times> heap) c" where
  "take_process q h = do { (p, h) \<leftarrow> pop_queue h q; Some (if p = Null then None else Some p, h) }"

definition process_rep :: "ptr \<Rightarrow> heap \<Rightarrow> ptr list \<Rightarrow> bool" where
  "process_rep q h xs \<longleftrightarrow> queue_rep q h xs \<and> Null \<notin> set xs"

definition can_push :: "heap \<Rightarrow> bool" where
  "can_push h \<longleftrightarrow> alloc (nodes h) (next_addr (nodes h)) \<noteq> None"

lemma push_rep:
  assumes "queue_rep q h xs" and "can_push h" and "int (length xs) < INT_MAX"
  shows "\<exists>h'. push_queue h q e = Some h' \<and> queue_rep q h' (xs @ [e]) \<and> same_others h q h'"
proof -
  obtain as where as: "queue_nodes h q as xs" using assms(1) by (auto simp: queue_rep_def)
  obtain junk where "alloc (nodes h) (next_addr (nodes h)) = Some junk"
    using assms(2) by (auto simp: can_push_def)
  from push_nodes [OF as this assms(3), of e] assms(3) show ?thesis
    unfolding queue_rep_def by fastforce
qed

lemma push_rep_full:
  "queue_rep q h xs \<Longrightarrow> \<not> can_push h \<Longrightarrow> \<exists>h'. push_queue h q e = Some h' \<and> queue_rep q h' xs"
  using push_full by (fastforce simp: queue_rep_def can_push_def)

lemma pop_rep:
  assumes "queue_rep q h (x # xs)"
  shows "\<exists>h'. pop_queue h q = Some (x, h') \<and> queue_rep q h' xs \<and> same_others h q h'"
proof -
  obtain as where as: "queue_nodes h q as (x # xs)" using assms by (auto simp: queue_rep_def)
  then obtain a as' where "as = a # as'" "length as' = length xs"
    using chain_length [of "nodes h" as "x # xs"] by (cases as) (auto simp: queue_nodes_def)
  with pop_nodes [of h q a as' x xs] as assms show ?thesis by (auto simp: queue_rep_def)
qed

lemma pop_rep_empty: "queue_rep q h [] \<Longrightarrow> pop_queue h q = Some (Null, h)"
  by (auto simp: queue_rep_def pop_empty)

interpretation process_queue: fifo "process_rep q" "\<lambda>v h. push_queue h q v" "take_process q" can_push
  "\<lambda>v. v \<noteq> Null" "2147483647" for q
proof unfold_locales
  show "\<exists>s'. push_queue s q v = Some s' \<and> process_rep q s' (xs @ [v])"
    if "process_rep q s xs" "v \<noteq> Null" "can_push s" "length xs < 2147483647" for s xs v
    using that push_rep [of q s xs v] by (auto simp: process_rep_def)
  show "\<exists>s'. push_queue s q v = Some s' \<and> process_rep q s' xs"
    if "process_rep q s xs" "v \<noteq> Null" "\<not> can_push s" for s xs v
    using that push_rep_full [of q s xs v] by (auto simp: process_rep_def)
  show "\<exists>s'. take_process q s = Some (Some x, s') \<and> process_rep q s' xs"
    if "process_rep q s (x # xs)" for s x xs
    using that pop_rep [of q s x xs] by (auto simp: process_rep_def take_process_def)
  show "\<exists>s'. take_process q s = Some (None, s') \<and> process_rep q s' []" if "process_rep q s []" for s
    using that pop_rep_empty [of q s] by (auto simp: process_rep_def take_process_def)
qed

text \<open>While memory does not run out, no push fails.\<close>

definition memory_rep :: "ptr \<Rightarrow> heap \<Rightarrow> ptr list \<Rightarrow> bool" where
  "memory_rep q h xs \<longleftrightarrow> process_rep q h xs \<and> (\<forall>n. alloc (nodes h) n \<noteq> None)"

interpretation memory_queue: unbounded_fifo "memory_rep q" "\<lambda>v h. push_queue h q v" "take_process q" can_push
  "\<lambda>v. v \<noteq> Null" "2147483647" for q
proof unfold_locales
  show "\<exists>s'. push_queue s q v = Some s' \<and> memory_rep q s' (xs @ [v])"
    if "memory_rep q s xs" "v \<noteq> Null" "can_push s" "length xs < 2147483647" for s xs v
    using that push_rep [of q s xs v] by (auto simp: memory_rep_def process_rep_def same_others_def)
  show "\<exists>s'. take_process q s = Some (Some x, s') \<and> memory_rep q s' xs"
    if "memory_rep q s (x # xs)" for s x xs
    using that pop_rep [of q s x xs] by (auto simp: memory_rep_def process_rep_def take_process_def same_others_def)
  show "\<exists>s'. take_process q s = Some (None, s') \<and> memory_rep q s' []" if "memory_rep q s []" for s
    using that pop_rep_empty [of q s] by (auto simp: memory_rep_def process_rep_def take_process_def)
qed (simp_all add: memory_rep_def can_push_def)

lemma remove_rep:
  assumes "queue_rep q h xs" and "xs \<noteq> []" and "\<forall>x \<in> set xs. load (procs h) x \<noteq> None"
  shows "\<exists>h' us x vs. remove_process h q = Some (x, h') \<and> xs = us @ x # vs
    \<and> (\<forall>y \<in> set us. prio (procs h) y < prio (procs h) x)
    \<and> (\<forall>y \<in> set vs. prio (procs h) y \<le> prio (procs h) x)
    \<and> queue_rep q h' (us @ vs) \<and> same_others h q h'"
proof -
  obtain as where as: "queue_nodes h q as xs" and len: "int (length xs) \<le> INT_MAX"
    using assms(1) by (auto simp: queue_rep_def)
  from remove_nodes [OF as assms(2,3) len] len show ?thesis
    unfolding queue_rep_def by fastforce
qed

lemma size_rep: "queue_rep q h xs \<Longrightarrow> get_queue_size h q = Some (int (length xs))"
  by (auto simp: queue_rep_def queue_nodes_def get_queue_size_def load_Some_iff dest: chain_length)

section \<open>The test program\<close>

text \<open>The process at a pointer is known.\<close>

lemma new_process_ok:
  assumes "\<forall>n. alloc (procs h) n \<noteq> None" and "wf_store (procs h)"
  shows "\<exists>h'. new_process h i nm rt pr = Some (Addr (next_addr (procs h)), h')
    \<and> cells (procs h') = (cells (procs h))(next_addr (procs h) \<mapsto> \<lparr>id = i, name = nm, runtime = rt, priority = pr\<rparr>)
    \<and> next_addr (procs h') = Suc (next_addr (procs h)) \<and> alloc (procs h') = alloc (procs h)
    \<and> wf_store (procs h') \<and> nodes h' = nodes h \<and> queues h' = queues h"
proof -
  obtain junk where "alloc (procs h) (next_addr (procs h)) = Some junk" using assms(1) by blast
  with assms(2) show ?thesis
    by (cases junk) (auto simp: new_process_def malloc_ok wf_store_alloc)
qed

lemma free_proc_ok:
  "cells (procs h) a = Some r \<Longrightarrow>
   free_proc h (Addr a) = Some (h\<lparr>procs := (procs h)\<lparr>cells := (cells (procs h))(a := None)\<rparr>\<rparr>)"
  by (simp add: free_proc_def)

lemma dec_int_small: "dec_int 1 = ''1''" "dec_int 2 = ''2''" "dec_int 3 = ''3''" "dec_int 5 = ''5''"
  by code_simp+

lemma queue_rep_procs [simp]: "queue_rep q (h\<lparr>procs := ps\<rparr>) xs = queue_rep q h xs"
  by (simp add: queue_rep_def queue_nodes_def)

lemma three_processes:
  assumes "wf_store (procs h)" and "\<forall>n. alloc (procs h) n \<noteq> None"
  defines "p \<equiv> next_addr (procs h)"
  obtains h1 h2 h3 where "new_process h 1 ''ProcA'' 1000 2 = Some (Addr p, h1)"
    and "new_process h1 2 ''ProcB'' 500 5 = Some (Addr (Suc p), h2)"
    and "new_process h2 3 ''ProcC'' 300 1 = Some (Addr (Suc (Suc p)), h3)"
    and "cells (procs h3) = (cells (procs h))(p \<mapsto> \<lparr>id = 1, name = ''ProcA'', runtime = 1000, priority = 2\<rparr>,
      Suc p \<mapsto> \<lparr>id = 2, name = ''ProcB'', runtime = 500, priority = 5\<rparr>,
      Suc (Suc p) \<mapsto> \<lparr>id = 3, name = ''ProcC'', runtime = 300, priority = 1\<rparr>)"
    and "nodes h3 = nodes h" and "queues h3 = queues h"
proof -
  obtain h1 where h1: "new_process h 1 ''ProcA'' 1000 2 = Some (Addr p, h1)"
    "cells (procs h1) = (cells (procs h))(p \<mapsto> \<lparr>id = 1, name = ''ProcA'', runtime = 1000, priority = 2\<rparr>)"
    "next_addr (procs h1) = Suc p" "alloc (procs h1) = alloc (procs h)" "wf_store (procs h1)"
    "nodes h1 = nodes h" "queues h1 = queues h"
    using new_process_ok [of h 1 "''ProcA''" 1000 2] assms by auto
  obtain h2 where h2: "new_process h1 2 ''ProcB'' 500 5 = Some (Addr (Suc p), h2)"
    "cells (procs h2) = (cells (procs h1))(Suc p \<mapsto> \<lparr>id = 2, name = ''ProcB'', runtime = 500, priority = 5\<rparr>)"
    "next_addr (procs h2) = Suc (Suc p)" "alloc (procs h2) = alloc (procs h)" "wf_store (procs h2)"
    "nodes h2 = nodes h" "queues h2 = queues h"
    using new_process_ok [of h1 2 "''ProcB''" 500 5] assms(2) h1 by auto
  obtain h3 where "new_process h2 3 ''ProcC'' 300 1 = Some (Addr (Suc (Suc p)), h3)"
    "cells (procs h3) = (cells (procs h2))(Suc (Suc p) \<mapsto> \<lparr>id = 3, name = ''ProcC'', runtime = 300, priority = 1\<rparr>)"
    "nodes h3 = nodes h" "queues h3 = queues h"
    using new_process_ok [of h2 3 "''ProcC''" 300 1] assms(2) h2 by auto
  with h1 h2 show ?thesis by (intro that [of h1 h2 h3]) simp_all
qed

lemma main_ok:
  assumes "wf_store (queues h)" and "wf_store (nodes h)" and "wf_store (procs h)"
    and "\<forall>n. alloc (queues h) n \<noteq> None" and "\<forall>n. alloc (nodes h) n \<noteq> None"
    and "\<forall>n. alloc (procs h) n \<noteq> None" and "live (nodes h) = {}"
  shows "\<exists>h'. main h = Some (0,
     [''Pushing p1, p2, p3 onto queue...'', ''Queue size is now 3.'',
      ''Pop one element from the front:'', ''  Popped process: id=1, name=ProcA, priority=2'',
      ''Queue size after pop: 2.'', ''Remove process with highest priority:'',
      ''  Removed highest priority process: id=2, name=ProcB, priority=5'',
      ''Queue size after remove_process: 1.''], h')
   \<and> live (queues h') = live (queues h) \<and> live (nodes h') = {} \<and> cells (procs h') = cells (procs h)"
proof -
  let ?qa = "next_addr (queues h)" and ?p = "next_addr (procs h)"
  obtain h0 where h0: "create_queue h = Some (Addr ?qa, h0)" "queue_rep (Addr ?qa) h0 []"
    "nodes h0 = nodes h" "procs h0 = procs h" "live (queues h0) = insert ?qa (live (queues h))"
    using create_rep [of h] assms by auto
  obtain h1 h2 h3 where new: "new_process h0 1 ''ProcA'' 1000 2 = Some (Addr ?p, h1)"
    "new_process h1 2 ''ProcB'' 500 5 = Some (Addr (Suc ?p), h2)"
    "new_process h2 3 ''ProcC'' 300 1 = Some (Addr (Suc (Suc ?p)), h3)"
    and cells3: "cells (procs h3) = (cells (procs h))(?p \<mapsto> \<lparr>id = 1, name = ''ProcA'', runtime = 1000, priority = 2\<rparr>,
      Suc ?p \<mapsto> \<lparr>id = 2, name = ''ProcB'', runtime = 500, priority = 5\<rparr>,
      Suc (Suc ?p) \<mapsto> \<lparr>id = 3, name = ''ProcC'', runtime = 300, priority = 1\<rparr>)"
    and h3: "nodes h3 = nodes h" "queues h3 = queues h0"
    using three_processes [of h0] assms(3,6) unfolding h0(3,4) by blast
  let ?q = "Addr ?qa" and ?a = "Addr ?p" and ?b = "Addr (Suc ?p)" and ?c = "Addr (Suc (Suc ?p))"
  have can: "can_push g" if "alloc (nodes g) = alloc (nodes h)" for g
    using that assms(5) by (simp add: can_push_def)
  have r3: "queue_rep ?q h3 []" using h0(2,3) h3 by (simp add: queue_rep_def queue_nodes_def)
  obtain h4 where h4: "push_queue h3 ?q ?a = Some h4" "queue_rep ?q h4 [?a]" "same_others h3 ?q h4"
    using push_rep [OF r3 can, of ?a] h3(1) by auto
  obtain h5 where h5: "push_queue h4 ?q ?b = Some h5" "queue_rep ?q h5 [?a, ?b]" "same_others h4 ?q h5"
    using push_rep [OF h4(2) can, of ?b] h4(3) h3(1) by (auto simp: same_others_def)
  obtain h6 where h6: "push_queue h5 ?q ?c = Some h6" "queue_rep ?q h6 [?a, ?b, ?c]" "same_others h5 ?q h6"
    using push_rep [OF h5(2) can, of ?c] h5(3) h4(3) h3(1) by (auto simp: same_others_def)
  obtain h7 where h7: "pop_queue h6 ?q = Some (?a, h7)" "queue_rep ?q h7 [?b, ?c]" "same_others h6 ?q h7"
    using pop_rep [OF h6(2)] by auto
  have procs7: "procs h7 = procs h3" "procs h6 = procs h3" and q7: "live (queues h7) = live (queues h0)"
    using h4(3) h5(3) h6(3) h7(3) h3(2) by (auto simp: same_others_def)
  have known: "\<forall>x \<in> set [?b, ?c]. load (procs h7) x \<noteq> None" by (simp add: procs7 cells3)
  have "prio (procs h7) ?b = 5" "prio (procs h7) ?c = 1" by (simp_all add: prio_def procs7 cells3)
  then obtain h8 where h8: "remove_process h7 ?q = Some (?b, h8)" "queue_rep ?q h8 [?c]" "same_others h7 ?q h8"
    using remove_rep [OF h7(2) _ known] by (auto simp: Cons_eq_append_conv)
  obtain h9 where h9: "pop_queue h8 ?q = Some (?c, h9)" "queue_rep ?q h9 []" "same_others h8 ?q h9"
    using pop_rep [OF h8(2)] by auto
  have procs9: "procs h9 = procs h3" "procs h8 = procs h3" and q9: "live (queues h9) = live (queues h0)"
    using h8(3) h9(3) procs7 q7 by (auto simp: same_others_def)
  let ?h10 = "h9\<lparr>procs := (procs h3)\<lparr>cells := (cells (procs h3))(Suc (Suc ?p) := None)\<rparr>\<rparr>"
  obtain h11 where h11: "destroy_queue ?h10 ?q = Some h11" "live (nodes h11) = {}" "procs h11 = procs ?h10"
    "live (queues h11) = live (queues h9) - {?qa}"
    using destroy_rep [of ?qa ?h10 "[]"] h9(2) by auto
  have fresh: "cells (procs h) ?p = None" "cells (procs h) (Suc ?p) = None" "cells (procs h) (Suc (Suc ?p)) = None"
    using assms(3) by (auto simp: fresh_cell)
  have "?qa \<notin> live (queues h)" using assms(1) fresh_cell [of "queues h" ?qa] by (auto simp: live_def)
  then have "live (queues h11) = live (queues h)" using h11(4) q9 h0(5) by auto
  moreover have "(cells (procs h3))(Suc (Suc ?p) := None, ?p := None, Suc ?p := None) = cells (procs h)"
    using fresh by (auto simp: cells3)
  ultimately show ?thesis
    using h0(1) new h4(1) h5(1) h6(1) h7(1) h8(1) h9(1) h11(1-3)
      size_rep [OF h6(2)] size_rep [OF h7(2)] size_rep [OF h8(2)]
    by (simp add: main_def show_process_def free_proc_ok procs7 procs9 cells3 dec_int_small
        fun_upd_twist)
qed

section \<open>Sample heaps\<close>

definition start_heap :: heap where
  "start_heap = \<lparr>queues = empty_store (\<lambda>_. Some \<lparr>head = Null, tail = Null, qsize = 0\<rparr>),
     nodes = empty_store (\<lambda>_. Some \<lparr>prv = Null, nxt = Null, data = Null\<rparr>),
     procs = empty_store (\<lambda>_. Some \<lparr>id = 0, name = [], runtime = 0, priority = 0\<rparr>)\<rparr>"

text \<open>Two processes in a queue, of equal priority.\<close>

definition tie_heap :: heap where
  "tie_heap = start_heap
     \<lparr>queues := \<lparr>cells = [0 \<mapsto> \<lparr>head = Addr 0, tail = Addr 1, qsize = 2\<rparr>], next_addr = 1, alloc = (\<lambda>_. None)\<rparr>,
      nodes := \<lparr>cells = [0 \<mapsto> \<lparr>prv = Null, nxt = Addr 1, data = Addr 0\<rparr>,
                         1 \<mapsto> \<lparr>prv = Addr 0, nxt = Null, data = Addr 1\<rparr>], next_addr = 2, alloc = (\<lambda>_. None)\<rparr>,
      procs := \<lparr>cells = [0 \<mapsto> \<lparr>id = 1, name = ''A'', runtime = 1, priority = 4\<rparr>,
                         1 \<mapsto> \<lparr>id = 2, name = ''B'', runtime = 1, priority = 4\<rparr>], next_addr = 2,
                alloc = (\<lambda>_. None)\<rparr>\<rparr>"

lemma start_heap_facts:
  "wf_store (queues start_heap)" "wf_store (nodes start_heap)" "wf_store (procs start_heap)"
  "\<forall>n. alloc (queues start_heap) n \<noteq> None" "\<forall>n. alloc (nodes start_heap) n \<noteq> None"
  "\<forall>n. alloc (procs start_heap) n \<noteq> None" "live (nodes start_heap) = {}"
  by (simp_all add: start_heap_def live_def) (simp_all add: empty_store_def)

lemma tie_heap_rep: "queue_rep (Addr 0) tie_heap [Addr 0, Addr 1]"
  unfolding queue_rep_def queue_nodes_def chain_def
  by (intro conjI exI [of _ "[0, 1]"]) (auto simp: tie_heap_def live_def wf_store_def split: if_splits)

section \<open>Properties\<close>

text \<open>C16: The doubly linked queue is a queue: every sequence of pushes and pops of non-NULL pointers,
  with any mixture of failing allocations, is free of undefined behaviour; what was stored is a
  subsequence of what was pushed and comes out in order, and the size is that of the list. While
  memory lasts, everything pushed is stored and the run gives exactly the answers of the
  abstract queue.\<close>

theorem process_queue_fifo:
  assumes "queue_rep q h []" and "Null \<notin> set (puts ops)" and "length (puts ops) \<le> 2147483647"
  shows "\<exists>ins outs h' ys. run_ops (\<lambda>v h. push_queue h q v) (take_process q) can_push ops h = Some (ins, outs, h')
    \<and> queue_rep q h' ys \<and> get_queue_size h' q = Some (int (length ys))
    \<and> ins = delivered_values outs @ ys \<and> subseq ins (puts ops)
    \<and> ((\<forall>n. alloc (nodes h) n \<noteq> None) \<longrightarrow> ins = puts ops \<and> (outs, ys) = spec_run \<infinity> ops [])"
proof -
  have r: "process_rep q h []" and v: "\<forall>v \<in> set (puts ops). v \<noteq> Null"
    using assms(1,2) by (auto simp: process_rep_def)
  show ?thesis
  proof (cases "\<forall>n. alloc (nodes h) n \<noteq> None")
    case True
    with r have "memory_rep q h []" by (simp add: memory_rep_def)
    from memory_queue.run_stores_all [OF this v] assms(3) show ?thesis
      by (cases "spec_run \<infinity> ops []") (auto simp: memory_rep_def process_rep_def size_rep)
  next
    case False
    obtain ins outs h' ys where "run_ops (\<lambda>v h. push_queue h q v) (take_process q) can_push ops h = Some (ins, outs, h')"
      "process_rep q h' ys" "ins = delivered_values outs @ ys" "subseq ins (puts ops)"
      using process_queue.run_fifo [OF r v assms(3)] by blast
    moreover have "ins = puts ops \<and> (outs, ys) = spec_run \<infinity> ops []" if "\<forall>n. alloc (nodes h) n \<noteq> None"
      using False that by blast
    ultimately show ?thesis
      by - (rule exI [of _ ins], intro exI [of _ outs] exI [of _ h'] exI [of _ ys] conjI impI,
          simp_all add: process_rep_def size_rep del: not_None_eq)
  qed
qed

theorem process_queue_fifo_witness:
  "\<exists>q h h'. create_queue start_heap = Some (q, h)
    \<and> run_ops (\<lambda>v h. push_queue h q v) (take_process q) can_push
        [Put (Addr 5), Put (Addr 6), Get, Put (Addr 7), Get] h
      = Some ([Addr 5, Addr 6, Addr 7], [Some (Addr 5), Some (Addr 6)], h')
    \<and> queue_rep q h' [Addr 7]"
proof -
  obtain h where h: "create_queue start_heap = Some (Addr (next_addr (queues start_heap)), h)"
    "queue_rep (Addr (next_addr (queues start_heap))) h []" "nodes h = nodes start_heap"
    using create_rep [of start_heap] start_heap_facts by auto
  have "\<forall>n. alloc (nodes h) n \<noteq> None" unfolding h(3) by (simp add: start_heap_facts)
  with process_queue_fifo [OF h(2), of "[Put (Addr 5), Put (Addr 6), Get, Put (Addr 7), Get]"] h(1)
  show ?thesis by fastforce
qed

text \<open>C15: \<open>remove_process\<close> takes out and returns the first process of maximal priority
  (all before it have a smaller one, none after it a larger one), leaves the other elements in
  order and every process unchanged, wherever the element is in the doubly linked list.\<close>

theorem remove_process_first_max:
  assumes "queue_rep q h xs" and "xs \<noteq> []" and "\<forall>x \<in> set xs. load (procs h) x \<noteq> None"
  shows "\<exists>h' us x vs. remove_process h q = Some (x, h') \<and> xs = us @ x # vs
    \<and> (\<forall>y \<in> set us. prio (procs h) y < prio (procs h) x)
    \<and> (\<forall>y \<in> set vs. prio (procs h) y \<le> prio (procs h) x)
    \<and> queue_rep q h' (us @ vs) \<and> procs h' = procs h"
  using remove_rep [OF assms] by (auto simp: same_others_def)

theorem remove_process_first_max_witness:
  "\<exists>h' us x vs. remove_process tie_heap (Addr 0) = Some (x, h') \<and> [Addr 0, Addr 1] = us @ x # vs
    \<and> (\<forall>y \<in> set us. prio (procs tie_heap) y < prio (procs tie_heap) x)
    \<and> (\<forall>y \<in> set vs. prio (procs tie_heap) y \<le> prio (procs tie_heap) x)
    \<and> queue_rep (Addr 0) h' (us @ vs) \<and> procs h' = procs tie_heap"
  by (rule remove_process_first_max [OF tie_heap_rep]) (simp_all add: tie_heap_def)

text \<open>The queue test program exits with 0, prints exactly these lines (ProcA popped first, then
  ProcB removed as the process of highest priority), and leaves nothing allocated.\<close>

theorem queuetest_main:
  assumes "wf_store (queues h)" and "wf_store (nodes h)" and "wf_store (procs h)"
    and "\<forall>n. alloc (queues h) n \<noteq> None" and "\<forall>n. alloc (nodes h) n \<noteq> None"
    and "\<forall>n. alloc (procs h) n \<noteq> None" and "live (nodes h) = {}"
  shows "\<exists>h'. main h = Some (0,
     [''Pushing p1, p2, p3 onto queue...'', ''Queue size is now 3.'',
      ''Pop one element from the front:'', ''  Popped process: id=1, name=ProcA, priority=2'',
      ''Queue size after pop: 2.'', ''Remove process with highest priority:'',
      ''  Removed highest priority process: id=2, name=ProcB, priority=5'',
      ''Queue size after remove_process: 1.''], h')
   \<and> live (queues h') = live (queues h) \<and> live (nodes h') = {} \<and> cells (procs h') = cells (procs h)"
  by (rule main_ok) (use assms in auto)

theorem queuetest_main_witness:
  "\<exists>h'. main start_heap = Some (0,
     [''Pushing p1, p2, p3 onto queue...'', ''Queue size is now 3.'',
      ''Pop one element from the front:'', ''  Popped process: id=1, name=ProcA, priority=2'',
      ''Queue size after pop: 2.'', ''Remove process with highest priority:'',
      ''  Removed highest priority process: id=2, name=ProcB, priority=5'',
      ''Queue size after remove_process: 1.''], h')
   \<and> live (queues h') = live (queues start_heap) \<and> live (nodes h') = {}
   \<and> cells (procs h') = cells (procs start_heap)"
  by (rule queuetest_main) (fact start_heap_facts)+

end
