(* ===== verification/C_Arrays.thy ===== *)
theory C_Arrays
  imports C_Store
begin

text \<open>
  Arrays of \<open>int\<close> on the heap: allocation, and access to an element, which is undefined outside of the
  array.
\<close>

text \<open>\<open>malloc(sizeof(int) * n)\<close>: for negative \<open>n\<close> the size is converted to a number no allocation can
  satisfy; otherwise the object has \<open>n\<close> elements of indeterminate value.\<close>

definition malloc_ints :: "int list store \<Rightarrow> int \<Rightarrow> ptr \<times> int list store" where
  "malloc_ints as n =
     (if n < 0 then (Null, as)
      else
        (case malloc as of
           (Null, as) \<Rightarrow> (Null, as)
         | (Addr a, as) \<Rightarrow>
             (Addr a, as\<lparr>cells := (cells as)(a :=
                map_option (\<lambda>junk. take (nat n) (junk @ replicate (nat n) 0)) (cells as a))\<rparr>)))"

text \<open>Access to an element of an array.\<close>

definition load_elem :: "int list store \<Rightarrow> ptr \<Rightarrow> int \<Rightarrow> int c" where
  "load_elem as p i = do { xs \<leftarrow> load as p; (if 0 \<le> i \<and> i < int (length xs) then Some (xs ! nat i) else None) }"

definition store_elem :: "int list store \<Rightarrow> ptr \<Rightarrow> int \<Rightarrow> int \<Rightarrow> int list store c" where
  "store_elem as p i v = do {
     xs \<leftarrow> load as p;
     (if 0 \<le> i \<and> i < int (length xs) then assign as p (\<lambda>_. xs[nat i := v]) else None)
   }"

end
