(* ===== verification/Week7_Ring.thy ===== *)
theory Week7_Ring
  imports C_Arrays Fifo_Interface
begin

text \<open>
  \<open>week7/queuep.h\<close>, \<open>week7/queuep.c\<close>: a circular queue of integers in an array of fixed capacity. The
  heap has a store for the structs and one for the arrays; neither \<open>malloc\<close> of \<open>queue_init\<close> is
  checked.
\<close>

record queue_t =
  data :: ptr
  head :: int
  tail :: int
  qsize :: int
  capacity :: int

record heap =
  structs :: "queue_t store"
  arrays :: "int list store"

section \<open>Operations\<close>

definition queue_init :: "heap \<Rightarrow> int \<Rightarrow> (ptr \<times> heap) c" where
  "queue_init h cap = do {
     let (q, ss) = malloc (structs h);
     let (d, as) = malloc_ints (arrays h) cap;
     ss \<leftarrow> assign ss q (\<lambda>r. r\<lparr>data := d\<rparr>);
     ss \<leftarrow> assign ss q (\<lambda>r. r\<lparr>head := 0\<rparr>);
     ss \<leftarrow> assign ss q (\<lambda>r. r\<lparr>tail := 0\<rparr>);
     ss \<leftarrow> assign ss q (\<lambda>r. r\<lparr>qsize := 0\<rparr>);
     ss \<leftarrow> assign ss q (\<lambda>r. r\<lparr>capacity := cap\<rparr>);
     Some (q, h\<lparr>structs := ss, arrays := as\<rparr>)
   }"

definition queue_put :: "heap \<Rightarrow> ptr \<Rightarrow> int \<Rightarrow> heap c" where
  "queue_put h q v = do {
     r \<leftarrow> load (structs h) q;
     (if qsize r < capacity r
      then do {
        as \<leftarrow> store_elem (arrays h) (data r) (tail r) v;
        t \<leftarrow> c_incr (tail r);
        t \<leftarrow> c_rem t (capacity r);
        n \<leftarrow> c_incr (qsize r);
        ss \<leftarrow> assign (structs h) q (\<lambda>r. r\<lparr>tail := t, qsize := n\<rparr>);
        Some (h\<lparr>structs := ss, arrays := as\<rparr>)
      }
      else Some h)
   }"

definition queue_get :: "heap \<Rightarrow> ptr \<Rightarrow> (int \<times> heap) c" where
  "queue_get h q = do {
     r \<leftarrow> load (structs h) q;
     (if qsize r > 0
      then do {
        result \<leftarrow> load_elem (arrays h) (data r) (head r);
        t \<leftarrow> c_incr (head r);
        t \<leftarrow> c_rem t (capacity r);
        n \<leftarrow> c_decr (qsize r);
        ss \<leftarrow> assign (structs h) q (\<lambda>r. r\<lparr>head := t, qsize := n\<rparr>);
        Some (result, h\<lparr>structs := ss\<rparr>)
      }
      else Some (-1, h))
   }"

definition queue_empty :: "heap \<Rightarrow> ptr \<Rightarrow> bool c" where
  "queue_empty h q = do { r \<leftarrow> load (structs h) q; Some (qsize r = 0) }"

definition queue_full :: "heap \<Rightarrow> ptr \<Rightarrow> bool c" where
  "queue_full h q = do { r \<leftarrow> load (structs h) q; Some (qsize r = capacity r) }"

definition queue_size :: "heap \<Rightarrow> ptr \<Rightarrow> int c" where
  "queue_size h q = do { r \<leftarrow> load (structs h) q; Some (qsize r) }"

section \<open>The list a ring represents\<close>

definition window :: "int list \<Rightarrow> nat \<Rightarrow> nat \<Rightarrow> int list" where
  "window xs i n = map (\<lambda>j. xs ! ((i + j) mod length xs)) [0 ..< n]"

definition ring_rep :: "nat \<Rightarrow> ptr \<Rightarrow> heap \<Rightarrow> int list \<Rightarrow> bool" where
  "ring_rep cap q h xs \<longleftrightarrow> 0 < cap \<and> cap \<le> 2147483647
   \<and> (\<exists>d i arr. load (structs h) q = Some \<lparr>data = d, head = int i,
          tail = int ((i + length xs) mod cap), qsize = int (length xs), capacity = int cap\<rparr>
        \<and> load (arrays h) d = Some arr \<and> length arr = cap \<and> i < cap \<and> length xs \<le> cap
        \<and> xs = window arr i (length xs))"

lemma window_simps [simp]:
  "window xs i 0 = []" "length (window xs i n) = n"
  by (simp_all add: window_def)

lemma window_Suc: "window xs i (Suc n) = window xs i n @ [xs ! ((i + n) mod length xs)]"
  by (simp add: window_def)

lemma window_Cons: "window xs i (Suc n) = xs ! (i mod length xs) # window xs (Suc i mod length xs) n"
proof -
  have "(Suc i mod length xs + j) mod length xs = (i + Suc j) mod length xs" for j
    by (simp add: mod_add_left_eq)
  then show ?thesis by (simp add: window_def upt_rec [of 0 "Suc n"] map_Suc_upt [symmetric] comp_def del: upt_Suc)
qed

lemma window_update:
  assumes "n < length xs" and "i < length xs"
  shows "window (xs[(i + n) mod length xs := v]) i n = window xs i n"
proof -
  have "(i + j) mod length xs \<noteq> (i + n) mod length xs" if "j < n" for j
  proof
    assume "(i + j) mod length xs = (i + n) mod length xs"
    then have "length xs dvd (i + n) - (i + j)" using that by (metis add_le_mono1 le_add1 less_or_eq_imp_le mod_eq_dvd_iff_nat nat_add_left_cancel_le)
    with that assms(1) show False by (auto dest: dvd_imp_le)
  qed
  then show ?thesis by (fastforce simp: window_def nth_list_update)
qed

lemma ring_empty: "ring_rep cap q h xs \<Longrightarrow> queue_empty h q = Some (xs = [])"
  by (auto simp: ring_rep_def queue_empty_def)

lemma ring_full: "ring_rep cap q h xs \<Longrightarrow> queue_full h q = Some (length xs = cap)"
  by (auto simp: ring_rep_def queue_full_def)

lemma ring_size: "ring_rep cap q h xs \<Longrightarrow> queue_size h q = Some (int (length xs))"
  by (auto simp: ring_rep_def queue_size_def)

lemma ring_bound: "ring_rep cap q h xs \<Longrightarrow> length xs \<le> cap"
  by (auto simp: ring_rep_def)

text \<open>Advancing an index around the ring.\<close>

lemma advance:
  assumes "i < cap" and "cap \<le> 2147483647"
  shows "c_incr (int i) = Some (int (Suc i))" and "c_rem (int (Suc i)) (int cap) = Some (int (Suc i mod cap))"
proof -
  show "c_incr (int i) = Some (int (Suc i))" using assms c_incr_Some [of "int i"] by simp
  show "c_rem (int (Suc i)) (int cap) = Some (int (Suc i mod cap))"
    using assms c_rem_Some [of "int (Suc i)" "int cap"] by (simp only: zmod_int)
qed

lemma ring_repI:
  assumes "load (structs h) q = Some \<lparr>data = d, head = int i, tail = int t, qsize = int n, capacity = int cap\<rparr>"
    and "load (arrays h) d = Some arr" and "t = (i + n) mod cap" and "length arr = cap" and "i < cap"
    and "n \<le> cap" and "xs = window arr i n" and "cap \<le> 2147483647"
  shows "ring_rep cap q h xs"
  using assms unfolding ring_rep_def by (intro conjI exI [of _ d] exI [of _ i] exI [of _ arr]) auto

lemma ring_repE:
  assumes "ring_rep cap q h xs"
  obtains a d i t arr where "q = Addr a"
    and "cells (structs h) a = Some \<lparr>data = Addr d, head = int i, tail = int t, qsize = int (length xs), capacity = int cap\<rparr>"
    and "cells (arrays h) d = Some arr" and "t = (i + length xs) mod cap" and "length arr = cap" and "i < cap"
    and "t < cap" and "length xs \<le> cap" and "xs = window arr i (length xs)" and "cap \<le> 2147483647"
  using assms by (auto simp: ring_rep_def load_Some_iff)

lemma ring_put:
  assumes "ring_rep cap q h xs" and "length xs < cap"
  shows "\<exists>h'. queue_put h q v = Some h' \<and> ring_rep cap q h' (xs @ [v])"
  using assms(1)
proof (rule ring_repE)
  fix a d i t arr
  assume q: "q = Addr a" "cells (structs h) a = Some \<lparr>data = Addr d, head = int i, tail = int t,
      qsize = int (length xs), capacity = int cap\<rparr>"
    and arr: "cells (arrays h) d = Some arr" "t = (i + length xs) mod cap" "length arr = cap" "i < cap" "t < cap"
      "xs = window arr i (length xs)"
    and cap: "cap \<le> 2147483647"
  let ?h = "h\<lparr>structs := (structs h)\<lparr>cells := (cells (structs h))(a := Some \<lparr>data = Addr d, head = int i,
      tail = int (Suc t mod cap), qsize = int (Suc (length xs)), capacity = int cap\<rparr>)\<rparr>,
    arrays := (arrays h)\<lparr>cells := (cells (arrays h))(d := Some (arr[t := v]))\<rparr>\<rparr>"
  have "c_incr (int (length xs)) = Some (int (Suc (length xs)))"
    using assms(2) cap c_incr_Some [of "int (length xs)"] by simp
  then have "queue_put h q v = Some ?h"
    using q arr assms(2) advance [OF arr(5) cap] by (simp add: queue_put_def store_elem_def)
  moreover have "xs @ [v] = window (arr[t := v]) i (Suc (length xs))"
    using window_update [of "length xs" arr i v] arr assms(2) by (simp add: window_Suc)
  then have "ring_rep cap q ?h (xs @ [v])"
    using q arr assms(2) cap
    by (intro ring_repI [where n = "Suc (length xs)" and d = "Addr d"]) (auto simp: mod_Suc_eq)
  ultimately show ?thesis by blast
qed

lemma ring_put_full:
  "ring_rep cap q h xs \<Longrightarrow> \<not> length xs < cap \<Longrightarrow> queue_put h q v = Some h"
  by (auto simp: ring_rep_def queue_put_def)

lemma ring_get:
  assumes "ring_rep cap q h (x # xs)"
  shows "\<exists>h'. queue_get h q = Some (x, h') \<and> ring_rep cap q h' xs"
  using assms
proof (rule ring_repE)
  fix a d i t arr
  assume q: "q = Addr a" "cells (structs h) a = Some \<lparr>data = Addr d, head = int i, tail = int t,
      qsize = int (length (x # xs)), capacity = int cap\<rparr>"
    and arr: "cells (arrays h) d = Some arr" "t = (i + length (x # xs)) mod cap" "length arr = cap" "i < cap"
      "x # xs = window arr i (length (x # xs))" and len: "length (x # xs) \<le> cap"
    and cap: "cap \<le> 2147483647"
  let ?h = "h\<lparr>structs := (structs h)\<lparr>cells := (cells (structs h))(a := Some \<lparr>data = Addr d,
      head = int (Suc i mod cap), tail = int t, qsize = int (length xs), capacity = int cap\<rparr>)\<rparr>\<rparr>"
  have x: "arr ! i = x" "xs = window arr (Suc i mod cap) (length xs)"
    using arr(3-5) by (simp_all add: window_Cons)
  have "c_decr (int (Suc (length xs))) = Some (int (length xs))"
    using cap len c_decr_Some [of "int (Suc (length xs))"] by simp
  then have "queue_get h q = Some (x, ?h)"
    using q arr(1,3,4) x(1) advance [OF arr(4) cap] by (simp add: queue_get_def load_elem_def)
  moreover have "(Suc i mod cap + length xs) mod cap = (i + length (x # xs)) mod cap"
    by (simp add: mod_add_left_eq)
  then have "ring_rep cap q ?h xs"
    using q arr x(2) len cap
    by (intro ring_repI [where n = "length xs" and d = "Addr d" and i = "Suc i mod cap"]) auto
  ultimately show ?thesis by blast
qed

lemma ring_get_empty: "ring_rep cap q h [] \<Longrightarrow> queue_get h q = Some (-1, h)"
  by (auto simp: ring_rep_def queue_get_def)

lemma ring_init:
  assumes "0 < cap" and "cap \<le> 2147483647" and "alloc (structs h) (next_addr (structs h)) \<noteq> None"
    and "alloc (arrays h) (next_addr (arrays h)) \<noteq> None"
  shows "\<exists>h'. queue_init h (int cap) = Some (Addr (next_addr (structs h)), h')
    \<and> ring_rep cap (Addr (next_addr (structs h))) h' []"
proof -
  obtain r junk where "alloc (structs h) (next_addr (structs h)) = Some r"
    "alloc (arrays h) (next_addr (arrays h)) = Some junk"
    using assms(3,4) by blast
  then show ?thesis
    using assms(1,2)
    by (cases r) (auto simp: queue_init_def malloc_ok malloc_ints_def
        intro!: ring_repI [where n = 0 and i = 0 and t = 0 and d = "Addr (next_addr (arrays h))"])
qed

section \<open>The contract of a queue\<close>

text \<open>The answer \<open>-1\<close> of \<open>queue_get\<close> also is a value the queue can hold: whether it comes from the empty
  queue is told by \<open>queue_empty\<close> before the call.\<close>

definition take_int :: "ptr \<Rightarrow> heap \<Rightarrow> (int option \<times> heap) c" where
  "take_int q h = do {
     empty \<leftarrow> queue_empty h q;
     (v, h) \<leftarrow> queue_get h q;
     Some (if empty then None else Some v, h)
   }"

definition can_put :: "ptr \<Rightarrow> heap \<Rightarrow> bool" where
  "can_put q h \<longleftrightarrow> (case load (structs h) q of None \<Rightarrow> False | Some r \<Rightarrow> qsize r < capacity r)"

lemma can_put_iff: "ring_rep cap q h xs \<Longrightarrow> can_put q h \<longleftrightarrow> length xs < cap"
  by (auto simp: ring_rep_def can_put_def)

interpretation ring: bounded_fifo "ring_rep cap q" "\<lambda>v h. queue_put h q v" "take_int q" "can_put q"
  "\<lambda>_. True" limit "enat cap" for cap q limit
proof unfold_locales
  show "\<exists>s'. queue_put s q v = Some s' \<and> ring_rep cap q s' (xs @ [v])"
    if "ring_rep cap q s xs" "can_put q s" for s xs v
    using that ring_put [of cap q s xs v] can_put_iff by fastforce
  show "\<exists>s'. queue_put s q v = Some s' \<and> ring_rep cap q s' xs"
    if "ring_rep cap q s xs" "\<not> can_put q s" for s xs v
    using that ring_put_full [of cap q s xs v] can_put_iff by auto
  show "\<exists>s'. take_int q s = Some (Some x, s') \<and> ring_rep cap q s' xs"
    if "ring_rep cap q s (x # xs)" for s x xs
    using that ring_get [of cap q s x xs] ring_empty [OF that] by (auto simp: take_int_def)
  show "\<exists>s'. take_int q s = Some (None, s') \<and> ring_rep cap q s' []" if "ring_rep cap q s []" for s
    using that ring_get_empty [of cap q s] ring_empty [OF that] by (auto simp: take_int_def)
  show "can_put q s \<longleftrightarrow> enat (length xs) < enat cap" if "ring_rep cap q s xs" for s xs
    using that can_put_iff by simp
qed

text \<open>A run of calls as a client makes them, with the integers \<open>queue_get\<close> returns.\<close>

fun run_ring :: "ptr \<Rightarrow> int fifo_op list \<Rightarrow> heap \<Rightarrow> (int list \<times> heap) c" where
  "run_ring q [] h = Some ([], h)"
| "run_ring q (Put v # ops) h = do { h \<leftarrow> queue_put h q v; run_ring q ops h }"
| "run_ring q (Get # ops) h = do {
     (v, h) \<leftarrow> queue_get h q;
     (vs, h) \<leftarrow> run_ring q ops h;
     Some (v # vs, h)
   }"

definition returned :: "int option \<Rightarrow> int" where
  "returned a = (case a of None \<Rightarrow> - 1 | Some v \<Rightarrow> v)"

lemma take_int_returned: "take_int q h = Some (a, h') \<Longrightarrow> queue_get h q = Some (returned a, h')"
  by (auto simp: take_int_def queue_empty_def queue_get_def returned_def split: bind_splits if_splits)

lemma run_ring_returned:
  "run_ops (\<lambda>v h. queue_put h q v) (take_int q) (can_put q) ops h = Some (ins, outs, h') \<Longrightarrow>
   run_ring q ops h = Some (map returned outs, h')"
proof (induction ops arbitrary: h ins outs)
  case (Cons p ops)
  then show ?case by (cases p) (fastforce dest: take_int_returned split: bind_splits)+
qed simp

section \<open>Properties\<close>

definition start_heap :: heap where
  "start_heap = \<lparr>structs = empty_store (\<lambda>_. Some \<lparr>data = Null, head = 9, tail = 9, qsize = 9, capacity = 9\<rparr>),
     arrays = empty_store (\<lambda>_. Some [1, 2, 3])\<rparr>"

lemma start_ring: "0 < cap \<Longrightarrow> cap \<le> 2147483647 \<Longrightarrow>
   \<exists>h. queue_init start_heap (int cap) = Some (Addr 0, h) \<and> ring_rep cap (Addr 0) h []"
  using ring_init [of cap start_heap] by (simp add: start_heap_def empty_store_def)

text \<open>C14: The ring buffer implements a bounded queue of ints: every sequence of calls of put and get
  is free of undefined behaviour; the integers the gets return are the answers of the abstract
  queue of that capacity, with -1 for the answer that it is empty (a stored -1 is returned as
  well); a put into a full queue is dropped; what is left is what the abstract queue has left,
  never more than the capacity, and size, full and empty tell the truth.\<close>

theorem ring_fifo:
  assumes "ring_rep cap q h []"
  shows "\<exists>outs h' ys. spec_run (enat cap) ops [] = (outs, ys)
    \<and> run_ring q ops h = Some (map returned outs, h')
    \<and> ring_rep cap q h' ys \<and> length ys \<le> cap
    \<and> queue_size h' q = Some (int (length ys)) \<and> queue_full h' q = Some (length ys = cap)
    \<and> queue_empty h' q = Some (ys = []) \<and> subseq (delivered_values outs @ ys) (puts ops)"
proof -
  obtain outs ys where spec: "spec_run (enat cap) ops [] = (outs, ys)" by (cases "spec_run (enat cap) ops []")
  with ring.run_refines [OF assms, of ops "length (puts ops)"] obtain ins h' where
    "run_ops (\<lambda>v h. queue_put h q v) (take_int q) (can_put q) ops h = Some (ins, outs, h')"
    "ring_rep cap q h' ys" "subseq ins (puts ops)" "ins = delivered_values outs @ ys"
    by auto
  with spec show ?thesis
    by (intro exI [of _ outs] exI [of _ h'] exI [of _ ys])
      (auto simp: ring_size ring_full ring_empty ring_bound run_ring_returned)
qed

theorem ring_fifo_witness:
  "\<exists>h h'. queue_init start_heap 2 = Some (Addr 0, h)
    \<and> run_ring (Addr 0) [Put 5, Put (- 1), Put 7, Get, Put 8, Get, Get, Get, Put 9] h = Some ([5, - 1, 8, - 1], h')
    \<and> ring_rep 2 (Addr 0) h' [9]"
proof -
  obtain h where "queue_init start_heap 2 = Some (Addr 0, h)" "ring_rep 2 (Addr 0) h []"
    using start_ring [of 2] by auto
  with ring_fifo [of 2 "Addr 0" h "[Put 5, Put (- 1), Put 7, Get, Put 8, Get, Get, Get, Put 9]"] show ?thesis
    by (fastforce simp: returned_def)
qed

end
