(* ===== verification/Week7_Prodcons.thy ===== *)
theory Week7_Prodcons
  imports Week7_Ring "HOL-Library.Multiset"
begin

text \<open>
  \<open>week7/pqueuep.c\<close>, \<open>week7/pqueuepmain.c\<close>: two producers and two consumers share a bounded buffer,
  protected by a mutex and one condition variable, and two counters, protected by a second mutex. A
  thread is a program counter; a step executes one statement on the shared state, so every
  interleaving of statements is a run. What only prints or sleeps is left out. Waiting on the
  condition variable gives the mutex up and blocks in one step; a waiting thread goes on when a
  broadcast reaches it, or spuriously, and then takes the mutex again.
\<close>

type_synonym tid = nat

text \<open>The statements of \<open>producer\<close> with \<open>pput\<close> and of \<open>consumer\<close> with \<open>pget\<close>. The argument is the value of
  the local variable the thread still needs.\<close>

datatype pc =
    Idle | Done
  | P_Lock | P_Check | P_Quit | P_Incr | P_Unlock int
  | Put_Lock int | Put_Test int | Put_Wait int | Put_Woken int | Put_Store int | Put_Cast | Put_Unlock
  | C_Lock | C_Check | C_Quit | C_Unlock
  | Get_Lock | Get_Test | Get_Wait | Get_Woken | Get_Take | Get_Cast int | Get_Unlock int
  | Count_Lock int | Count_Incr int | Count_Unlock

datatype main_pc = Create tid | Join tid | Finished

text \<open>\<open>stored\<close> and \<open>taken\<close> record the values put into and taken out of the buffer so far.\<close>

record state =
  ring :: heap
  buf :: ptr
  mutex :: "tid option"
  gCountLock :: "tid option"
  totalProduced :: int
  totalConsumed :: int
  pc :: "tid \<Rightarrow> pc"
  main_pc :: main_pc
  stored :: "int list"
  taken :: "int list"

definition CAPACITY :: int where "CAPACITY = 15"
definition threads :: "tid set" where "threads = {0, 1, 2, 3}"

definition goto :: "state \<Rightarrow> tid \<Rightarrow> pc \<Rightarrow> state" where
  "goto s t p = s\<lparr>pc := (pc s)(t := p)\<rparr>"

section \<open>Mutexes and the condition variable\<close>

definition lock_mutex :: "state \<Rightarrow> tid \<Rightarrow> pc \<Rightarrow> state option" where
  "lock_mutex s t p = (if mutex s = None then Some (goto (s\<lparr>mutex := Some t\<rparr>) t p) else None)"

definition unlock_mutex :: "state \<Rightarrow> tid \<Rightarrow> pc \<Rightarrow> state option" where
  "unlock_mutex s t p = Some (goto (s\<lparr>mutex := None\<rparr>) t p)"

definition lock_count :: "state \<Rightarrow> tid \<Rightarrow> pc \<Rightarrow> state option" where
  "lock_count s t p = (if gCountLock s = None then Some (goto (s\<lparr>gCountLock := Some t\<rparr>) t p) else None)"

definition unlock_count :: "state \<Rightarrow> tid \<Rightarrow> pc \<Rightarrow> state option" where
  "unlock_count s t p = Some (goto (s\<lparr>gCountLock := None\<rparr>) t p)"

fun woken :: "pc \<Rightarrow> pc" where
  "woken (Put_Wait v) = Put_Woken v"
| "woken Get_Wait = Get_Woken"
| "woken p = p"

definition broadcast :: "state \<Rightarrow> state" where
  "broadcast s = s\<lparr>pc := \<lambda>u. woken (pc s u)\<rparr>"

section \<open>The threads\<close>

definition pput_step :: "state \<Rightarrow> tid \<Rightarrow> pc \<Rightarrow> state option" where
  "pput_step s t p =
     (case p of
        Put_Lock v \<Rightarrow> lock_mutex s t (Put_Test v)
      | Put_Test v \<Rightarrow> do {
          full \<leftarrow> queue_full (ring s) (buf s);
          (if full then unlock_mutex s t (Put_Wait v) else Some (goto s t (Put_Store v)))
        }
      | Put_Woken v \<Rightarrow> lock_mutex s t (Put_Test v)
      | Put_Store v \<Rightarrow> do {
          r \<leftarrow> queue_put (ring s) (buf s) v;
          Some (goto (s\<lparr>ring := r, stored := stored s @ [v]\<rparr>) t Put_Cast)
        }
      | Put_Cast \<Rightarrow> Some (goto (broadcast s) t Put_Unlock)
      | Put_Unlock \<Rightarrow> unlock_mutex s t P_Lock
      | _ \<Rightarrow> None)"

definition pget_step :: "state \<Rightarrow> tid \<Rightarrow> pc \<Rightarrow> state option" where
  "pget_step s t p =
     (case p of
        Get_Lock \<Rightarrow> lock_mutex s t Get_Test
      | Get_Test \<Rightarrow> do {
          empty \<leftarrow> queue_empty (ring s) (buf s);
          (if empty then unlock_mutex s t Get_Wait else Some (goto s t Get_Take))
        }
      | Get_Woken \<Rightarrow> lock_mutex s t Get_Test
      | Get_Take \<Rightarrow> do {
          (v, r) \<leftarrow> queue_get (ring s) (buf s);
          Some (goto (s\<lparr>ring := r, taken := taken s @ [v]\<rparr>) t (Get_Cast v))
        }
      | Get_Cast v \<Rightarrow> Some (goto (broadcast s) t (Get_Unlock v))
      | Get_Unlock v \<Rightarrow> unlock_mutex s t (Count_Lock v)
      | _ \<Rightarrow> None)"

definition producer_step :: "state \<Rightarrow> tid \<Rightarrow> pc \<Rightarrow> state option" where
  "producer_step s t p =
     (case p of
        P_Lock \<Rightarrow> lock_count s t P_Check
      | P_Check \<Rightarrow> Some (goto s t (if totalProduced s \<ge> 30 then P_Quit else P_Incr))
      | P_Quit \<Rightarrow> unlock_count s t Done
      | P_Incr \<Rightarrow> do {
          n \<leftarrow> c_incr (totalProduced s);
          Some (goto (s\<lparr>totalProduced := n\<rparr>) t (P_Unlock n))
        }
      | P_Unlock v \<Rightarrow> unlock_count s t (Put_Lock v)
      | _ \<Rightarrow> pput_step s t p)"

definition consumer_step :: "state \<Rightarrow> tid \<Rightarrow> pc \<Rightarrow> state option" where
  "consumer_step s t p =
     (case p of
        C_Lock \<Rightarrow> lock_count s t C_Check
      | C_Check \<Rightarrow> Some (goto s t (if totalConsumed s \<ge> 30 then C_Quit else C_Unlock))
      | C_Quit \<Rightarrow> unlock_count s t Done
      | C_Unlock \<Rightarrow> unlock_count s t Get_Lock
      | Count_Lock v \<Rightarrow> lock_count s t (Count_Incr v)
      | Count_Incr v \<Rightarrow> do {
          n \<leftarrow> c_incr (totalConsumed s);
          Some (goto (s\<lparr>totalConsumed := n\<rparr>) t Count_Unlock)
        }
      | Count_Unlock \<Rightarrow> unlock_count s t C_Lock
      | _ \<Rightarrow> pget_step s t p)"

text \<open>The first two threads run \<open>producer\<close>, the others \<open>consumer\<close>.\<close>

definition is_producer :: "tid \<Rightarrow> bool" where
  "is_producer t \<longleftrightarrow> t < 2"

definition thread_step :: "state \<Rightarrow> tid \<Rightarrow> state option" where
  "thread_step s t =
     (if t \<notin> threads then None
      else if is_producer t then producer_step s t (pc s t)
      else consumer_step s t (pc s t))"

definition main_step :: "state \<Rightarrow> state option" where
  "main_step s =
     (case main_pc s of
        Create t \<Rightarrow> Some (goto (s\<lparr>main_pc := (if t < 3 then Create (Suc t) else Join 0)\<rparr>) t
                           (if is_producer t then P_Lock else C_Lock))
      | Join t \<Rightarrow> (if pc s t = Done then Some (s\<lparr>main_pc := (if t < 3 then Join (Suc t) else Finished)\<rparr>)
                   else None)
      | Finished \<Rightarrow> None)"

definition spurious_wakeup :: "state \<Rightarrow> tid \<Rightarrow> state option" where
  "spurious_wakeup s t = (if woken (pc s t) = pc s t then None else Some (goto s t (woken (pc s t))))"

inductive step :: "state \<Rightarrow> state \<Rightarrow> bool" where
  thread: "thread_step s t = Some s' \<Longrightarrow> step s s'"
| main: "main_step s = Some s' \<Longrightarrow> step s s'"
| spurious: "spurious_wakeup s t = Some s' \<Longrightarrow> step s s'"

inductive_cases stepE: "step s s'"

text \<open>\<open>pqueueinit(CAPACITY)\<close>; \<open>got\<close> says that the allocation of the struct \<open>pqueue\<close> succeeds.\<close>

definition pqueueinit :: "heap \<Rightarrow> bool \<Rightarrow> state c" where
  "pqueueinit h got =
     (if \<not> got then None
      else do {
        (q, h) \<leftarrow> queue_init h CAPACITY;
        Some \<lparr>ring = h, buf = q, mutex = None, gCountLock = None, totalProduced = 0, totalConsumed = 0,
              pc = (\<lambda>_. Idle), main_pc = Create 0, stored = [], taken = []\<rparr>
      })"

inductive reachable :: "state \<Rightarrow> state \<Rightarrow> bool" for s0 where
  refl: "reachable s0 s0"
| step: "reachable s0 s \<Longrightarrow> step s s' \<Longrightarrow> reachable s0 s'"

lemma reachable_trans: "reachable s1 s2 \<Longrightarrow> reachable s0 s1 \<Longrightarrow> reachable s0 s2"
  by (induction rule: reachable.induct) (auto intro: reachable.step)

section \<open>The invariant\<close>

fun holds_mutex :: "pc \<Rightarrow> bool" where
  "holds_mutex (Put_Test v) = True" | "holds_mutex (Put_Store v) = True" | "holds_mutex Put_Cast = True"
| "holds_mutex Put_Unlock = True" | "holds_mutex Get_Test = True" | "holds_mutex Get_Take = True"
| "holds_mutex (Get_Cast v) = True" | "holds_mutex (Get_Unlock v) = True" | "holds_mutex p = False"

fun holds_count :: "pc \<Rightarrow> bool" where
  "holds_count P_Check = True" | "holds_count P_Quit = True" | "holds_count P_Incr = True"
| "holds_count (P_Unlock v) = True" | "holds_count C_Check = True" | "holds_count C_Quit = True"
| "holds_count C_Unlock = True" | "holds_count (Count_Incr v) = True" | "holds_count Count_Unlock = True"
| "holds_count p = False"

text \<open>Items a producer has numbered but not stored, and items a consumer has taken but not counted.\<close>

fun pending :: "pc \<Rightarrow> int multiset" where
  "pending (P_Unlock v) = {#v#}" | "pending (Put_Lock v) = {#v#}" | "pending (Put_Test v) = {#v#}"
| "pending (Put_Wait v) = {#v#}" | "pending (Put_Woken v) = {#v#}" | "pending (Put_Store v) = {#v#}"
| "pending p = {#}"

fun uncounted :: "pc \<Rightarrow> int" where
  "uncounted (Get_Cast v) = 1" | "uncounted (Get_Unlock v) = 1" | "uncounted (Count_Lock v) = 1"
| "uncounted (Count_Incr v) = 1" | "uncounted p = 0"

fun casting :: "pc \<Rightarrow> bool" where
  "casting Put_Cast = True" | "casting (Get_Cast v) = True" | "casting p = False"

fun put_waits :: "pc \<Rightarrow> bool" where
  "put_waits (Put_Wait v) = True" | "put_waits p = False"

fun consumer_pc :: "pc \<Rightarrow> bool" where
  "consumer_pc C_Lock = True" | "consumer_pc C_Check = True" | "consumer_pc C_Quit = True"
| "consumer_pc C_Unlock = True" | "consumer_pc Get_Lock = True" | "consumer_pc Get_Test = True"
| "consumer_pc Get_Wait = True" | "consumer_pc Get_Woken = True" | "consumer_pc Get_Take = True"
| "consumer_pc (Get_Cast v) = True" | "consumer_pc (Get_Unlock v) = True"
| "consumer_pc (Count_Lock v) = True" | "consumer_pc (Count_Incr v) = True"
| "consumer_pc Count_Unlock = True" | "consumer_pc Done = True" | "consumer_pc Idle = True"
| "consumer_pc p = False"

fun producer_pc :: "pc \<Rightarrow> bool" where
  "producer_pc Done = True" | "producer_pc Idle = True" | "producer_pc p = (\<not> consumer_pc p)"

text \<open>What a program counter says about the shared state, \<open>xs\<close> being the contents of the buffer.\<close>

fun local_ok :: "state \<Rightarrow> int list \<Rightarrow> bool \<Rightarrow> pc \<Rightarrow> bool" where
  "local_ok s xs pr P_Incr = (totalProduced s < 30)"
| "local_ok s xs pr P_Quit = (totalProduced s \<ge> 30)"
| "local_ok s xs pr C_Quit = (totalConsumed s \<ge> 30)"
| "local_ok s xs pr Done = (if pr then totalProduced s \<ge> 30 else totalConsumed s \<ge> 30)"
| "local_ok s xs pr (Put_Store v) = (length xs < 15)"
| "local_ok s xs pr Get_Take = (xs \<noteq> [])"
| "local_ok s xs pr p = True"

definition buffer_inv :: "state \<Rightarrow> int list \<Rightarrow> bool" where
  "buffer_inv s xs \<longleftrightarrow> ring_rep 15 (buf s) (ring s) xs \<and> stored s = taken s @ xs"

definition lock_inv :: "state \<Rightarrow> bool" where
  "lock_inv s \<longleftrightarrow> (\<forall>t. mutex s = Some t \<longleftrightarrow> holds_mutex (pc s t))
     \<and> (\<forall>t. gCountLock s = Some t \<longleftrightarrow> holds_count (pc s t))"

definition count_inv :: "state \<Rightarrow> bool" where
  "count_inv s \<longleftrightarrow> 0 \<le> totalProduced s \<and> totalProduced s \<le> 30 \<and> 0 \<le> totalConsumed s
     \<and> mset (stored s) + (\<Sum>t\<in>threads. pending (pc s t)) = mset [1..totalProduced s]
     \<and> totalConsumed s + (\<Sum>t\<in>threads. uncounted (pc s t)) = int (length (taken s))"

definition local_inv :: "state \<Rightarrow> int list \<Rightarrow> bool" where
  "local_inv s xs \<longleftrightarrow> (\<forall>t. local_ok s xs (is_producer t) (pc s t))
     \<and> (\<forall>t. if is_producer t then producer_pc (pc s t) else consumer_pc (pc s t))
     \<and> (\<forall>t. t \<notin> threads \<longrightarrow> pc s t = Idle)"

definition wait_inv :: "state \<Rightarrow> int list \<Rightarrow> bool" where
  "wait_inv s xs \<longleftrightarrow>
     ((\<exists>t. put_waits (pc s t)) \<longrightarrow> length xs = 15 \<or> (\<exists>t. casting (pc s t)))
   \<and> ((\<exists>t. pc s t = Get_Wait) \<longrightarrow> xs = [] \<or> (\<exists>t. casting (pc s t)))"

definition main_inv :: "state \<Rightarrow> bool" where
  "main_inv s \<longleftrightarrow>
     (case main_pc s of
        Create n \<Rightarrow> n < 4 \<and> (\<forall>t \<in> threads. pc s t = Idle \<longleftrightarrow> n \<le> t)
      | Join n \<Rightarrow> n < 4 \<and> (\<forall>t \<in> threads. pc s t \<noteq> Idle) \<and> (\<forall>t < n. pc s t = Done)
      | Finished \<Rightarrow> \<forall>t \<in> threads. pc s t = Done)"

definition inv :: "state \<Rightarrow> bool" where
  "inv s \<longleftrightarrow> lock_inv s \<and> count_inv s \<and> main_inv s
     \<and> (\<exists>xs. buffer_inv s xs \<and> local_inv s xs \<and> wait_inv s xs)"

end
