(* ===== verification/Week7_Invariant.thy ===== *)
theory Week7_Invariant
  imports Week7_Prodcons
begin

text \<open>
  Every step of the producer-consumer program keeps the invariant: mutual exclusion, the buffer as a
  list, the count of every item, and that a thread waits only while its condition holds or a
  broadcast is on its way.
\<close>

section \<open>Updates of one program counter\<close>

lemma goto_simps [simp]:
  "pc (goto s t p) = (pc s)(t := p)" "mutex (goto s t p) = mutex s" "gCountLock (goto s t p) = gCountLock s"
  "ring (goto s t p) = ring s" "buf (goto s t p) = buf s" "stored (goto s t p) = stored s"
  "taken (goto s t p) = taken s" "totalProduced (goto s t p) = totalProduced s"
  "totalConsumed (goto s t p) = totalConsumed s" "main_pc (goto s t p) = main_pc s"
  by (simp_all add: goto_def)

lemma broadcast_simps [simp]:
  "pc (broadcast s) u = woken (pc s u)" "mutex (broadcast s) = mutex s" "gCountLock (broadcast s) = gCountLock s"
  "ring (broadcast s) = ring s" "buf (broadcast s) = buf s" "stored (broadcast s) = stored s"
  "taken (broadcast s) = taken s" "totalProduced (broadcast s) = totalProduced s"
  "totalConsumed (broadcast s) = totalConsumed s" "main_pc (broadcast s) = main_pc s"
  by (simp_all add: broadcast_def)

lemma sum_threads_upd:
  fixes f :: "pc \<Rightarrow> 'a::comm_monoid_add"
  shows "t \<in> threads \<Longrightarrow> (\<Sum>u\<in>threads. f ((g(t := p)) u)) + f (g t) = (\<Sum>u\<in>threads. f (g u)) + f p"
  by (auto simp: threads_def ac_simps)

lemma sum_threads_same:
  fixes f :: "pc \<Rightarrow> 'a::comm_monoid_add"
  shows "t \<in> threads \<Longrightarrow> f p = f (g t) \<Longrightarrow> (\<Sum>u\<in>threads. f ((g(t := p)) u)) = (\<Sum>u\<in>threads. f (g u))"
  by (intro sum.cong) auto

lemma woken_simps [simp]:
  "holds_mutex (woken p) = holds_mutex p" "holds_count (woken p) = holds_count p"
  "pending (woken p) = pending p" "uncounted (woken p) = uncounted p" "casting (woken p) = casting p"
  "producer_pc (woken p) = producer_pc p" "consumer_pc (woken p) = consumer_pc p"
  "\<not> put_waits (woken p)" "woken p \<noteq> Get_Wait" "woken p = Idle \<longleftrightarrow> p = Idle" "woken p = Done \<longleftrightarrow> p = Done"
  "local_ok s xs b (woken p) = local_ok s xs b p"
  by (cases p; simp)+

lemma woken_same [simp]: "holds_mutex p \<Longrightarrow> woken p = p" "holds_count p \<Longrightarrow> woken p = p"
  by (cases p; simp)+

section \<open>Mutual exclusion\<close>

lemma lock_inv_goto:
  "lock_inv s \<Longrightarrow> holds_mutex p = holds_mutex (pc s t) \<Longrightarrow> holds_count p = holds_count (pc s t) \<Longrightarrow>
   lock_inv (goto s t p)"
  by (simp add: lock_inv_def)

lemma lock_inv_fields [simp]:
  "lock_inv (s\<lparr>ring := r\<rparr>) = lock_inv s" "lock_inv (s\<lparr>stored := xs\<rparr>) = lock_inv s"
  "lock_inv (s\<lparr>taken := xs\<rparr>) = lock_inv s" "lock_inv (s\<lparr>totalProduced := n\<rparr>) = lock_inv s"
  "lock_inv (s\<lparr>totalConsumed := n\<rparr>) = lock_inv s" "lock_inv (s\<lparr>main_pc := m\<rparr>) = lock_inv s"
  "lock_inv (broadcast s) = lock_inv s"
  by (simp_all add: lock_inv_def broadcast_def)

lemma lock_inv_mutex:
  assumes "lock_inv s"
  shows "lock_mutex s t p = Some s' \<Longrightarrow> holds_mutex p \<Longrightarrow> \<not> holds_count p \<Longrightarrow> \<not> holds_count (pc s t) \<Longrightarrow> lock_inv s'"
    and "unlock_mutex s t p = Some s' \<Longrightarrow> holds_mutex (pc s t) \<Longrightarrow> \<not> holds_mutex p \<Longrightarrow>
         \<not> holds_count p \<Longrightarrow> \<not> holds_count (pc s t) \<Longrightarrow> lock_inv s'"
    and "lock_count s t p = Some s' \<Longrightarrow> holds_count p \<Longrightarrow> \<not> holds_mutex p \<Longrightarrow> \<not> holds_mutex (pc s t) \<Longrightarrow> lock_inv s'"
    and "unlock_count s t p = Some s' \<Longrightarrow> holds_count (pc s t) \<Longrightarrow> \<not> holds_count p \<Longrightarrow>
         \<not> holds_mutex p \<Longrightarrow> \<not> holds_mutex (pc s t) \<Longrightarrow> lock_inv s'"
  using assms
  by (auto simp: lock_inv_def lock_mutex_def unlock_mutex_def lock_count_def unlock_count_def
      split: if_splits) (metis option.inject)+

lemma mutex_unique: "lock_inv s \<Longrightarrow> holds_mutex (pc s t) \<Longrightarrow> holds_mutex (pc s u) \<Longrightarrow> u = t"
  and count_unique: "lock_inv s \<Longrightarrow> holds_count (pc s t) \<Longrightarrow> holds_count (pc s u) \<Longrightarrow> u = t"
  unfolding lock_inv_def by (metis option.inject)+

section \<open>Steps that only move a thread\<close>

text \<open>What the other parts of the invariant see of a step that changes no item: the new program
  counter of one thread.\<close>

definition moves :: "state \<Rightarrow> tid \<Rightarrow> pc \<Rightarrow> state \<Rightarrow> bool" where
  "moves s t p s' \<longleftrightarrow> pc s' = (pc s)(t := p) \<and> ring s' = ring s \<and> buf s' = buf s \<and> stored s' = stored s
     \<and> taken s' = taken s \<and> totalProduced s' = totalProduced s \<and> totalConsumed s' = totalConsumed s
     \<and> main_pc s' = main_pc s"

lemma moves_locks:
  "lock_mutex s t p = Some s' \<Longrightarrow> moves s t p s'" "unlock_mutex s t p = Some s' \<Longrightarrow> moves s t p s'"
  "lock_count s t p = Some s' \<Longrightarrow> moves s t p s'" "unlock_count s t p = Some s' \<Longrightarrow> moves s t p s'"
  "moves s t p (goto s t p)"
  by (auto simp: moves_def lock_mutex_def unlock_mutex_def lock_count_def unlock_count_def goto_def
      split: if_splits)

text \<open>Conditions on the move, all decided by the old and the new program counter.\<close>

definition good_move :: "state \<Rightarrow> int list \<Rightarrow> tid \<Rightarrow> pc \<Rightarrow> bool" where
  "good_move s xs t p \<longleftrightarrow> t \<in> threads \<and> pending p = pending (pc s t) \<and> uncounted p = uncounted (pc s t)
     \<and> local_ok s xs (is_producer t) p \<and> (if is_producer t then producer_pc p else consumer_pc p)
     \<and> \<not> casting (pc s t) \<and> (put_waits p \<longrightarrow> length xs = 15) \<and> (p = Get_Wait \<longrightarrow> xs = [])
     \<and> pc s t \<noteq> Idle \<and> p \<noteq> Idle \<and> pc s t \<noteq> Done"

lemma local_ok_cong:
  "totalProduced s' = totalProduced s \<Longrightarrow> totalConsumed s' = totalConsumed s \<Longrightarrow>
   local_ok s' xs b p = local_ok s xs b p"
  by (cases p) auto

lemma inv_move:
  assumes "lock_inv s'" and "inv s" and "moves s t p s'" and "\<And>xs. buffer_inv s xs \<Longrightarrow> local_inv s xs \<Longrightarrow> good_move s xs t p"
  shows "inv s'"
proof -
  obtain xs where xs: "buffer_inv s xs" "local_inv s xs" "wait_inv s xs"
    and c: "count_inv s" and m: "main_inv s"
    using assms(2) by (auto simp: inv_def)
  have g: "good_move s xs t p" using assms(4) xs by blast
  have "buffer_inv s' xs" using xs(1) assms(3) by (simp add: buffer_inv_def moves_def)
  moreover have "local_inv s' xs"
    using xs(2) assms(3) g local_ok_cong [of s' s xs]
    by (auto simp: local_inv_def moves_def good_move_def)
  moreover have "wait_inv s' xs"
  proof -
    have pc': "pc s' u = (if u = t then p else pc s u)" for u using assms(3) by (simp add: moves_def)
    have "\<not> casting (pc s t)" "put_waits p \<Longrightarrow> length xs = 15" "p = Get_Wait \<Longrightarrow> xs = []"
      using g by (auto simp: good_move_def)
    then have "casting (pc s u) \<Longrightarrow> casting (pc s' u)" "put_waits (pc s' u) \<Longrightarrow> length xs = 15 \<or> put_waits (pc s u)"
      "pc s' u = Get_Wait \<Longrightarrow> xs = [] \<or> pc s u = Get_Wait" for u
      unfolding pc' by (cases "u = t"; simp)+
    with xs(3) show ?thesis unfolding wait_inv_def by meson
  qed
  moreover have "count_inv s'"
    using c g assms(3) sum_threads_same [of t pending p "pc s"] sum_threads_same [of t uncounted p "pc s"]
    by (simp add: count_inv_def moves_def good_move_def)
  moreover have "main_inv s'"
    using m g assms(3) by (auto simp: main_inv_def moves_def good_move_def split: main_pc.splits)
  ultimately show ?thesis using assms(1) by (auto simp: inv_def)
qed

section \<open>Steps that change a counter or the buffer\<close>

lemma local_ok_mono:
  "local_ok s xs b p \<Longrightarrow> totalProduced s \<le> totalProduced s' \<Longrightarrow> totalConsumed s \<le> totalConsumed s' \<Longrightarrow>
   p \<noteq> P_Incr \<or> totalProduced s' = totalProduced s \<Longrightarrow> local_ok s' xs b p"
  by (cases p) auto

lemma local_ok_buffer: "\<not> holds_mutex p \<Longrightarrow> local_ok s xs b p = local_ok s xs' b p"
  by (cases p) auto

text \<open>The parts of the invariant for a step that leaves the buffer alone.\<close>

lemma wait_inv_pc:
  assumes "wait_inv s xs" and "pc s' = (pc s)(t := p)" and "\<not> casting (pc s t)"
    and "\<not> put_waits p" and "p \<noteq> Get_Wait"
  shows "wait_inv s' xs"
proof -
  have "casting (pc s u) \<Longrightarrow> casting (pc s' u)" "put_waits (pc s' u) \<Longrightarrow> put_waits (pc s u)"
    "pc s' u = Get_Wait \<Longrightarrow> pc s u = Get_Wait" for u
    using assms(2-5) by (cases "u = t"; simp)+
  with assms(1) show ?thesis unfolding wait_inv_def by meson
qed

lemma main_inv_pc:
  assumes "main_inv s" and "pc s' = (pc s)(t := p)" and "main_pc s' = main_pc s"
    and "pc s t \<noteq> Idle" and "pc s t \<noteq> Done" and "p \<noteq> Idle"
  shows "main_inv s'"
  using assms by (auto simp: main_inv_def split: main_pc.splits)

lemma c_incr_SomeD: "c_incr x = Some y \<Longrightarrow> y = x + 1"
  by (auto simp: c_incr_def c_int_def split: if_splits)

lemma inv_P_Incr:
  assumes "inv s" and "t \<in> threads" and "is_producer t" and "pc s t = P_Incr" and "c_incr (totalProduced s) = Some n"
  shows "inv (goto (s\<lparr>totalProduced := n\<rparr>) t (P_Unlock n))"
proof -
  let ?s = "goto (s\<lparr>totalProduced := n\<rparr>) t (P_Unlock n)"
  obtain xs where xs: "buffer_inv s xs" "local_inv s xs" "wait_inv s xs"
    and c: "count_inv s" and m: "main_inv s" and l: "lock_inv s"
    using assms(1) by (auto simp: inv_def)
  have n: "n = totalProduced s + 1" using c_incr_SomeD [OF assms(5)] .
  have lt: "totalProduced s < 30" using xs(2) assms(4) by (metis local_inv_def local_ok.simps(1))
  have "lock_inv ?s" using l assms(4) by (intro lock_inv_goto) (simp_all add: lock_inv_def)
  moreover have "buffer_inv ?s xs" using xs(1) by (simp add: buffer_inv_def)
  moreover have "local_inv ?s xs"
  proof -
    have "local_ok ?s xs (is_producer u) (pc ?s u)" for u
    proof (cases "u = t")
      case False
      then have "pc s u \<noteq> P_Incr" using count_unique [OF l, of t u] assms(4) by auto
      moreover have "local_ok s xs (is_producer u) (pc s u)" using xs(2) by (simp add: local_inv_def)
      ultimately show ?thesis using local_ok_mono [of s xs _ "pc s u" ?s] False n by simp
    qed simp
    then show ?thesis using xs(2) assms(2,3) by (auto simp: local_inv_def)
  qed
  moreover have "wait_inv ?s xs" by (rule wait_inv_pc [OF xs(3)]) (use assms(4) in auto)
  moreover have "count_inv ?s"
  proof -
    have "(\<Sum>u\<in>threads. pending (pc ?s u)) = (\<Sum>u\<in>threads. pending (pc s u)) + {#n#}"
      using sum_threads_upd [OF assms(2), of pending "pc s" "P_Unlock n"] assms(4) by simp
    moreover have "(\<Sum>u\<in>threads. uncounted (pc ?s u)) = (\<Sum>u\<in>threads. uncounted (pc s u))"
      using sum_threads_same [OF assms(2), of uncounted "P_Unlock n" "pc s"] assms(4) by simp
    moreover have "[1..n] = [1..totalProduced s] @ [n]"
      using c n upto_rec2 [of 1 n] by (simp add: count_inv_def)
    ultimately show ?thesis using c n lt by (simp add: count_inv_def)
  qed
  moreover have "main_inv ?s" by (rule main_inv_pc [OF m]) (use assms(4) in auto)
  ultimately show ?thesis by (auto simp: inv_def)
qed

lemma inv_Count_Incr:
  assumes "inv s" and "t \<in> threads" and "\<not> is_producer t" and "pc s t = Count_Incr v" and "c_incr (totalConsumed s) = Some n"
  shows "inv (goto (s\<lparr>totalConsumed := n\<rparr>) t Count_Unlock)"
proof -
  let ?s = "goto (s\<lparr>totalConsumed := n\<rparr>) t Count_Unlock"
  obtain xs where xs: "buffer_inv s xs" "local_inv s xs" "wait_inv s xs"
    and c: "count_inv s" and m: "main_inv s" and l: "lock_inv s"
    using assms(1) by (auto simp: inv_def)
  have n: "n = totalConsumed s + 1" using c_incr_SomeD [OF assms(5)] .
  have "lock_inv ?s" using l assms(4) by (intro lock_inv_goto) (simp_all add: lock_inv_def)
  moreover have "buffer_inv ?s xs" using xs(1) by (simp add: buffer_inv_def)
  moreover have "local_inv ?s xs"
  proof -
    have "local_ok s xs (is_producer u) (pc s u)" for u using xs(2) by (simp add: local_inv_def)
    then have "local_ok ?s xs (is_producer u) (pc ?s u)" for u
      using local_ok_mono [of s xs _ "pc s u" ?s] n by simp
    then show ?thesis using xs(2) assms(2,3) by (auto simp: local_inv_def)
  qed
  moreover have "wait_inv ?s xs" by (rule wait_inv_pc [OF xs(3)]) (use assms(4) in auto)
  moreover have "count_inv ?s"
  proof -
    have "(\<Sum>u\<in>threads. pending (pc ?s u)) = (\<Sum>u\<in>threads. pending (pc s u))"
      using sum_threads_same [OF assms(2), of pending Count_Unlock "pc s"] assms(4) by simp
    moreover have "(\<Sum>u\<in>threads. uncounted (pc ?s u)) + 1 = (\<Sum>u\<in>threads. uncounted (pc s u))"
      using sum_threads_upd [OF assms(2), of uncounted "pc s" Count_Unlock] assms(4) by simp
    ultimately show ?thesis using c n by (simp add: count_inv_def)
  qed
  moreover have "main_inv ?s" by (rule main_inv_pc [OF m]) (use assms(4) in auto)
  ultimately show ?thesis by (auto simp: inv_def)
qed

text \<open>The buffer: only the holder of the mutex changes it, and it broadcasts afterwards.\<close>

lemma local_inv_buffer:
  assumes "local_inv s xs" and "lock_inv s" and "holds_mutex (pc s t)" and "t \<in> threads"
    and "pc s' = (pc s)(t := p)" and "totalProduced s' = totalProduced s" and "totalConsumed s' = totalConsumed s"
    and "local_ok s' xs' (is_producer t) p" and "if is_producer t then producer_pc p else consumer_pc p"
  shows "local_inv s' xs'"
proof -
  have "local_ok s' xs' (is_producer u) (pc s' u)" for u
  proof (cases "u = t")
    case False
    then have "\<not> holds_mutex (pc s u)" using mutex_unique [OF assms(2,3)] by blast
    moreover have "local_ok s xs (is_producer u) (pc s u)" using assms(1) by (simp add: local_inv_def)
    ultimately show ?thesis
      using False assms(5-7) local_ok_buffer [of "pc s u" s' xs' _ xs] local_ok_cong [of s' s xs] by simp
  qed (use assms(5,8) in simp)
  then show ?thesis using assms(1,4,5,9) by (auto simp: local_inv_def)
qed

lemma inv_Put_Store:
  assumes "inv s" and "t \<in> threads" and "is_producer t" and "pc s t = Put_Store v"
    and "queue_put (ring s) (buf s) v = Some r"
  shows "inv (goto (s\<lparr>ring := r, stored := stored s @ [v]\<rparr>) t Put_Cast)"
proof -
  let ?s = "goto (s\<lparr>ring := r, stored := stored s @ [v]\<rparr>) t Put_Cast"
  obtain xs where xs: "buffer_inv s xs" "local_inv s xs" and c: "count_inv s" and m: "main_inv s" and l: "lock_inv s"
    using assms(1) by (auto simp: inv_def)
  have "length xs < 15" using xs(2) assms(4) by (metis local_inv_def local_ok.simps(5))
  then have "ring_rep 15 (buf s) r (xs @ [v])" 
    using ring_put [of 15 "buf s" "ring s" xs v] xs(1) assms(5) by (auto simp: buffer_inv_def)
  then have "buffer_inv ?s (xs @ [v])" using xs(1) by (simp add: buffer_inv_def)
  moreover have "lock_inv ?s" using l assms(4) by (intro lock_inv_goto) (simp_all add: lock_inv_def)
  moreover have "local_inv ?s (xs @ [v])"
    by (rule local_inv_buffer [OF xs(2) l, of t]) (use assms(2-4) in auto)
  moreover have "wait_inv ?s (xs @ [v])" unfolding wait_inv_def by (auto intro!: exI [of _ t])
  moreover have "count_inv ?s"
  proof -
    have "(\<Sum>u\<in>threads. pending (pc ?s u)) + {#v#} = (\<Sum>u\<in>threads. pending (pc s u))"
      using sum_threads_upd [OF assms(2), of pending "pc s" Put_Cast] assms(4) by simp
    then have "mset (stored s) + ({#v#} + (\<Sum>u\<in>threads. pending (pc ?s u))) = mset [1..totalProduced s]"
      using c unfolding count_inv_def by (simp add: ac_simps)
    then have "mset (stored ?s) + (\<Sum>u\<in>threads. pending (pc ?s u)) = mset [1..totalProduced s]"
      by simp
    moreover have "(\<Sum>u\<in>threads. uncounted (pc ?s u)) = (\<Sum>u\<in>threads. uncounted (pc s u))"
      using sum_threads_same [OF assms(2), of uncounted Put_Cast "pc s"] assms(4) by simp
    ultimately show ?thesis using c by (simp add: count_inv_def)
  qed
  moreover have "main_inv ?s" by (rule main_inv_pc [OF m]) (use assms(4) in auto)
  ultimately show ?thesis by (auto simp: inv_def)
qed

lemma inv_Get_Take:
  assumes "inv s" and "t \<in> threads" and "\<not> is_producer t" and "pc s t = Get_Take"
    and "queue_get (ring s) (buf s) = Some (v, r)"
  shows "inv (goto (s\<lparr>ring := r, taken := taken s @ [v]\<rparr>) t (Get_Cast v))"
proof -
  let ?s = "goto (s\<lparr>ring := r, taken := taken s @ [v]\<rparr>) t (Get_Cast v)"
  obtain xs where xs: "buffer_inv s xs" "local_inv s xs" and c: "count_inv s" and m: "main_inv s" and l: "lock_inv s"
    using assms(1) by (auto simp: inv_def)
  have "xs \<noteq> []" using xs(2) assms(4) by (metis local_inv_def local_ok.simps(6))
  then obtain x ys where ys: "xs = x # ys" by (cases xs) auto
  then have vr: "v = x" "ring_rep 15 (buf s) r ys"
    using ring_get [of 15 "buf s" "ring s" x ys] xs(1) assms(5) by (auto simp: buffer_inv_def)
  then have "buffer_inv ?s ys" using xs(1) ys by (simp add: buffer_inv_def)
  moreover have "lock_inv ?s" using l assms(4) by (intro lock_inv_goto) (simp_all add: lock_inv_def)
  moreover have "local_inv ?s ys"
    by (rule local_inv_buffer [OF xs(2) l, of t]) (use assms(2-4) in auto)
  moreover have "wait_inv ?s ys" unfolding wait_inv_def by (auto intro!: exI [of _ t])
  moreover have "count_inv ?s"
  proof -
    have "(\<Sum>u\<in>threads. pending (pc ?s u)) = (\<Sum>u\<in>threads. pending (pc s u))"
      using sum_threads_same [OF assms(2), of pending "Get_Cast v" "pc s"] assms(4) by simp
    moreover have "(\<Sum>u\<in>threads. uncounted (pc ?s u)) = (\<Sum>u\<in>threads. uncounted (pc s u)) + 1"
      using sum_threads_upd [OF assms(2), of uncounted "pc s" "Get_Cast v"] assms(4) by simp
    ultimately show ?thesis using c by (simp add: count_inv_def)
  qed
  moreover have "main_inv ?s" by (rule main_inv_pc [OF m]) (use assms(4) in auto)
  ultimately show ?thesis by (auto simp: inv_def)
qed

lemma inv_broadcast:
  assumes "inv s" and "t \<in> threads" and "casting (pc s t)" and "\<not> casting p" and "holds_mutex p"
    and "\<not> put_waits p" and "p \<noteq> Get_Wait" and "p \<noteq> Idle" and "pending p = pending (pc s t)"
    and "uncounted p = uncounted (pc s t)" and "\<And>s xs b. local_ok s xs b p" and "\<not> holds_count p"
    and "if is_producer t then producer_pc p else consumer_pc p"
  shows "inv (goto (broadcast s) t p)"
proof -
  let ?s = "goto (broadcast s) t p"
  obtain xs where xs: "buffer_inv s xs" "local_inv s xs" and c: "count_inv s" and m: "main_inv s" and l: "lock_inv s"
    using assms(1) by (auto simp: inv_def)
  have pc': "pc ?s u = (if u = t then p else woken (pc s u))" for u by simp
  have mt: "holds_mutex (pc s t)" "\<not> holds_count (pc s t)" "pc s t \<noteq> Idle" "pc s t \<noteq> Done"
    using assms(3) by (cases "pc s t"; simp)+
  have "lock_inv ?s" using l mt assms(5,12) by (intro lock_inv_goto) simp_all
  moreover have "buffer_inv ?s xs" using xs(1) by (simp add: buffer_inv_def)
  moreover have "local_inv ?s xs"
  proof -
    have "local_ok ?s xs b q = local_ok s xs b q" for b q by (rule local_ok_cong) simp_all
    then show ?thesis using xs(2) assms(2,11,13) by (simp add: local_inv_def pc')
  qed
  moreover have "wait_inv ?s xs" using assms(6,7) by (auto simp: wait_inv_def pc')
  moreover have "count_inv ?s"
  proof -
    have "pending (pc ?s u) = pending (pc s u)" "uncounted (pc ?s u) = uncounted (pc s u)" for u
      using assms(9,10) by (simp_all add: pc')
    then show ?thesis using c by (simp add: count_inv_def)
  qed
  moreover have "main_inv ?s"
    using m mt(3,4) assms(8) pc' by (auto simp: main_inv_def split: main_pc.splits)
  ultimately show ?thesis by (auto simp: inv_def)
qed

section \<open>Every step\<close>

lemma inv_locks:
  assumes "inv s" and "\<And>xs. buffer_inv s xs \<Longrightarrow> local_inv s xs \<Longrightarrow> good_move s xs t p"
  shows "lock_mutex s t p = Some s' \<Longrightarrow> holds_mutex p \<Longrightarrow> \<not> holds_count p \<Longrightarrow> \<not> holds_count (pc s t) \<Longrightarrow> inv s'"
    and "unlock_mutex s t p = Some s' \<Longrightarrow> holds_mutex (pc s t) \<Longrightarrow> \<not> holds_mutex p \<Longrightarrow>
         \<not> holds_count p \<Longrightarrow> \<not> holds_count (pc s t) \<Longrightarrow> inv s'"
    and "lock_count s t p = Some s' \<Longrightarrow> holds_count p \<Longrightarrow> \<not> holds_mutex p \<Longrightarrow> \<not> holds_mutex (pc s t) \<Longrightarrow> inv s'"
    and "unlock_count s t p = Some s' \<Longrightarrow> holds_count (pc s t) \<Longrightarrow> \<not> holds_count p \<Longrightarrow>
         \<not> holds_mutex p \<Longrightarrow> \<not> holds_mutex (pc s t) \<Longrightarrow> inv s'"
    and "holds_mutex p = holds_mutex (pc s t) \<Longrightarrow> holds_count p = holds_count (pc s t) \<Longrightarrow> inv (goto s t p)"
proof -
  have l: "lock_inv s" using assms(1) by (simp add: inv_def)
  note mv = inv_move [OF _ assms(1) _ assms(2)]
  show "lock_mutex s t p = Some s' \<Longrightarrow> holds_mutex p \<Longrightarrow> \<not> holds_count p \<Longrightarrow> \<not> holds_count (pc s t) \<Longrightarrow> inv s'"
    using mv lock_inv_mutex(1) [OF l] moves_locks(1) by blast
  show "unlock_mutex s t p = Some s' \<Longrightarrow> holds_mutex (pc s t) \<Longrightarrow> \<not> holds_mutex p \<Longrightarrow>
         \<not> holds_count p \<Longrightarrow> \<not> holds_count (pc s t) \<Longrightarrow> inv s'"
    using mv lock_inv_mutex(2) [OF l] moves_locks(2) by blast
  show "lock_count s t p = Some s' \<Longrightarrow> holds_count p \<Longrightarrow> \<not> holds_mutex p \<Longrightarrow> \<not> holds_mutex (pc s t) \<Longrightarrow> inv s'"
    using mv lock_inv_mutex(3) [OF l] moves_locks(3) by blast
  show "unlock_count s t p = Some s' \<Longrightarrow> holds_count (pc s t) \<Longrightarrow> \<not> holds_count p \<Longrightarrow>
         \<not> holds_mutex p \<Longrightarrow> \<not> holds_mutex (pc s t) \<Longrightarrow> inv s'"
    using mv lock_inv_mutex(4) [OF l] moves_locks(4) by blast
  show "holds_mutex p = holds_mutex (pc s t) \<Longrightarrow> holds_count p = holds_count (pc s t) \<Longrightarrow> inv (goto s t p)"
    using mv lock_inv_goto [OF l] moves_locks(5) by blast
qed

lemma full_iff: "buffer_inv s xs \<Longrightarrow> queue_full (ring s) (buf s) = Some (length xs = 15)"
  and empty_iff: "buffer_inv s xs \<Longrightarrow> queue_empty (ring s) (buf s) = Some (xs = [])"
  by (auto simp: buffer_inv_def ring_full ring_empty)

lemma buffer_bound: "buffer_inv s xs \<Longrightarrow> length xs \<le> 15"
  by (auto simp: buffer_inv_def dest: ring_bound)

lemma local_ok_at: "local_inv s xs \<Longrightarrow> local_ok s xs (is_producer t) (pc s t)"
  by (simp add: local_inv_def)

lemma inv_quit:
  assumes "inv s" and "unlock_count s t Done = Some s'" and "t \<in> threads"
    and "pc s t = P_Quit \<and> is_producer t \<or> pc s t = C_Quit \<and> \<not> is_producer t"
  shows "inv s'"
  using assms(2)
proof (rule inv_locks(4) [OF assms(1), rotated])
  show "good_move s xs t Done" if "local_inv s xs" for xs
    using local_ok_at [OF that, of t] assms(3,4) by (auto simp: good_move_def)
qed (use assms(4) in auto)

lemma inv_Put_Test:
  assumes "inv s" and "pput_step s t (pc s t) = Some s'" and "t \<in> threads" and "is_producer t"
    and "pc s t = Put_Test v"
  shows "inv s'"
proof -
  obtain xs where xs: "buffer_inv s xs" using assms(1) by (auto simp: inv_def)
  show ?thesis
  proof (cases "length xs = 15")
    case True
    then have "unlock_mutex s t (Put_Wait v) = Some s'"
      using assms assms(5) full_iff [OF xs] by (simp add: pput_step_def)
    moreover have "length ys = 15" if "buffer_inv s ys" for ys
      using full_iff [OF that] full_iff [OF xs] True by simp
    ultimately show ?thesis using assms(5) assms(3,4)
      by (intro inv_locks(2) [OF assms(1), of t "Put_Wait v"]) (auto simp: good_move_def)
  next
    case False
    then have "s' = goto s t (Put_Store v)"
      using assms assms(5) full_iff [OF xs] by (simp add: pput_step_def)
    moreover have "length ys < 15" if "buffer_inv s ys" for ys
      using full_iff [OF that] full_iff [OF xs] False buffer_bound [OF that] by simp
    ultimately show ?thesis using assms(5) assms(3,4)
      by (auto simp: good_move_def intro!: inv_locks(5) [OF assms(1)])
  qed
qed

lemma inv_pput:
  assumes "inv s" and "pput_step s t (pc s t) = Some s'" and "t \<in> threads" and "is_producer t"
  shows "inv s'"
proof (cases "pc s t")
  case (Put_Lock v)
  with assms show ?thesis
    by (intro inv_locks(1) [OF assms(1), of t "Put_Test v"])
      (auto simp: pput_step_def good_move_def)
next
  case (Put_Woken v)
  with assms show ?thesis
    by (intro inv_locks(1) [OF assms(1), of t "Put_Test v"])
      (auto simp: pput_step_def good_move_def)
next
  case (Put_Test v)
  then show ?thesis by (rule inv_Put_Test [OF assms])
next
  case (Put_Store v)
  with assms show ?thesis
    by (auto simp: pput_step_def split: bind_splits intro!: inv_Put_Store)
next
  case Put_Cast
  with assms show ?thesis
    by (auto simp: pput_step_def intro!: inv_broadcast)
next
  case Put_Unlock
  with assms show ?thesis
    by (intro inv_locks(2) [OF assms(1), of t P_Lock])
      (auto simp: pput_step_def good_move_def)
qed (use assms in \<open>auto simp: pput_step_def\<close>)

lemma inv_producer:
  assumes "inv s" and "producer_step s t (pc s t) = Some s'" and "t \<in> threads" and "is_producer t"
  shows "inv s'"
proof (cases "pc s t")
  case P_Lock
  with assms show ?thesis
    by (intro inv_locks(3) [OF assms(1), of t P_Check]) (auto simp: producer_step_def good_move_def)
next
  case P_Check
  with assms show ?thesis
    by (cases "totalProduced s \<ge> 30")
      (auto simp: producer_step_def good_move_def intro!: inv_locks(5) [OF assms(1)])
next
  case P_Quit
  with assms show ?thesis by (auto simp: producer_step_def intro: inv_quit [OF assms(1)])
next
  case P_Incr
  with assms show ?thesis
    by (auto simp: producer_step_def split: bind_splits intro!: inv_P_Incr)
next
  case (P_Unlock v)
  with assms show ?thesis
    by (intro inv_locks(4) [OF assms(1), of t "Put_Lock v"]) (auto simp: producer_step_def good_move_def)
qed (rule inv_pput [OF assms(1) _ assms(3,4)], use assms(2) in \<open>simp add: producer_step_def\<close>)+

lemma inv_Get_Test:
  assumes "inv s" and "pget_step s t (pc s t) = Some s'" and "t \<in> threads" and "\<not> is_producer t"
    and "pc s t = Get_Test"
  shows "inv s'"
proof -
  obtain xs where xs: "buffer_inv s xs" using assms(1) by (auto simp: inv_def)
  show ?thesis
  proof (cases "xs = []")
    case True
    then have "unlock_mutex s t Get_Wait = Some s'"
      using assms assms(5) empty_iff [OF xs] by (simp add: pget_step_def)
    moreover have "ys = []" if "buffer_inv s ys" for ys
      using empty_iff [OF that] empty_iff [OF xs] True by simp
    ultimately show ?thesis using assms(5) assms(3,4)
      by (intro inv_locks(2) [OF assms(1), of t Get_Wait]) (auto simp: good_move_def)
  next
    case False
    then have "s' = goto s t Get_Take"
      using assms assms(5) empty_iff [OF xs] by (simp add: pget_step_def)
    moreover have "ys \<noteq> []" if "buffer_inv s ys" for ys
      using empty_iff [OF that] empty_iff [OF xs] False by simp
    ultimately show ?thesis using assms(5) assms(3,4)
      by (auto simp: good_move_def intro!: inv_locks(5) [OF assms(1)])
  qed
qed

lemma inv_pget:
  assumes "inv s" and "pget_step s t (pc s t) = Some s'" and "t \<in> threads" and "\<not> is_producer t"
  shows "inv s'"
proof (cases "pc s t")
  case Get_Lock
  with assms show ?thesis
    by (intro inv_locks(1) [OF assms(1), of t Get_Test])
      (auto simp: pget_step_def good_move_def)
next
  case Get_Woken
  with assms show ?thesis
    by (intro inv_locks(1) [OF assms(1), of t Get_Test])
      (auto simp: pget_step_def good_move_def)
next
  case Get_Test
  then show ?thesis by (rule inv_Get_Test [OF assms])
next
  case Get_Take
  with assms show ?thesis
    by (auto simp: pget_step_def split: bind_splits intro!: inv_Get_Take)
next
  case (Get_Cast v)
  with assms show ?thesis
    by (auto simp: pget_step_def intro!: inv_broadcast)
next
  case (Get_Unlock v)
  with assms show ?thesis
    by (intro inv_locks(2) [OF assms(1), of t "Count_Lock v"])
      (auto simp: pget_step_def good_move_def)
qed (use assms in \<open>auto simp: pget_step_def\<close>)

lemma inv_consumer:
  assumes "inv s" and "consumer_step s t (pc s t) = Some s'" and "t \<in> threads" and "\<not> is_producer t"
  shows "inv s'"
proof (cases "pc s t")
  case C_Lock
  with assms show ?thesis
    by (intro inv_locks(3) [OF assms(1), of t C_Check]) (auto simp: consumer_step_def good_move_def)
next
  case C_Check
  with assms show ?thesis
    by (cases "totalConsumed s \<ge> 30")
      (auto simp: consumer_step_def good_move_def intro!: inv_locks(5) [OF assms(1)])
next
  case C_Quit
  with assms show ?thesis by (auto simp: consumer_step_def intro: inv_quit [OF assms(1)])
next
  case C_Unlock
  with assms show ?thesis
    by (intro inv_locks(4) [OF assms(1), of t Get_Lock]) (auto simp: consumer_step_def good_move_def)
next
  case (Count_Lock v)
  with assms show ?thesis
    by (intro inv_locks(3) [OF assms(1), of t "Count_Incr v"]) (auto simp: consumer_step_def good_move_def)
next
  case (Count_Incr v)
  with assms show ?thesis
    by (auto simp: consumer_step_def split: bind_splits intro!: inv_Count_Incr)
next
  case Count_Unlock
  with assms show ?thesis
    by (intro inv_locks(4) [OF assms(1), of t C_Lock]) (auto simp: consumer_step_def good_move_def)
qed (rule inv_pget [OF assms(1) _ assms(3,4)], use assms(2) in \<open>simp add: consumer_step_def\<close>)+

lemma inv_thread: "inv s \<Longrightarrow> thread_step s t = Some s' \<Longrightarrow> inv s'"
  by (auto simp: thread_step_def split: if_splits intro: inv_producer inv_consumer)

lemma inv_spurious:
  assumes "inv s" and "spurious_wakeup s t = Some s'"
  shows "inv s'"
proof -
  have s': "s' = goto s t (woken (pc s t))" and w: "woken (pc s t) \<noteq> pc s t"
    using assms(2) by (auto simp: spurious_wakeup_def split: if_splits)
  have "good_move s xs t (woken (pc s t))" if "local_inv s xs" for xs
  proof -
    have "t \<in> threads" using that w by (cases "t \<in> threads") (auto simp: local_inv_def)
    moreover have "if is_producer t then producer_pc (pc s t) else consumer_pc (pc s t)"
      using that by (simp add: local_inv_def)
    ultimately show ?thesis using local_ok_at [OF that, of t] w
      by (cases "is_producer t"; cases "pc s t") (auto simp: good_move_def)
  qed
  then show ?thesis unfolding s' by (intro inv_locks(5) [OF assms(1)]) simp_all
qed

lemma inv_main:
  assumes "inv s" and "main_step s = Some s'"
  shows "inv s'"
proof -
  obtain xs where xs: "buffer_inv s xs" "local_inv s xs" "wait_inv s xs"
    and c: "count_inv s" and m: "main_inv s" and l: "lock_inv s"
    using assms(1) by (auto simp: inv_def)
  show ?thesis
  proof (cases "main_pc s")
    case (Create t)
    let ?p = "if is_producer t then P_Lock else C_Lock"
    have s': "s' = goto (s\<lparr>main_pc := (if t < 3 then Create (Suc t) else Join 0)\<rparr>) t ?p"
      using assms(2) Create by (simp add: main_step_def)
    have t: "t \<in> threads" "pc s t = Idle"
      using m Create by (auto simp: main_inv_def threads_def less_Suc_eq numeral_eq_Suc)
    have "lock_inv s'" unfolding s' by (rule lock_inv_goto) (use l t in auto)
    moreover have "buffer_inv s' xs" using xs(1) s' by (simp add: buffer_inv_def)
    moreover have "local_inv s' xs"
      using xs(2) t(1) local_ok_cong [of s' s xs] s' by (auto simp: local_inv_def)
    moreover have "wait_inv s' xs"
      by (rule wait_inv_pc [OF xs(3), of s' t ?p]) (use s' t in auto)
    moreover have "count_inv s'"
      using c sum_threads_same [OF t(1), of pending ?p "pc s"] sum_threads_same [OF t(1), of uncounted ?p "pc s"] t(2) s'
      by (simp add: count_inv_def)
    moreover have "main_inv s'"
      using m Create s' by (auto simp: main_inv_def threads_def split: if_splits)
    ultimately show ?thesis by (auto simp: inv_def)
  next
    case (Join t)
    then have s': "pc s t = Done" "s' = s\<lparr>main_pc := (if t < 3 then Join (Suc t) else Finished)\<rparr>"
      using assms(2) by (auto simp: main_step_def split: if_splits)
    have "main_inv s'"
      using m Join s' by (auto simp: main_inv_def threads_def less_Suc_eq numeral_eq_Suc split: if_splits)
    moreover have "local_ok s' xs b p = local_ok s xs b p" for b p by (rule local_ok_cong) (simp_all add: s')
    ultimately show ?thesis
      using xs c l s'(2) by (auto simp: inv_def buffer_inv_def local_inv_def wait_inv_def count_inv_def)
  next
    case Finished
    with assms(2) show ?thesis by (simp add: main_step_def)
  qed
qed

lemma inv_step: "step s s' \<Longrightarrow> inv s \<Longrightarrow> inv s'"
  by (erule stepE) (auto intro: inv_thread inv_main inv_spurious)

lemma inv_init:
  assumes "alloc (structs h) (next_addr (structs h)) \<noteq> None" and "alloc (arrays h) (next_addr (arrays h)) \<noteq> None"
  shows "\<exists>s. pqueueinit h True = Some s \<and> inv s"
proof -
  obtain h' where h': "queue_init h 15 = Some (Addr (next_addr (structs h)), h')"
    "ring_rep 15 (Addr (next_addr (structs h))) h' []"
    using ring_init [of 15 h] assms by auto
  let ?s = "\<lparr>ring = h', buf = Addr (next_addr (structs h)), mutex = None, gCountLock = None, totalProduced = 0,
    totalConsumed = 0, pc = (\<lambda>_. Idle), main_pc = Create 0, stored = [], taken = []\<rparr>"
  have "pqueueinit h True = Some ?s" using h'(1) by (simp add: pqueueinit_def CAPACITY_def)
  moreover have "inv ?s"
    using h'(2) by (auto simp: inv_def lock_inv_def count_inv_def main_inv_def buffer_inv_def local_inv_def
        wait_inv_def)
  ultimately show ?thesis by blast
qed

lemma inv_reachable: "reachable s0 s \<Longrightarrow> inv s0 \<Longrightarrow> inv s"
  by (induction rule: reachable.induct) (auto intro: inv_step)

end
