(* ===== verification/Week7_Theorems.thy ===== *)
theory Week7_Theorems
  imports Week7_Invariant
begin

text \<open>
  What the producer-consumer program guarantees in every interleaving (items in order, each once, never
  more than fifteen in the buffer, thirty in the end), that it cannot block except in one way, and a
  run that does block in this way: a consumer that passed its check waits for an item another consumer
  took.
\<close>

section \<open>Consequences of the invariant\<close>

lemma inv_stored:
  assumes "inv s"
  shows "distinct (stored s)" and "set (stored s) \<subseteq> {1..totalProduced s}"
    and "int (length (stored s)) \<le> totalProduced s" and "totalProduced s \<le> 30"
proof -
  have m: "mset (stored s) + (\<Sum>t\<in>threads. pending (pc s t)) = mset [1..totalProduced s]"
    and tp: "0 \<le> totalProduced s" "totalProduced s \<le> 30"
    using assms by (auto simp: inv_def count_inv_def)
  have sub: "mset (stored s) \<subseteq># mset [1..totalProduced s]" using m by (metis mset_subset_eq_add_left)
  have "count (mset (stored s)) x \<le> 1" for x
    using mset_subset_eq_count [OF sub, of x] distinct_upto [of 1 "totalProduced s"]
    by (metis distinct_count_atmost_1 le_trans order_refl zero_le_one)
  then show "distinct (stored s)"
    by (metis One_nat_def count_greater_zero_iff distinct_count_atmost_1 in_multiset_in_set le_0_eq le_SucE
        not_gr_zero)
  show "set (stored s) \<subseteq> {1..totalProduced s}"
    using set_mset_mono [OF sub] by simp
  have "size (mset (stored s)) \<le> size (mset [1..totalProduced s])" using size_mset_mono [OF sub] .
  then show "int (length (stored s)) \<le> totalProduced s" using tp(1) by simp
  show "totalProduced s \<le> 30" by fact
qed

lemma inv_taken:
  assumes "inv s"
  obtains xs where "stored s = taken s @ xs" and "ring_rep 15 (buf s) (ring s) xs" and "length xs \<le> 15"
  using assms by (auto simp: inv_def buffer_inv_def dest: ring_bound)

lemma inv_consumed:
  assumes "inv s"
  shows "0 \<le> totalConsumed s" and "totalConsumed s \<le> int (length (taken s))" and "length (taken s) \<le> 30"
proof -
  have "0 \<le> uncounted p" for p by (cases p) auto
  then have "0 \<le> (\<Sum>t\<in>threads. uncounted (pc s t))" by (rule sum_nonneg)
  then show "totalConsumed s \<le> int (length (taken s))" and "0 \<le> totalConsumed s"
    using assms by (auto simp: inv_def count_inv_def)
  obtain xs where "stored s = taken s @ xs" using inv_taken [OF assms] by blast
  then show "length (taken s) \<le> 30" using inv_stored(3,4) [OF assms] by simp
qed

lemma c_incr_ok: "0 \<le> n \<Longrightarrow> n \<le> 30 \<Longrightarrow> c_incr n = Some (n + 1)"
  by (rule c_incr_Some) auto

section \<open>When a thread cannot move\<close>

fun wants_mutex :: "pc \<Rightarrow> bool" where
  "wants_mutex (Put_Lock v) = True" | "wants_mutex (Put_Woken v) = True" | "wants_mutex Get_Lock = True"
| "wants_mutex Get_Woken = True" | "wants_mutex p = False"

fun wants_count :: "pc \<Rightarrow> bool" where
  "wants_count P_Lock = True" | "wants_count C_Lock = True" | "wants_count (Count_Lock v) = True"
| "wants_count p = False"

lemma thread_blocked:
  assumes "inv s" and "t \<in> threads" and "thread_step s t = None"
  shows "pc s t \<in> {Idle, Done, Get_Wait} \<or> put_waits (pc s t)
    \<or> wants_mutex (pc s t) \<and> mutex s \<noteq> None \<or> wants_count (pc s t) \<and> gCountLock s \<noteq> None"
proof -
  obtain xs where xs: "buffer_inv s xs" "local_inv s xs" using assms(1) by (auto simp: inv_def)
  have role: "if is_producer t then producer_pc (pc s t) else consumer_pc (pc s t)"
    using xs(2) by (simp add: local_inv_def)
  have put: "queue_put (ring s) (buf s) v \<noteq> None" if "length xs < 15" for v
    using ring_put [of 15 "buf s" "ring s" xs v] that xs(1) by (auto simp: buffer_inv_def)
  have get: "queue_get (ring s) (buf s) \<noteq> None" if "xs \<noteq> []"
    using ring_get [of 15 "buf s" "ring s" "hd xs" "tl xs"] that xs(1) by (auto simp: buffer_inv_def)
  have incr: "c_incr (totalConsumed s) = Some (totalConsumed s + 1)"
    "c_incr (totalProduced s) = Some (totalProduced s + 1)"
    using inv_consumed [OF assms(1)] assms(1) by (auto simp: inv_def count_inv_def intro!: c_incr_ok)
  note ok = local_ok_at [OF xs(2), of t]
  show ?thesis
  proof (cases "is_producer t")
    case True
    then have "producer_step s t (pc s t) = None" using assms(2,3) by (simp add: thread_step_def)
    then show ?thesis using True role ok put full_iff [OF xs(1)] incr
      by (cases "pc s t") (auto simp: producer_step_def pput_step_def lock_mutex_def lock_count_def
          unlock_mutex_def unlock_count_def bind_eq_None_conv split: if_splits prod.splits,
          metis option.distinct(1))
  next
    case False
    then have "consumer_step s t (pc s t) = None" using assms(2,3) by (simp add: thread_step_def)
    then show ?thesis using False role ok get empty_iff [OF xs(1)] incr
      by (cases "pc s t") (auto simp: consumer_step_def pget_step_def lock_mutex_def lock_count_def
          unlock_mutex_def unlock_count_def bind_eq_None_conv split: if_splits prod.splits)
  qed
qed

definition blocked :: "state \<Rightarrow> bool" where
  "blocked s \<longleftrightarrow> (\<forall>t. thread_step s t = None) \<and> main_step s = None"

lemma blocked_pcs:
  assumes "inv s" and "blocked s" and "t \<in> threads"
  shows "pc s t \<in> {Idle, Done, Get_Wait} \<or> put_waits (pc s t)"
proof -
  have b: "pc s u \<in> {Idle, Done, Get_Wait} \<or> put_waits (pc s u) \<or> wants_mutex (pc s u) \<and> mutex s \<noteq> None
      \<or> wants_count (pc s u) \<and> gCountLock s \<noteq> None" if "u \<in> threads" for u
    using thread_blocked [OF assms(1) that] assms(2) by (simp add: blocked_def)
  have l: "lock_inv s" and out: "\<And>u. u \<notin> threads \<Longrightarrow> pc s u = Idle"
    using assms(1) by (auto simp: inv_def local_inv_def)
  have hold: "u \<in> threads" if "holds_mutex (pc s u) \<or> holds_count (pc s u)" for u
    using that out [of u] by (cases "u \<in> threads") auto
  have "mutex s = None"
  proof (cases "mutex s")
    case (Some u)
    then have h: "holds_mutex (pc s u)" using l Some unfolding lock_inv_def by blast
    with b [OF hold [OF disjI1 [OF h]]] show ?thesis by (cases "pc s u") auto
  qed
  moreover have "gCountLock s = None"
  proof (cases "gCountLock s")
    case (Some u)
    then have h: "holds_count (pc s u)" using l Some unfolding lock_inv_def by blast
    with b [OF hold [OF disjI2 [OF h]]] show ?thesis by (cases "pc s u") auto
  qed
  ultimately show ?thesis using b [OF assms(3)] by blast
qed

lemma blocked_only_at_end:
  assumes "inv s" and "blocked s" and "main_pc s \<noteq> Finished"
  shows "pc s 0 = Done \<and> pc s 1 = Done \<and> pc s 2 \<in> {Done, Get_Wait} \<and> pc s 3 \<in> {Done, Get_Wait}
    \<and> (pc s 2 = Get_Wait \<or> pc s 3 = Get_Wait) \<and> queue_empty (ring s) (buf s) = Some True
    \<and> totalProduced s = 30 \<and> totalConsumed s = 30"
proof -
  obtain xs where xs: "buffer_inv s xs" "local_inv s xs" "wait_inv s xs"
    and c: "count_inv s" and m: "main_inv s"
    using assms(1) by (auto simp: inv_def)
  have pcs: "pc s t \<in> {Idle, Done, Get_Wait} \<or> put_waits (pc s t)" if "t \<in> threads" for t
    using blocked_pcs [OF assms(1,2) that] .
  obtain j where j: "main_pc s = Join j"
    using assms(2,3) by (cases "main_pc s") (auto simp: blocked_def main_step_def)
  then have born: "pc s t \<noteq> Idle" if "t \<in> threads" for t using m that by (auto simp: main_inv_def)
  have jt: "j \<in> threads" and nd: "pc s j \<noteq> Done"
    using m j assms(2) by (auto simp: main_inv_def threads_def blocked_def main_step_def split: if_splits)
  have role: "if is_producer t then producer_pc (pc s t) else consumer_pc (pc s t)" for t
    using xs(2) by (simp add: local_inv_def)
  have prod: "pc s t = Done \<or> put_waits (pc s t)" if "t \<in> {0, 1}" for t
    using that pcs [of t] born [of t] role [of t] by (auto simp: threads_def is_producer_def)
  have cons: "pc s t = Done \<or> pc s t = Get_Wait" if "t \<in> {2, 3}" for t
    using that pcs [of t] born [of t] role [of t]
    by (cases "pc s t") (auto simp: threads_def is_producer_def)
  have nocast: "\<not> casting (pc s t)" for t
    using pcs [of t] xs(2) by (cases "t \<in> threads"; cases "pc s t") (auto simp: local_inv_def)
  have done_prod: "totalProduced s \<ge> 30" if "pc s t = Done" "t \<in> {0, 1}" for t
    using that local_ok_at [OF xs(2), of t] by (auto simp: is_producer_def)
  have done_cons: "totalConsumed s \<ge> 30" if "pc s t = Done" "t \<in> {2, 3}" for t
    using that local_ok_at [OF xs(2), of t] by (auto simp: is_producer_def)
  have st: "stored s = taken s @ xs" using xs(1) by (simp add: buffer_inv_def)
  have none_waits: "\<not> put_waits (pc s t)" for t
  proof
    assume "put_waits (pc s t)"
    then have full: "length xs = 15" using xs(3) nocast by (auto simp: wait_inv_def)
    have "pc s u \<noteq> Get_Wait" for u
      using full xs(3) nocast by (auto simp: wait_inv_def)
    then have "totalConsumed s \<ge> 30" using cons [of 2] done_cons [of 2] by auto
    then have "length (taken s) \<ge> 30" using inv_consumed(2) [OF assms(1)] by linarith
    then have "length (stored s) \<ge> 45" using st full by simp
    then show False using inv_stored(3,4) [OF assms(1)] by linarith
  qed
  then have p: "pc s 0 = Done" "pc s 1 = Done" using prod [of 0] prod [of 1] by auto
  then have tp: "totalProduced s = 30" using done_prod [of 0] c by (simp add: count_inv_def)
  have "j \<in> {2, 3}" using jt nd p by (auto simp: threads_def)
  then have wait: "pc s 2 = Get_Wait \<or> pc s 3 = Get_Wait" using cons [of 2] cons [of 3] nd by auto
  then have empty: "xs = []" using xs(3) nocast by (auto simp: wait_inv_def)
  have "(\<Sum>t\<in>threads. pending (pc s t)) = {#}" "(\<Sum>t\<in>threads. uncounted (pc s t)) = 0"
    using p cons [of 2] cons [of 3] by (auto simp: threads_def)
  then have "mset (taken s) = mset [1..30]" "totalConsumed s = int (length (taken s))"
    using c tp st empty by (auto simp: count_inv_def)
  moreover have "length (taken s) = 30" using mset_eq_length [OF \<open>mset (taken s) = _\<close>] by simp
  ultimately show ?thesis using p wait tp cons [of 2] cons [of 3] empty_iff [OF xs(1)] empty by simp
qed

section \<open>Schedules\<close>

fun run :: "tid list \<Rightarrow> state \<Rightarrow> state option" where
  "run [] s = Some s"
| "run (t # ts) s = do { s \<leftarrow> thread_step s t; run ts s }"

lemma run_reachable: "run ts s = Some s' \<Longrightarrow> reachable s s'"
proof (induction ts arbitrary: s)
  case (Cons t ts)
  then obtain s1 where s1: "thread_step s t = Some s1" "run ts s1 = Some s'" by (auto elim: bind_Some_E)
  have "reachable s s1" using reachable.step [OF reachable.refl step.thread [OF s1(1)]] .
  with Cons.IH [OF s1(2)] show ?case by (rule reachable_trans)
qed (auto intro: reachable.refl)

text \<open>A state in which no mutex is held, given by its parts.\<close>

definition pcs :: "pc \<Rightarrow> pc \<Rightarrow> pc \<Rightarrow> pc \<Rightarrow> tid \<Rightarrow> pc" where
  "pcs a b c d = (\<lambda>_. Idle)(0 := a, 1 := b, 2 := c, 3 := d)"

definition base :: "ptr \<Rightarrow> heap \<Rightarrow> int \<Rightarrow> int \<Rightarrow> int list \<Rightarrow> int list \<Rightarrow> (tid \<Rightarrow> pc) \<Rightarrow> state" where
  "base b r n m st tk p = \<lparr>ring = r, buf = b, mutex = None, gCountLock = None, totalProduced = n,
     totalConsumed = m, pc = p, main_pc = Join 0, stored = st, taken = tk\<rparr>"

lemma pcs_at [simp]: "pcs a b c d 0 = a" "pcs a b c d (Suc 0) = b" "pcs a b c d 2 = c" "pcs a b c d 3 = d"
  by (simp_all add: pcs_def)

lemma pcs_upd [simp]:
  "(pcs a b c d)(0 := x) = pcs x b c d" "(pcs a b c d)(Suc 0 := x) = pcs a x c d"
  "(pcs a b c d)(2 := x) = pcs a b x d" "(pcs a b c d)(3 := x) = pcs a b c x"
  by (auto simp: pcs_def fun_eq_iff)

lemma pcs_woken [simp]: "(\<lambda>u. woken (pcs a b c d u)) = pcs (woken a) (woken b) (woken c) (woken d)"
  by (auto simp: pcs_def fun_eq_iff)

lemmas step_defs = thread_step_def producer_step_def consumer_step_def pput_step_def pget_step_def
  lock_mutex_def unlock_mutex_def lock_count_def unlock_count_def broadcast_def goto_def
  threads_def is_producer_def base_def

text \<open>A producer that runs alone puts its next number into the buffer; a consumer takes the oldest.\<close>

lemma produce_run:
  assumes "0 \<le> n" and "n < 30" and "ring_rep 15 b r xs" and "length xs < 15"
    and "woken p1 = p1" and "woken p2 = p2" and "woken p3 = p3"
  shows "\<exists>r'. reachable (base b r n m st tk (pcs P_Lock p1 p2 p3))
      (base b r' (n + 1) m (st @ [n + 1]) tk (pcs P_Lock p1 p2 p3))
    \<and> ring_rep 15 b r' (xs @ [n + 1])"
proof -
  obtain r' where r': "queue_put r b (n + 1) = Some r'" "ring_rep 15 b r' (xs @ [n + 1])"
    using ring_put [OF assms(3,4), of "n + 1"] by blast
  have "run [0, 0, 0, 0, 0, 0, 0, 0, 0] (base b r n m st tk (pcs P_Lock p1 p2 p3))
      = Some (base b r' (n + 1) m (st @ [n + 1]) tk (pcs P_Lock p1 p2 p3))"
    using assms ring_full [OF assms(3)] r'(1) c_incr_ok [of n] by (simp add: step_defs)
  with r'(2) run_reachable show ?thesis by blast
qed

lemma consume_run:
  assumes "0 \<le> m" and "m < 30" and "ring_rep 15 b r (x # xs)" and "woken p0 = p0" and "woken p1 = p1" and "woken p3 = p3"
  shows "\<exists>r'. run [2, 2, 2, 2, 2, 2, 2, 2] (base b r n m st tk (pcs p0 p1 Get_Lock p3))
      = Some (base b r' n (m + 1) st (tk @ [x]) (pcs p0 p1 C_Lock p3)) \<and> ring_rep 15 b r' xs"
proof -
  obtain r' where r': "queue_get r b = Some (x, r')" "ring_rep 15 b r' xs"
    using ring_get [OF assms(3)] by blast
  have "run [2, 2, 2, 2, 2, 2, 2, 2] (base b r n m st tk (pcs p0 p1 Get_Lock p3))
      = Some (base b r' n (m + 1) st (tk @ [x]) (pcs p0 p1 C_Lock p3))"
    using assms ring_empty [OF assms(3)] r'(1) c_incr_ok [of m] by (simp add: step_defs)
  with r'(2) show ?thesis by blast
qed

lemma check_run:
  "m < 30 \<Longrightarrow> run [2, 2, 2] (base b r n m st tk (pcs p0 p1 C_Lock p3)) = Some (base b r n m st tk (pcs p0 p1 Get_Lock p3))"
  "m < 30 \<Longrightarrow> run [3, 3, 3] (base b r n m st tk (pcs p0 p1 p2 C_Lock)) = Some (base b r n m st tk (pcs p0 p1 p2 Get_Lock))"
  by (simp_all add: step_defs)

lemma quit_run:
  "run [0, 0, 0] (base b r 30 m st tk (pcs P_Lock p1 p2 p3)) = Some (base b r 30 m st tk (pcs Done p1 p2 p3))"
  "run [1, 1, 1] (base b r 30 m st tk (pcs p0 P_Lock p2 p3)) = Some (base b r 30 m st tk (pcs p0 Done p2 p3))"
  "run [2, 2, 2] (base b r n 30 st tk (pcs p0 p1 C_Lock p3)) = Some (base b r n 30 st tk (pcs p0 p1 Done p3))"
  by (simp_all add: step_defs)

lemma wait_run:
  "queue_empty r b = Some True \<Longrightarrow>
   run [3, 3] (base b r n m st tk (pcs p0 p1 p2 Get_Lock)) = Some (base b r n m st tk (pcs p0 p1 p2 Get_Wait))"
  by (simp add: step_defs)

lemma reach_items:
  assumes "ring_rep 15 b r []"
  shows "n \<le> 29 \<Longrightarrow> \<exists>r' st tk. reachable (base b r 0 0 [] [] (pcs P_Lock P_Lock C_Lock C_Lock))
      (base b r' (int n) (int n) st tk (pcs P_Lock P_Lock C_Lock C_Lock)) \<and> ring_rep 15 b r' []"
proof (induction n)
  case 0
  with assms show ?case by (auto intro: reachable.refl)
next
  case (Suc n)
  let ?p = "pcs P_Lock P_Lock C_Lock C_Lock"
  obtain r1 st tk where r1: "reachable (base b r 0 0 [] [] ?p) (base b r1 (int n) (int n) st tk ?p)"
    "ring_rep 15 b r1 []"
    using Suc by auto
  obtain r2 where r2: "reachable (base b r1 (int n) (int n) st tk ?p)
      (base b r2 (int n + 1) (int n) (st @ [int n + 1]) tk ?p)" "ring_rep 15 b r2 [int n + 1]"
    using produce_run [of "int n" b r1 "[]" P_Lock C_Lock C_Lock "int n" st tk] r1(2) Suc.prems by auto
  let ?s = "base b r2 (int n + 1) (int n) (st @ [int n + 1]) tk"
  obtain r3 where r3: "run [2, 2, 2, 2, 2, 2, 2, 2] (?s (pcs P_Lock P_Lock Get_Lock C_Lock))
      = Some (base b r3 (int n + 1) (int n + 1) (st @ [int n + 1]) (tk @ [int n + 1]) ?p)" "ring_rep 15 b r3 []"
    using consume_run [of "int n" b r2 "int n + 1" "[]" P_Lock P_Lock C_Lock "int n + 1" "st @ [int n + 1]" tk]
      r2(2) Suc.prems by auto
  have "run [2, 2, 2] (?s ?p) = Some (?s (pcs P_Lock P_Lock Get_Lock C_Lock))"
    using Suc.prems by (intro check_run) simp
  from reachable_trans [OF run_reachable [OF r3(1)] reachable_trans [OF run_reachable [OF this]
        reachable_trans [OF r2(1) r1(1)]]] r3(2)
  show ?case by (auto simp: ac_simps)
qed

lemma reach_create:
  assumes "pqueueinit h True = Some s"
  shows "reachable s (base (buf s) (ring s) 0 0 [] [] (pcs P_Lock P_Lock C_Lock C_Lock))"
proof -
  have s: "s = \<lparr>ring = ring s, buf = buf s, mutex = None, gCountLock = None, totalProduced = 0,
      totalConsumed = 0, pc = (\<lambda>_. Idle), main_pc = Create 0, stored = [], taken = []\<rparr>"
    using assms by (auto simp: pqueueinit_def elim!: bind_Some_E)
  let ?s = "\<lambda>m p. \<lparr>ring = ring s, buf = buf s, mutex = None, gCountLock = None, totalProduced = 0,
      totalConsumed = 0, pc = p, main_pc = m, stored = [], taken = []\<rparr>"
  have steps: "step (?s (Create 0) (\<lambda>_. Idle)) (?s (Create 1) (pcs P_Lock Idle Idle Idle))"
    "step (?s (Create 1) (pcs P_Lock Idle Idle Idle)) (?s (Create 2) (pcs P_Lock P_Lock Idle Idle))"
    "step (?s (Create 2) (pcs P_Lock P_Lock Idle Idle)) (?s (Create 3) (pcs P_Lock P_Lock C_Lock Idle))"
    "step (?s (Create 3) (pcs P_Lock P_Lock C_Lock Idle)) (?s (Join 0) (pcs P_Lock P_Lock C_Lock C_Lock))"
    by (intro step.main; simp add: main_step_def goto_def is_producer_def; simp add: pcs_def fun_eq_iff)+
  have "reachable (?s (Create 0) (\<lambda>_. Idle)) (?s (Join 0) (pcs P_Lock P_Lock C_Lock C_Lock))"
    by (rule reachable.step [OF reachable.step [OF reachable.step [OF reachable.step [OF reachable.refl
        steps(1)] steps(2)] steps(3)] steps(4)])
  then show ?thesis using s by (simp add: base_def)
qed

section \<open>The run that never ends\<close>

definition stuck :: "state \<Rightarrow> bool" where
  "stuck s \<longleftrightarrow> pc s 0 = Done \<and> pc s 1 = Done \<and> pc s 2 = Done \<and> pc s 3 \<in> {Get_Wait, Get_Woken, Get_Test}
     \<and> (\<forall>t. t \<notin> threads \<longrightarrow> pc s t = Idle)
     \<and> queue_empty (ring s) (buf s) = Some True \<and> (\<exists>t \<in> threads. main_pc s = Join t)"

lemma stuck_step:
  assumes "step s s'" and "stuck s"
  shows "stuck s'"
  using assms(1)
proof (rule stepE)
  fix t
  assume t: "thread_step s t = Some s'"
  have "t = 3"
  proof (rule ccontr)
    assume "t \<noteq> 3"
    moreover have "pc s 0 = Done" "pc s 1 = Done" "pc s 2 = Done" using assms(2) by (simp_all add: stuck_def)
    ultimately have "t \<notin> threads \<or> pc s t = Done" by (cases "t \<in> {0, 1, 2}") (auto simp: threads_def)
    then have "thread_step s t = None"
      by (auto simp: thread_step_def producer_step_def consumer_step_def pput_step_def pget_step_def)
    with t show False by simp
  qed
  then have "consumer_step s 3 (pc s 3) = Some s'" using t by (simp add: thread_step_def threads_def is_producer_def)
  moreover have "pc s 3 = Get_Wait \<or> pc s 3 = Get_Woken \<or> pc s 3 = Get_Test"
    "queue_empty (ring s) (buf s) = Some True"
    using assms(2) by (simp_all add: stuck_def)
  ultimately have "s' = goto (s\<lparr>mutex := mutex s'\<rparr>) 3 (pc s' 3) \<and> pc s' 3 \<in> {Get_Wait, Get_Test}"
    by (auto simp: consumer_step_def pget_step_def lock_mutex_def unlock_mutex_def goto_def split: if_splits)
  then obtain m p where "s' = goto (s\<lparr>mutex := m\<rparr>) 3 p" "p \<in> {Get_Wait, Get_Test}" by blast
  then show ?thesis using assms(2) by (auto simp: stuck_def threads_def)
next
  assume m: "main_step s = Some s'"
  obtain j where j: "j \<in> threads" "main_pc s = Join j" using assms(2) by (auto simp: stuck_def)
  have "pc s 3 \<noteq> Done" using assms(2) by (auto simp: stuck_def)
  with m j have "j \<noteq> 3" by (auto simp: main_step_def)
  with j have "j < 3" "Suc j \<in> threads" by (auto simp: threads_def)
  with m j have "s' = s\<lparr>main_pc := Join (Suc j)\<rparr>" by (simp add: main_step_def split: if_splits)
  then show ?thesis using assms(2) \<open>Suc j \<in> threads\<close> by (simp add: stuck_def)
next
  fix t
  assume "spurious_wakeup s t = Some s'"
  then have s': "s' = goto s t (woken (pc s t))" "woken (pc s t) \<noteq> pc s t"
    by (auto simp: spurious_wakeup_def split: if_splits)
  then have "t = 3" using assms(2) by (cases "t \<in> threads") (auto simp: stuck_def threads_def)
  then show ?thesis using s' assms(2) by (auto simp: stuck_def)
qed

lemma stuck_forever: "reachable s s' \<Longrightarrow> stuck s \<Longrightarrow> stuck s'"
  by (induction rule: reachable.induct) (auto intro: stuck_step)

lemma join_three:
  "reachable (base b r n m st tk (pcs Done Done Done p)) (base b r n m st tk (pcs Done Done Done p)\<lparr>main_pc := Join 3\<rparr>)"
proof -
  let ?s = "\<lambda>j. base b r n m st tk (pcs Done Done Done p)\<lparr>main_pc := j\<rparr>"
  have "step (?s (Join 0)) (?s (Join 1))" "step (?s (Join 1)) (?s (Join 2))" "step (?s (Join 2)) (?s (Join 3))"
    by (intro step.main; simp add: main_step_def base_def)+
  then have "reachable (?s (Join 0)) (?s (Join 3))"
    using reachable.step [OF reachable.step [OF reachable.step [OF reachable.refl]]] by blast
  moreover have "?s (Join 0) = base b r n m st tk (pcs Done Done Done p)" by (simp add: base_def)
  ultimately show ?thesis by simp
qed

lemma reach_stuck:
  assumes "ring_rep 15 b r []"
  shows "\<exists>s. reachable (base b r 0 0 [] [] (pcs P_Lock P_Lock C_Lock C_Lock)) s \<and> stuck s \<and> totalConsumed s = 30 \<and> blocked s"
proof -
  let ?p = "pcs P_Lock P_Lock C_Lock C_Lock"
  obtain r1 st tk where r1: "reachable (base b r 0 0 [] [] ?p) (base b r1 29 29 st tk ?p)" "ring_rep 15 b r1 []"
    using reach_items [OF assms, of 29] by auto
  obtain r2 where r2: "reachable (base b r1 29 29 st tk ?p) (base b r2 30 29 (st @ [30]) tk ?p)"
    "ring_rep 15 b r2 [30]"
    using produce_run [of 29 b r1 "[]" P_Lock C_Lock C_Lock 29 st tk] r1(2) by auto
  obtain r3 where r3: "run [2, 2, 2, 2, 2, 2, 2, 2] (base b r2 30 29 (st @ [30]) tk (pcs Done Done Get_Lock Get_Lock))
      = Some (base b r3 30 30 (st @ [30]) (tk @ [30]) (pcs Done Done C_Lock Get_Lock))" "ring_rep 15 b r3 []"
    using consume_run [of 29 b r2 30 "[]" Done Done Get_Lock 30 "st @ [30]" tk] r2(2) by auto
  let ?s = "\<lambda>p. base b r2 30 29 (st @ [30]) tk p" and ?e = "\<lambda>p. base b r3 30 30 (st @ [30]) (tk @ [30]) p"
  have "reachable (?s ?p) (?s (pcs Done P_Lock C_Lock C_Lock))"
    "reachable (?s (pcs Done P_Lock C_Lock C_Lock)) (?s (pcs Done Done C_Lock C_Lock))"
    "reachable (?s (pcs Done Done C_Lock C_Lock)) (?s (pcs Done Done Get_Lock C_Lock))"
    "reachable (?s (pcs Done Done Get_Lock C_Lock)) (?s (pcs Done Done Get_Lock Get_Lock))"
    by (rule run_reachable, rule quit_run check_run; simp)+
  moreover have "reachable (?e (pcs Done Done C_Lock Get_Lock)) (?e (pcs Done Done Done Get_Lock))"
    by (rule run_reachable) (rule quit_run)
  moreover have "reachable (?e (pcs Done Done Done Get_Lock)) (?e (pcs Done Done Done Get_Wait))"
    by (rule run_reachable) (rule wait_run, simp add: ring_empty [OF r3(2)])
  moreover have "reachable (?e (pcs Done Done Done Get_Wait)) (?e (pcs Done Done Done Get_Wait)\<lparr>main_pc := Join 3\<rparr>)"
    by (rule join_three)
  ultimately have "reachable (base b r 0 0 [] [] ?p) (?e (pcs Done Done Done Get_Wait)\<lparr>main_pc := Join 3\<rparr>)"
    using r1(1) r2(1) run_reachable [OF r3(1)] by (meson reachable_trans)
  moreover have "stuck (?e (pcs Done Done Done Get_Wait)\<lparr>main_pc := Join 3\<rparr>)"
    using ring_empty [OF r3(2)] by (auto simp: stuck_def base_def threads_def pcs_def)
  moreover have "blocked (?e (pcs Done Done Done Get_Wait)\<lparr>main_pc := Join 3\<rparr>)"
    by (auto simp: blocked_def step_defs main_step_def)
  ultimately show ?thesis by (intro exI conjI) (assumption, assumption, simp add: base_def, assumption)
qed

section \<open>A run that ends\<close>

lemma finished_all:
  assumes "inv s" and "main_pc s = Finished"
  shows "totalProduced s = 30 \<and> totalConsumed s = 30 \<and> mset (taken s) = mset [1..30]
    \<and> queue_empty (ring s) (buf s) = Some True"
proof -
  obtain xs where xs: "buffer_inv s xs" "local_inv s xs" and c: "count_inv s" and m: "main_inv s"
    using assms(1) by (auto simp: inv_def)
  have d: "pc s 0 = Done" "pc s 1 = Done" "pc s 2 = Done" "pc s 3 = Done"
    using m assms(2) by (auto simp: main_inv_def threads_def)
  have tp: "totalProduced s = 30"
    using local_ok_at [OF xs(2), of 0] d(1) c by (simp add: is_producer_def count_inv_def)
  have tc: "totalConsumed s \<ge> 30" using local_ok_at [OF xs(2), of 2] d(3) by (simp add: is_producer_def)
  have st: "stored s = taken s @ xs" using xs(1) by (simp add: buffer_inv_def)
  have m30: "mset (stored s) = mset [1..30]"
    using c tp d by (auto simp: count_inv_def threads_def)
  have "length (stored s) = 30" using mset_eq_length [OF m30] by simp
  moreover have "length (taken s) \<ge> 30" "totalConsumed s = int (length (taken s))"
    using c d tc by (auto simp: count_inv_def threads_def)
  ultimately have "length xs = 0 \<and> length (taken s) = 30" unfolding st length_append by linarith
  then have "length (taken s) = 30" and "xs = []" by simp_all
  then show ?thesis
    using tp st m30 \<open>totalConsumed s = int (length (taken s))\<close> empty_iff [OF xs(1)] by simp
qed

lemma quit_run3:
  "run [3, 3, 3] (base b r n 30 st tk (pcs p0 p1 p2 C_Lock)) = Some (base b r n 30 st tk (pcs p0 p1 p2 Done))"
  by (simp add: step_defs)

lemma join_all: "\<exists>s. reachable (base b r n m st tk (pcs Done Done Done Done)) s \<and> main_pc s = Finished"
proof -
  let ?s = "base b r n m st tk (pcs Done Done Done Done)\<lparr>main_pc := Join 3\<rparr>"
  have "step ?s (?s\<lparr>main_pc := Finished\<rparr>)"
    by (intro step.main) (simp add: main_step_def base_def)
  with join_three [of b r n m st tk Done] have "reachable (base b r n m st tk (pcs Done Done Done Done)) (?s\<lparr>main_pc := Finished\<rparr>)"
    by (rule reachable.step)
  then show ?thesis by (intro exI conjI) (assumption, simp)
qed

lemma reach_finished:
  assumes "ring_rep 15 b r []"
  shows "\<exists>s. reachable (base b r 0 0 [] [] (pcs P_Lock P_Lock C_Lock C_Lock)) s \<and> main_pc s = Finished"
proof -
  let ?p = "pcs P_Lock P_Lock C_Lock C_Lock"
  obtain r1 st tk where r1: "reachable (base b r 0 0 [] [] ?p) (base b r1 29 29 st tk ?p)" "ring_rep 15 b r1 []"
    using reach_items [OF assms, of 29] by auto
  obtain r2 where r2: "reachable (base b r1 29 29 st tk ?p) (base b r2 30 29 (st @ [30]) tk ?p)"
    "ring_rep 15 b r2 [30]"
    using produce_run [of 29 b r1 "[]" P_Lock C_Lock C_Lock 29 st tk] r1(2) by auto
  obtain r3 where r3: "run [2, 2, 2, 2, 2, 2, 2, 2] (base b r2 30 29 (st @ [30]) tk (pcs Done Done Get_Lock C_Lock))
      = Some (base b r3 30 30 (st @ [30]) (tk @ [30]) (pcs Done Done C_Lock C_Lock))"
    using consume_run [of 29 b r2 30 "[]" Done Done C_Lock 30 "st @ [30]" tk] r2(2) by auto
  let ?s = "\<lambda>p. base b r2 30 29 (st @ [30]) tk p" and ?e = "\<lambda>p. base b r3 30 30 (st @ [30]) (tk @ [30]) p"
  have "reachable (?s ?p) (?s (pcs Done P_Lock C_Lock C_Lock))"
    "reachable (?s (pcs Done P_Lock C_Lock C_Lock)) (?s (pcs Done Done C_Lock C_Lock))"
    "reachable (?s (pcs Done Done C_Lock C_Lock)) (?s (pcs Done Done Get_Lock C_Lock))"
    "reachable (?e (pcs Done Done C_Lock C_Lock)) (?e (pcs Done Done Done C_Lock))"
    "reachable (?e (pcs Done Done Done C_Lock)) (?e (pcs Done Done Done Done))"
    by (rule run_reachable, rule quit_run check_run quit_run3; simp)+
  then have "reachable (base b r 0 0 [] [] ?p) (?e (pcs Done Done Done Done))"
    using r1(1) r2(1) run_reachable [OF r3(1)] by (meson reachable_trans)
  with join_all show ?thesis by (meson reachable_trans)
qed

section \<open>Properties\<close>

lemma init_inv:
  assumes "pqueueinit h True = Some s0" and "alloc (arrays h) (next_addr (arrays h)) \<noteq> None"
  shows "inv s0" and "ring_rep 15 (buf s0) (ring s0) []"
proof -
  have "alloc (structs h) (next_addr (structs h)) \<noteq> None"
    using assms(1) by (auto simp: pqueueinit_def queue_init_def malloc_def split: option.splits)
  then show i: "inv s0" using inv_init [OF _ assms(2)] assms(1) by auto
  have "stored s0 = []" using assms(1) by (auto simp: pqueueinit_def elim!: bind_Some_E)
  with i show "ring_rep 15 (buf s0) (ring s0) []" by (auto elim: inv_taken)
qed

lemma start_alloc: "alloc (arrays start_heap) (next_addr (arrays start_heap)) \<noteq> None"
  by (simp add: start_heap_def empty_store_def)

lemma start_init: "\<exists>s0. pqueueinit start_heap True = Some s0"
proof -
  have "alloc (structs start_heap) (next_addr (structs start_heap)) \<noteq> None"
    by (simp add: start_heap_def empty_store_def)
  with inv_init [OF _ start_alloc] show ?thesis by blast
qed

text \<open>C10: In every state the four threads can reach, in any interleaving and with spurious wakeups,
  the buffer holds exactly the items that were put in and not yet taken out, in order, at most
  fifteen; no item is put in twice, every item is a number the producers have counted (at most
  30), and no more items are counted as consumed than were taken.\<close>

theorem prodcons_safe:
  assumes "pqueueinit h True = Some s0" and "alloc (arrays h) (next_addr (arrays h)) \<noteq> None"
    and "reachable s0 s"
  shows "\<exists>xs. ring_rep 15 (buf s) (ring s) xs \<and> stored s = taken s @ xs \<and> length xs \<le> 15
    \<and> distinct (stored s) \<and> set (stored s) \<subseteq> {1..totalProduced s} \<and> totalProduced s \<le> 30
    \<and> totalConsumed s \<le> int (length (taken s))"
proof -
  have i: "inv s" using inv_reachable [OF assms(3)] init_inv [OF assms(1,2)] by blast
  from inv_taken [OF i] obtain xs where "stored s = taken s @ xs" "ring_rep 15 (buf s) (ring s) xs" "length xs \<le> 15"
    by blast
  with inv_stored [OF i] inv_consumed [OF i] show ?thesis by blast
qed

theorem prodcons_safe_witness:
  "\<exists>s0 xs. pqueueinit start_heap True = Some s0 \<and> ring_rep 15 (buf s0) (ring s0) xs \<and> stored s0 = taken s0 @ xs"
  using prodcons_safe [OF _ start_alloc reachable.refl] start_init by blast

text \<open>C13: When main has joined all threads, exactly thirty items were produced and consumed, the
  consumers got every number from 1 to 30 exactly once, and the buffer is empty.\<close>

theorem prodcons_finished:
  assumes "pqueueinit h True = Some s0" and "alloc (arrays h) (next_addr (arrays h)) \<noteq> None"
    and "reachable s0 s" and "main_pc s = Finished"
  shows "totalProduced s = 30 \<and> totalConsumed s = 30 \<and> mset (taken s) = mset [1..30]
    \<and> queue_empty (ring s) (buf s) = Some True"
  using finished_all inv_reachable [OF assms(3)] init_inv [OF assms(1,2)] assms(4) by blast

theorem prodcons_finished_witness:
  "\<exists>s0 s. pqueueinit start_heap True = Some s0 \<and> reachable s0 s \<and> main_pc s = Finished
    \<and> totalProduced s = 30 \<and> totalConsumed s = 30 \<and> mset (taken s) = mset [1..30]"
proof -
  obtain s0 where s0: "pqueueinit start_heap True = Some s0" using start_init by blast
  obtain s where "reachable s0 s" "main_pc s = Finished"
    using reach_finished [OF init_inv(2) [OF s0 start_alloc]] reach_create [OF s0] by (meson reachable_trans)
  with s0 prodcons_finished [OF s0 start_alloc] show ?thesis by blast
qed

text \<open>C12: Otherwise the protocol does not deadlock and loses no wakeup: when no thread can move and
  main has not finished, both producers are done, all thirty items are produced and consumed,
  the buffer is empty, and a consumer waits in pget for an item that will not come.\<close>

theorem prodcons_blocks_only_at_end:
  assumes "pqueueinit h True = Some s0" and "alloc (arrays h) (next_addr (arrays h)) \<noteq> None"
    and "reachable s0 s" and "blocked s" and "main_pc s \<noteq> Finished"
  shows "pc s 0 = Done \<and> pc s 1 = Done \<and> pc s 2 \<in> {Done, Get_Wait} \<and> pc s 3 \<in> {Done, Get_Wait}
    \<and> (pc s 2 = Get_Wait \<or> pc s 3 = Get_Wait) \<and> queue_empty (ring s) (buf s) = Some True
    \<and> totalProduced s = 30 \<and> totalConsumed s = 30"
  using inv_reachable [OF assms(3)] init_inv [OF assms(1,2)] assms(4,5)
  by (intro blocked_only_at_end) blast+

theorem prodcons_blocks_only_at_end_witness:
  "\<exists>s0 s. pqueueinit start_heap True = Some s0 \<and> reachable s0 s \<and> blocked s \<and> main_pc s \<noteq> Finished
    \<and> pc s 0 = Done \<and> pc s 1 = Done \<and> queue_empty (ring s) (buf s) = Some True \<and> totalConsumed s = 30"
proof -
  obtain s0 where s0: "pqueueinit start_heap True = Some s0" using start_init by blast
  obtain s where s: "reachable s0 s" "blocked s" "stuck s"
    using reach_stuck [OF init_inv(2) [OF s0 start_alloc]] reach_create [OF s0] by (meson reachable_trans)
  then have "main_pc s \<noteq> Finished" by (auto simp: stuck_def)
  with s s0 prodcons_blocks_only_at_end [OF s0 start_alloc] show ?thesis by blast
qed

text \<open>C11: The program can hang: the consumers check the number of consumed items and take an item in
  two critical sections, so from the initial state a state is reachable in which all thirty
  items are consumed and from which, whatever is scheduled, main never finishes.\<close>

theorem prodcons_may_never_end:
  assumes "pqueueinit h True = Some s0" and "alloc (arrays h) (next_addr (arrays h)) \<noteq> None"
  shows "\<exists>s. reachable s0 s \<and> totalConsumed s = 30 \<and> (\<forall>s'. reachable s s' \<longrightarrow> main_pc s' \<noteq> Finished)"
proof -
  obtain s where s: "reachable s0 s" "stuck s" "totalConsumed s = 30"
    using reach_stuck [OF init_inv(2) [OF assms]] reach_create [OF assms(1)] by (meson reachable_trans)
  have "main_pc s' \<noteq> Finished" if "reachable s s'" for s'
    using stuck_forever [OF that s(2)] by (auto simp: stuck_def)
  with s show ?thesis by blast
qed

theorem prodcons_may_never_end_witness:
  "\<exists>s0 s. pqueueinit start_heap True = Some s0 \<and> reachable s0 s \<and> totalConsumed s = 30
    \<and> (\<forall>s'. reachable s s' \<longrightarrow> main_pc s' \<noteq> Finished)"
  using prodcons_may_never_end [OF _ start_alloc] start_init by blast

end
