(* ===== verification/Week7_Threads.thy ===== *)
theory Week7_Threads
  imports C_Prelude "HOL-Library.Sublist"
begin

text \<open>
  A process of threads, for the demonstrations \<open>multithread.c\<close>, \<open>thread_cancel.c\<close> and \<open>thread_shared.c\<close> of
  \<open>week7\<close>: what a thread has still to do is a list of statements (the loops of these programs have constant
  bounds), the threads run in any interleaving, and the process ends when \<open>main\<close>, thread 0, returns. The
  time a thread sleeps is arbitrary. An access to an \<open>int\<close> of the shared array is one step.
\<close>

section \<open>Threads and their steps\<close>

type_synonym tid = nat

datatype stmt =
    Say string
  | Nap
  | Start tid "stmt list"
  | Cancel tid
  | Join tid
  | Store nat int
  | Show nat

record process =
  stmts :: "tid \<Rightarrow> stmt list"
  pending :: "tid \<Rightarrow> bool"
  shared :: "int list"
  out :: "(tid \<times> string) list"

definition say :: "tid \<Rightarrow> string \<Rightarrow> process \<Rightarrow> process" where
  "say t l s = s\<lparr>out := out s @ [(t, l)]\<rparr>"

definition continue_with :: "tid \<Rightarrow> stmt list \<Rightarrow> process \<Rightarrow> process" where
  "continue_with t p s = s\<lparr>stmts := (stmts s)(t := p)\<rparr>"

text \<open>A statement of thread \<open>t\<close>; \<open>Join\<close> waits, and sleeping does not go on when a cancellation is pending.\<close>

fun effect :: "tid \<Rightarrow> stmt \<Rightarrow> process \<Rightarrow> process option" where
  "effect t (Say l) s = Some (say t l s)"
| "effect t Nap s = (if pending s t then None else Some s)"
| "effect t (Start u p) s = Some (continue_with u p s)"
| "effect t (Cancel u) s = Some (s\<lparr>pending := (pending s)(u := True)\<rparr>)"
| "effect t (Join u) s = (if stmts s u = [] then Some s else None)"
| "effect t (Store i v) s = (if i < length (shared s) then Some (s\<lparr>shared := (shared s)[i := v]\<rparr>) else None)"
| "effect t (Show i) s =
     (if i < length (shared s) then Some (say t (dec_int (shared s ! i) @ '' '') s) else None)"

text \<open>Where a pending cancellation may end a thread: sleeping has to be such a point, printing may be one.\<close>

fun cancel_point :: "stmt \<Rightarrow> bool" where
  "cancel_point (Say l) \<longleftrightarrow> True"
| "cancel_point (Show i) \<longleftrightarrow> True"
| "cancel_point Nap \<longleftrightarrow> True"
| "cancel_point (Join u) \<longleftrightarrow> True"
| "cancel_point _ \<longleftrightarrow> False"

inductive tstep :: "process \<Rightarrow> process \<Rightarrow> bool" where
  goes_on: "stmts s 0 \<noteq> [] \<Longrightarrow> stmts s t = c # p \<Longrightarrow> effect t c (continue_with t p s) = Some s' \<Longrightarrow> tstep s s'"
| is_cancelled: "stmts s 0 \<noteq> [] \<Longrightarrow> pending s t \<Longrightarrow> stmts s t = c # p \<Longrightarrow> cancel_point c \<Longrightarrow> tstep s (continue_with t [] s)"

abbreviation tsteps :: "process \<Rightarrow> process \<Rightarrow> bool" where
  "tsteps \<equiv> tstep\<^sup>*\<^sup>*"

definition start :: "stmt list \<Rightarrow> nat \<Rightarrow> process" where
  "start main n = \<lparr>stmts = (\<lambda>_. [])(0 := main), pending = \<lambda>_. False, shared = replicate n 0, out = []\<rparr>"

text \<open>What a thread has printed, and what a list of statements prints.\<close>

definition said :: "tid \<Rightarrow> process \<Rightarrow> string list" where
  "said t s = map snd (filter (\<lambda>x. fst x = t) (out s))"

fun says :: "stmt list \<Rightarrow> string list" where
  "says [] = []"
| "says (Say l # p) = l # says p"
| "says (c # p) = says p"

section \<open>Lemmas\<close>

lemma continue_with_simps [simp]:
  "stmts (continue_with t p s) = (stmts s)(t := p)" "pending (continue_with t p s) = pending s"
  "shared (continue_with t p s) = shared s" "out (continue_with t p s) = out s" "said u (continue_with t p s) = said u s"
  by (simp_all add: continue_with_def said_def)

lemma say_simps [simp]:
  "stmts (say t l s) = stmts s" "pending (say t l s) = pending s" "shared (say t l s) = shared s"
  "said u (say t l s) = (if u = t then said u s @ [l] else said u s)"
  by (simp_all add: say_def said_def)

lemma said_simps [simp]:
  "said u (s\<lparr>pending := x\<rparr>) = said u s" "said u (s\<lparr>shared := y\<rparr>) = said u s" "said u (start p n) = []"
  by (simp_all add: said_def start_def)

lemma start_simps [simp]:
  "stmts (start p n) = (\<lambda>_. [])(0 := p)" "pending (start p n) = (\<lambda>_. False)" "shared (start p n) = replicate n 0"
  by (simp_all add: start_def)

lemma continue_same: "stmts s t = p \<Longrightarrow> continue_with t p s = s"
  by (auto simp: continue_with_def)

lemma says_append: "says (p @ q) = says p @ says q"
  by (induction p rule: says.induct) simp_all

lemma says_concat: "says (concat ps) = concat (map says ps)"
  by (induction ps) (simp_all add: says_append)

text \<open>Statements that print or sleep can be run at once.\<close>

fun plain :: "stmt \<Rightarrow> bool" where
  "plain (Say l) \<longleftrightarrow> True"
| "plain Nap \<longleftrightarrow> True"
| "plain _ \<longleftrightarrow> False"

lemma run_plain:
  assumes "t \<noteq> 0" and "\<forall>c \<in> set p. plain c"
  shows "stmts s 0 \<noteq> [] \<Longrightarrow> \<not> pending s t \<Longrightarrow> stmts s t = p @ q \<Longrightarrow>
    \<exists>s'. tsteps s s' \<and> stmts s' = (stmts s)(t := q) \<and> pending s' = pending s \<and> shared s' = shared s
      \<and> said t s' = said t s @ says p \<and> (\<forall>u. u \<noteq> t \<longrightarrow> said u s' = said u s)"
  using assms(2)
proof (induction p arbitrary: s)
  case Nil
  then show ?case by (intro exI [of _ s]) auto
next
  case (Cons c p)
  let ?s = "continue_with t (p @ q) s"
  obtain s1 where s1: "effect t c ?s = Some s1" "stmts s1 = (stmts s)(t := p @ q)" "pending s1 = pending s"
    "shared s1 = shared s" "said t s1 @ says p = said t s @ says (c # p)" "\<forall>u. u \<noteq> t \<longrightarrow> said u s1 = said u s"
    using Cons.prems by (cases c) auto
  have st: "tstep s s1" by (rule goes_on [OF Cons.prems(1) _ s1(1)]) (use Cons.prems in simp)
  have pl: "\<forall>c \<in> set p. plain c" using Cons.prems(4) by simp
  have nz: "stmts s1 0 \<noteq> []" "\<not> pending s1 t" "stmts s1 t = p @ q" using s1 assms(1) Cons.prems by simp_all
  obtain s' where "tsteps s1 s'" "stmts s' = (stmts s1)(t := q)" "pending s' = pending s1" "shared s' = shared s1"
    "said t s' = said t s1 @ says p" "\<forall>u. u \<noteq> t \<longrightarrow> said u s' = said u s1"
    using Cons.IH [OF nz pl] by blast
  with s1 st show ?case by (intro exI [of _ s']) (auto intro: converse_rtranclp_into_rtranclp)
qed

text \<open>One step of thread 0.\<close>

lemma main_step:
  assumes "stmts s 0 = c # p" and "effect 0 c (continue_with 0 p s) = Some s'"
  shows "tstep s s'"
  by (rule goes_on [OF _ assms]) (simp add: assms(1))

section \<open>A main program and threads that print\<close>

text \<open>\<open>main\<close> starts each thread at most once, joins only threads it has started, and is not cancelled.\<close>

fun good_stmt :: "(tid \<Rightarrow> stmt list) \<Rightarrow> stmt list \<Rightarrow> stmt \<Rightarrow> bool" where
  "good_stmt P before (Start u p) \<longleftrightarrow> u \<noteq> 0 \<and> p = P u \<and> Start u (P u) \<notin> set before"
| "good_stmt P before (Join u) \<longleftrightarrow> Start u (P u) \<in> set before"
| "good_stmt P before (Cancel u) \<longleftrightarrow> u \<noteq> 0"
| "good_stmt P before c \<longleftrightarrow> plain c"

definition good_main :: "stmt list \<Rightarrow> (tid \<Rightarrow> stmt list) \<Rightarrow> bool" where
  "good_main M P \<longleftrightarrow> (\<forall>u. \<forall>c \<in> set (P u). plain c) \<and> (\<forall>n < length M. good_stmt P (take n M) (M ! n))"

definition thread_inv :: "stmt list \<Rightarrow> process \<Rightarrow> tid \<Rightarrow> bool" where
  "thread_inv p s u \<longleftrightarrow> (\<forall>c \<in> set (stmts s u). plain c)
     \<and> (\<exists>rest. said u s @ rest = says p \<and> (rest = says (stmts s u) \<or> pending s u \<and> stmts s u = []))"

definition main_inv :: "stmt list \<Rightarrow> (tid \<Rightarrow> stmt list) \<Rightarrow> nat \<Rightarrow> process \<Rightarrow> bool" where
  "main_inv M P n s \<longleftrightarrow> stmts s 0 = drop n M \<and> said 0 s = says (take n M)
     \<and> (\<forall>u. pending s u \<longleftrightarrow> Cancel u \<in> set (take n M))
     \<and> (\<forall>u. u \<noteq> 0 \<longrightarrow> (if Start u (P u) \<in> set (take n M) then thread_inv (P u) s u else stmts s u = [] \<and> said u s = []))
     \<and> (\<forall>u. Join u \<in> set (take n M) \<longrightarrow> stmts s u = [])"

lemma main_inv_start: "good_main M P \<Longrightarrow> main_inv M P 0 (start M k)"
  by (simp add: main_inv_def)

lemma plain_effect:
  assumes "effect t c (continue_with t p s) = Some s'" and "plain c" and "stmts s t = c # p"
  shows "stmts s' = (stmts s)(t := p)" "pending s' = pending s" "said t s' @ says p = said t s @ says (stmts s t)"
    "u \<noteq> t \<Longrightarrow> said u s' = said u s"
  using assms by (cases c; auto split: if_splits)+

lemma thread_inv_other:
  "thread_inv p s u \<Longrightarrow> stmts s' u = stmts s u \<Longrightarrow> said u s' = said u s \<Longrightarrow> (pending s u \<Longrightarrow> pending s' u) \<Longrightarrow> thread_inv p s' u"
  by (auto simp: thread_inv_def)

lemma main_inv_thread:
  assumes "good_main M P" and "main_inv M P n s" and "t \<noteq> 0" and "stmts s t = c # p"
    and "effect t c (continue_with t p s) = Some s'"
  shows "main_inv M P n s'"
proof -
  have st: "Start t (P t) \<in> set (take n M)" using assms(2-4) unfolding main_inv_def by (metis list.distinct(1))
  then have ti: "thread_inv (P t) s t" using assms(2,3) by (simp add: main_inv_def)
  have c: "plain c" using ti assms(4) by (simp add: thread_inv_def)
  note e = plain_effect [OF assms(5) c assms(4)]
  have "Join t \<notin> set (take n M)" using assms(2,4) by (auto simp: main_inv_def)
  moreover have "thread_inv (P t) s' t"
    using ti e(1-3) assms(4) unfolding thread_inv_def by auto
  moreover have "thread_inv (P u) s u \<Longrightarrow> u \<noteq> t \<Longrightarrow> thread_inv (P u) s' u" for u
    using e(1,2) e(4) [of u] by (intro thread_inv_other [of "P u" s u s']) simp_all
  ultimately show ?thesis using assms(2,3) st e(1,2,4) unfolding main_inv_def by auto
qed

lemma good_at: "good_main M P \<Longrightarrow> n < length M \<Longrightarrow> good_stmt P (take n M) (M ! n)"
  by (simp add: good_main_def)

lemma not_cancel_0: "good_main M P \<Longrightarrow> Cancel 0 \<notin> set (take n M)"
  using good_at [of M P] by (fastforce simp: in_set_conv_nth)

lemma not_start_0: "good_main M P \<Longrightarrow> Start 0 p \<notin> set M"
  using good_at [of M P] by (fastforce simp: in_set_conv_nth)

lemma main_next:
  assumes "main_inv M P n s" and "stmts s 0 = c # p"
  shows "n < length M" "c = M ! n" "p = drop (Suc n) M"
proof -
  have d: "drop n M = c # p" using assms by (simp add: main_inv_def)
  then show n: "n < length M" using not_le by fastforce
  show "c = M ! n" "p = drop (Suc n) M" using d Cons_nth_drop_Suc [OF n] by simp_all
qed

lemma main_inv_cancelled:
  assumes "good_main M P" and "main_inv M P n s" and "pending s t" and "stmts s t = c # p"
  shows "main_inv M P n (continue_with t [] s)"
proof -
  have t: "t \<noteq> 0" using not_cancel_0 [OF assms(1)] assms(2,3) unfolding main_inv_def by metis
  then have "Start t (P t) \<in> set (take n M)" using assms(2,4) unfolding main_inv_def by (metis list.distinct(1))
  then have "thread_inv (P t) s t" using assms(2) t by (simp add: main_inv_def)
  then have "thread_inv (P t) (continue_with t [] s) t" using assms(3) by (auto simp: thread_inv_def)
  then have "thread_inv (P u) s u \<Longrightarrow> thread_inv (P u) (continue_with t [] s) u" for u
    by (cases "u = t") (simp, rule thread_inv_other, simp_all)
  then show ?thesis using assms(2) t unfolding main_inv_def by auto
qed

lemma main_inv_main:
  assumes "good_main M P" and "main_inv M P n s" and "stmts s 0 = c # p"
    and "effect 0 c (continue_with 0 p s) = Some s'"
  shows "main_inv M P (Suc n) s'"
proof -
  note n = main_next [OF assms(2,3)]
  have tk: "take (Suc n) M = take n M @ [c]" using n by (simp add: take_Suc_conv_app_nth)
  have c: "good_stmt P (take n M) c"
    using good_at [OF assms(1) n(1)] n(2) by simp
  have P: "\<forall>c \<in> set (P u). plain c" for u using assms(1) by (simp add: good_main_def)
  have keep: "thread_inv (P u) s u \<Longrightarrow> stmts s' u = stmts s u \<Longrightarrow> said u s' = said u s \<Longrightarrow> (pending s u \<Longrightarrow> pending s' u)
      \<Longrightarrow> thread_inv (P u) s' u" for u
    by (rule thread_inv_other)
  have other: ?thesis if no: "\<And>u q. c \<noteq> Start u q"
  proof -
    have e: "stmts s' = (stmts s)(0 := p)" "u \<noteq> 0 \<Longrightarrow> said u s' = said u s" "said 0 s' = said 0 s @ says [c]"
      "pending s' u \<longleftrightarrow> pending s u \<or> c = Cancel u" "c = Join u \<Longrightarrow> stmts s' u = []" for u
      using assms(4) c no by (cases c; auto split: if_splits)+
    have "thread_inv (P u) s u \<Longrightarrow> u \<noteq> 0 \<Longrightarrow> thread_inv (P u) s' u" for u
      using e by (intro keep) simp_all
    moreover have "Join 0 \<notin> set (take n M)" using assms(2,3) by (auto simp: main_inv_def)
    moreover have "Start u (P u) \<noteq> c" "c \<noteq> Start u (P u)" for u using no by blast+
    ultimately show ?thesis using assms(2) n(3) e unfolding main_inv_def tk by (auto simp: says_append)
  qed
  show ?thesis
  proof (cases c)
    case (Start u q)
    then have s': "s' = continue_with u (P u) (continue_with 0 p s)" and u: "u \<noteq> 0" "Start u (P u) \<notin> set (take n M)"
      using assms(4) c by auto
    have "said u s = []" using assms(2) u by (simp add: main_inv_def)
    then have "thread_inv (P u) s' u" using P u unfolding s' by (simp add: thread_inv_def)
    moreover have "Join u \<notin> set (take n M)"
    proof
      assume "Join u \<in> set (take n M)"
      then obtain k where k: "k < n" "M ! k = Join u" "k < length M" using n(1) by (auto simp: in_set_conv_nth)
      then have "Start u (P u) \<in> set (take k M)" using good_at [OF assms(1) k(3)] by simp
      moreover have "set (take k M) \<subseteq> set (take n M)" using k(1) by (simp add: set_take_subset_set_take)
      ultimately show False using u(2) by blast
    qed
    moreover have "Start v (P v) \<in> set (take n M) \<Longrightarrow> v \<noteq> 0 \<Longrightarrow> thread_inv (P v) s v \<Longrightarrow> thread_inv (P v) s' v" for v
      using u(2) by (cases "v = u") (simp, rule keep, simp_all add: s')
    ultimately show ?thesis using assms(2) n(3) u Start c unfolding main_inv_def tk s' by (auto simp: says_append)
  qed (rule other; simp)+
qed

text \<open>What is still to be done, in statements: it decreases with every step.\<close>

definition starts :: "stmt list \<Rightarrow> (tid \<Rightarrow> stmt list) \<Rightarrow> tid set" where
  "starts M P = {u. Start u (P u) \<in> set M}"

definition todo :: "stmt list \<Rightarrow> (tid \<Rightarrow> stmt list) \<Rightarrow> nat \<Rightarrow> process \<Rightarrow> nat" where
  "todo M P n s = (length M - n) + (\<Sum>u \<in> starts M P. length (if u \<in> starts (take n M) P then stmts s u else P u))"

lemma finite_starts: "finite (starts M P)"
proof -
  have "starts M P \<subseteq> (\<lambda>c. case c of Start u p \<Rightarrow> u | _ \<Rightarrow> 0) ` set M"
    unfolding starts_def by (force simp: image_iff)
  then show ?thesis by (rule finite_subset) simp
qed

lemma todo_thread:
  assumes "t \<in> starts (take n M) P" and "stmts s' = (stmts s)(t := p)" and "length p < length (stmts s t)"
  shows "todo M P n s' < todo M P n s"
proof -
  have "t \<in> starts M P" using assms(1) by (auto simp: starts_def dest: in_set_takeD)
  then have "(\<Sum>u \<in> starts M P. length (if u \<in> starts (take n M) P then stmts s' u else P u))
      < (\<Sum>u \<in> starts M P. length (if u \<in> starts (take n M) P then stmts s u else P u))"
    using assms by (intro sum_strict_mono_ex1 finite_starts) auto
  then show ?thesis by (simp add: todo_def)
qed

lemma main_inv_started:
  assumes "main_inv M P n s" and "stmts s t \<noteq> []" and "t \<noteq> 0"
  shows "t \<in> starts (take n M) P"
  using assms unfolding main_inv_def starts_def by (metis mem_Collect_eq)

lemma main_inv_step:
  assumes g: "good_main M P" and i: "main_inv M P n s" and "tstep s s'"
  shows "\<exists>n'. main_inv M P n' s' \<and> todo M P n' s' < todo M P n s"
  using assms(3)
proof cases
  case (goes_on t c p)
  show ?thesis
  proof (cases "t = 0")
    case True
    with goes_on have m: "stmts s 0 = c # p" "effect 0 c (continue_with 0 p s) = Some s'" by simp_all
    have i': "main_inv M P (Suc n) s'" by (rule main_inv_main [OF g i m])
    note n = main_next [OF i m(1)]
    have "stmts s' u = stmts s u" if "u \<in> starts (take n M) P" "u \<noteq> 0" for u
    proof -
      have "\<not> (\<exists>q. c = Start u q)" using good_at [OF g n(1)] n(2) that by (auto simp: starts_def)
      with m(2) that(2) show ?thesis by (cases c) (auto split: if_splits)
    qed
    moreover have "stmts s' u = P u" if "u \<in> starts (take (Suc n) M) P" "u \<notin> starts (take n M) P" for u
    proof -
      have "c = Start u (P u)" using that n by (simp add: starts_def take_Suc_conv_app_nth)
      with m(2) show ?thesis by auto
    qed
    moreover have "starts (take n M) P \<subseteq> starts (take (Suc n) M) P"
      unfolding starts_def using set_take_subset_set_take [of n "Suc n" M] by auto
    moreover have "u \<noteq> 0" if "u \<in> starts M P" for u using that not_start_0 [OF g] unfolding starts_def by (metis mem_Collect_eq)
    ultimately have "(\<Sum>u \<in> starts M P. length (if u \<in> starts (take (Suc n) M) P then stmts s' u else P u))
        = (\<Sum>u \<in> starts M P. length (if u \<in> starts (take n M) P then stmts s u else P u))"
      by (intro sum.cong) (auto simp: subset_iff)
    then have "todo M P (Suc n) s' < todo M P n s" using n(1) by (simp add: todo_def)
    with i' show ?thesis by blast
  next
    case False
    have i': "main_inv M P n s'" by (rule main_inv_thread [OF g i False goes_on(2,3)])
    have st: "t \<in> starts (take n M) P" by (rule main_inv_started [OF i _ False]) (simp add: goes_on(2))
    then have "thread_inv (P t) s t" using i False by (simp add: main_inv_def starts_def)
    then have "plain c" using goes_on(2) by (simp add: thread_inv_def)
    then have "stmts s' = (stmts s)(t := p)" by (rule plain_effect(1) [OF goes_on(3) _ goes_on(2)])
    with todo_thread [OF st] goes_on(2) i' show ?thesis by auto
  qed
next
  case (is_cancelled t c p)
  have i': "main_inv M P n s'" using main_inv_cancelled [OF g i is_cancelled(3,4)] is_cancelled(1) by simp
  have "t \<noteq> 0" using not_cancel_0 [OF g] i is_cancelled(3) unfolding main_inv_def by metis
  then have "t \<in> starts (take n M) P" using is_cancelled(4) by (intro main_inv_started [OF i]) simp_all
  with todo_thread [of t n M P s' s "[]"] is_cancelled i' show ?thesis by auto
qed

lemma main_inv_steps:
  assumes "good_main M P" and "(tstep ^^ k) (start M m) s"
  shows "\<exists>n. main_inv M P n s \<and> todo M P n s + k \<le> todo M P 0 (start M m)"
  using assms(2)
proof (induction k arbitrary: s)
  case 0
  then show ?case using main_inv_start [OF assms(1)] by auto
next
  case (Suc k)
  then obtain s1 where s1: "(tstep ^^ k) (start M m) s1" "tstep s1 s" by auto
  obtain n where n: "main_inv M P n s1" "todo M P n s1 + k \<le> todo M P 0 (start M m)" using Suc.IH [OF s1(1)] by blast
  obtain n' where "main_inv M P n' s" "todo M P n' s < todo M P n s1" using main_inv_step [OF assms(1) n(1) s1(2)] by blast
  with n(2) show ?case by (intro exI [of _ n']) simp
qed

lemma main_inv_reachable: "good_main M P \<Longrightarrow> tsteps (start M m) s \<Longrightarrow> \<exists>n. main_inv M P n s"
  using main_inv_steps by (meson rtranclp_imp_relpowp)

lemma good_main_progress:
  assumes g: "good_main M P" and i: "main_inv M P n s" and "stmts s 0 \<noteq> []"
  shows "\<exists>s'. tstep s s'"
proof -
  obtain c p where m: "stmts s 0 = c # p" using assms(3) by (cases "stmts s 0") auto
  note n = main_next [OF i m]
  have c: "good_stmt P (take n M) c"
    using good_at [OF g n(1)] n(2) by simp
  show ?thesis
  proof (cases "effect 0 c (continue_with 0 p s)")
    case (Some s')
    then show ?thesis using main_step [OF m] by blast
  next
    case None
    have "\<not> pending s 0" using not_cancel_0 [OF g] i by (simp add: main_inv_def)
    then obtain u where u: "c = Join u" "((stmts s)(0 := p)) u \<noteq> []" "Start u (P u) \<in> set (take n M)"
      using None c by (cases c) (auto split: if_splits)
    then have u0: "u \<noteq> 0" using not_start_0 [OF g] by (metis in_set_takeD)
    then obtain d q where d: "stmts s u = d # q" using u(2) by (cases "stmts s u") auto
      have "thread_inv (P u) s u" using i u(3) u0 by (simp add: main_inv_def)
      then have pd: "plain d" using d by (simp add: thread_inv_def)
      show ?thesis
      proof (cases "effect u d (continue_with u q s)")
        case (Some s')
        then show ?thesis using goes_on [OF assms(3) d] by blast
      next
        case None
        then have "d = Nap" "pending s u" using pd by (cases d; auto split: if_splits)+
        then show ?thesis using is_cancelled [OF assms(3) _ d] by auto
      qed
  qed
qed

end
