(* ===== verification/Week7_Demos.thy ===== *)
theory Week7_Demos
  imports Week7_Threads
begin

text \<open>
  \<open>week7/multithread.c\<close> and \<open>week7/thread_cancel.c\<close>: which outputs the threads can produce. \<open>main\<close> is
  thread 0, its two threads are 1 and 2.
\<close>

section \<open>The programs\<close>

definition worker :: "string \<Rightarrow> stmt list" where
  "worker name =
     concat (replicate 5 [Nap, Say (''Hello from thread '' @ name)]) @ [Say (''Thread '' @ name @ '' done!'')]"

definition multithread_main :: "stmt list" where
  "multithread_main = [Start 1 (worker ''X''), Start 2 (worker ''Y''), Nap, Say ''Exiting main program'']"

text \<open>\<open>tid\<close> is the value of \<open>pthread_self\<close> that the lines show.\<close>

definition do_work :: "nat \<Rightarrow> string \<Rightarrow> stmt list" where
  "do_work tid name =
     (let th = ''Thread '' @ name; i = '' (ID: '' @ dec_nat tid @ '')''
      in [Say (th @ '' started'' @ i)]
         @ concat (replicate 10 [Say (th @ i @ '' working...''), Nap])
         @ [Say (th @ i @ '' completed normally.'')])"

definition cancel_main :: "nat \<Rightarrow> nat \<Rightarrow> stmt list" where
  "cancel_main t1 t2 =
     [Start 1 (do_work t1 ''X''), Start 2 (do_work t2 ''Y''), Nap,
      Say (''====> Cancelling Thread Y (pthread_t: '' @ dec_nat t2 @ '')''), Cancel 2,
      Join 1, Join 2, Say ''Main thread done.'']"

definition two :: "stmt list \<Rightarrow> stmt list \<Rightarrow> tid \<Rightarrow> stmt list" where
  "two p q = (\<lambda>_. [])(1 := p, 2 := q)"

section \<open>Runs\<close>

lemma plain_worker: "\<forall>c \<in> set (worker name). plain c"
  by (auto simp: worker_def)

lemma plain_do_work: "\<forall>c \<in> set (do_work t name). plain c"
  by (auto simp: do_work_def Let_def)

lemma good_multithread: "good_main multithread_main (two (worker ''X'') (worker ''Y''))"
  using plain_worker by (auto simp: good_main_def two_def multithread_main_def less_Suc_eq numeral_eq_Suc)

lemma good_cancel: "good_main (cancel_main t1 t2) (two (do_work t1 ''X'') (do_work t2 ''Y''))"
  using plain_do_work by (auto simp: good_main_def two_def cancel_main_def less_Suc_eq numeral_eq_Suc)

lemma says_prefix: "prefix xs (says p) \<Longrightarrow> \<exists>q r. p = q @ r \<and> says q = xs"
proof (induction p arbitrary: xs)
  case (Cons c p)
  show ?case
  proof (cases xs)
    case Nil
    then have "c # p = [] @ (c # p) \<and> says [] = xs" by simp
    then show ?thesis by blast
  next
    case ne: (Cons x xs')
    show ?thesis
    proof (cases "\<exists>l. c = Say l")
      case True
      then have c: "c = Say x" and pr: "prefix xs' (says p)" using Cons.prems ne by auto
      obtain q r where "p = q @ r" "says q = xs'" using Cons.IH [OF pr] by blast
      then show ?thesis using ne c by (intro exI [of _ "c # q"] exI [of _ r]) simp
    next
      case False
      then have s: "says (c # q) = says q" for q by (cases c) simp_all
      then obtain q r where "p = q @ r" "says q = xs" using Cons by metis
      then show ?thesis using s by (intro exI [of _ "c # q"] exI [of _ r]) simp
    qed
  qed
qed simp

text \<open>When \<open>main\<close> has returned.\<close>

lemma returned:
  assumes "good_main M P" and "tsteps (start M m) s" and "stmts s 0 = []"
  shows "main_inv M P (length M) s"
proof -
  obtain n where n: "main_inv M P n s" using main_inv_reachable [OF assms(1,2)] by blast
  then have "drop n M = []" using assms(3) by (simp add: main_inv_def)
  then have "take n M = take (length M) M" "drop n M = drop (length M) M" by simp_all
  with n show ?thesis by (simp add: main_inv_def)
qed

lemma said_prefix: "thread_inv p s u \<Longrightarrow> prefix (said u s) (says p)"
  unfolding thread_inv_def prefix_def by metis

text \<open>The two threads have been started, and each has printed something.\<close>

lemma start_two:
  assumes "M = Start 1 p # Start 2 q # M'" and "M' \<noteq> []" and "p = p1 @ p2" and "q = q1 @ q2"
    and "\<forall>c \<in> set p1. plain c" and "\<forall>c \<in> set q1. plain c"
  shows "\<exists>s. tsteps (start M m) s \<and> stmts s = ((\<lambda>_. [])(0 := M'))(1 := p2, 2 := q2) \<and> pending s = (\<lambda>_. False)
    \<and> said 1 s = says p1 \<and> said 2 s = says q1 \<and> said 0 s = []"
proof -
  let ?s1 = "continue_with 1 p (continue_with 0 (Start 2 q # M') (start M m))"
  let ?s2 = "continue_with 2 q (continue_with 0 M' ?s1)"
  have "tstep (start M m) ?s1" using assms(1) by (intro main_step [of _ "Start 1 p" "Start 2 q # M'"]) simp_all
  moreover have "tstep ?s1 ?s2" by (intro main_step [of _ "Start 2 q" M']) simp_all
  moreover obtain s3 where s3: "tsteps ?s2 s3" "stmts s3 = (stmts ?s2)(1 := p2)" "pending s3 = pending ?s2"
    "said 1 s3 = said 1 ?s2 @ says p1" "\<forall>u. u \<noteq> 1 \<longrightarrow> said u s3 = said u ?s2"
    using run_plain [of 1 p1 ?s2 p2] assms(2,3,5) by auto
  moreover have c: "stmts s3 0 \<noteq> []" "\<not> pending s3 2" "stmts s3 2 = q1 @ q2" using s3(2,3) assms(2,4) by simp_all
  obtain s4 where s4: "tsteps s3 s4" "stmts s4 = (stmts s3)(2 := q2)" "pending s4 = pending s3"
    "said 2 s4 = said 2 s3 @ says q1" "\<forall>u. u \<noteq> 2 \<longrightarrow> said u s4 = said u s3"
    using run_plain [OF _ assms(6) c] by auto
  ultimately have "tsteps (start M m) s4" by (meson converse_rtranclp_into_rtranclp rtranclp_trans)
  moreover have "stmts s4 = ((\<lambda>_. [])(0 := M'))(1 := p2, 2 := q2)" using s3(2) s4(2) by (simp add: fun_eq_iff)
  ultimately show ?thesis using s3(3-5) s4(3-5) by (intro exI [of _ s4]) simp
qed

section \<open>Threads that nobody waits for\<close>

text \<open>\<open>main\<close> does not join its threads: when it returns, each of them may have printed any part of its lines.\<close>

theorem multithread_outputs:
  "(\<exists>s. tsteps (start multithread_main 0) s \<and> stmts s 0 = [] \<and> said 0 s = [''Exiting main program'']
      \<and> said 1 s = xs \<and> said 2 s = ys)
   \<longleftrightarrow> prefix xs (says (worker ''X'')) \<and> prefix ys (says (worker ''Y''))"
proof
  assume "\<exists>s. tsteps (start multithread_main 0) s \<and> stmts s 0 = [] \<and> said 0 s = [''Exiting main program'']
      \<and> said 1 s = xs \<and> said 2 s = ys"
  then obtain s where s: "tsteps (start multithread_main 0) s" "stmts s 0 = []" "said 1 s = xs" "said 2 s = ys" by blast
  note i = returned [OF good_multithread s(1,2)]
  have "thread_inv (worker ''X'') s 1" "thread_inv (worker ''Y'') s 2"
    using i unfolding main_inv_def by (auto simp: two_def multithread_main_def dest: spec [of _ 1] spec [of _ 2])
  then show "prefix xs (says (worker ''X'')) \<and> prefix ys (says (worker ''Y''))" using said_prefix s(3,4) by metis
next
  assume "prefix xs (says (worker ''X'')) \<and> prefix ys (says (worker ''Y''))"
  then obtain p1 p2 q1 q2 where pq: "worker ''X'' = p1 @ p2" "says p1 = xs" "worker ''Y'' = q1 @ q2" "says q1 = ys"
    using says_prefix by metis
  have pl: "\<forall>c \<in> set p1. plain c" "\<forall>c \<in> set q1. plain c"
    using plain_worker [of "''X''"] plain_worker [of "''Y''"] by (simp_all add: pq(1,3))
  obtain s where s: "tsteps (start multithread_main 0) s" "stmts s = ((\<lambda>_. [])(0 := [Nap, Say ''Exiting main program'']))(1 := p2, 2 := q2)"
    "pending s = (\<lambda>_. False)" "said 1 s = xs" "said 2 s = ys" "said 0 s = []"
    using start_two [OF multithread_main_def _ pq(1,3) pl, of 0] pq(2,4) by auto
  let ?s1 = "continue_with 0 [Say ''Exiting main program''] s"
  let ?s2 = "say 0 ''Exiting main program'' (continue_with 0 [] ?s1)"
  have "tstep s ?s1" using s(2,3) by (intro main_step [of _ Nap]) simp_all
  moreover have "tstep ?s1 ?s2" by (intro main_step [of _ "Say ''Exiting main program''" "[]"]) simp_all
  ultimately have "tsteps (start multithread_main 0) ?s2" using s(1) by (meson rtranclp.rtrancl_into_rtrancl)
  then show "\<exists>s. tsteps (start multithread_main 0) s \<and> stmts s 0 = [] \<and> said 0 s = [''Exiting main program'']
      \<and> said 1 s = xs \<and> said 2 s = ys" using s(4-6) by (intro exI [of _ ?s2]) simp
qed

theorem multithread_outputs_witness:
  "\<exists>s. tsteps (start multithread_main 0) s \<and> stmts s 0 = [] \<and> said 0 s = [''Exiting main program'']
      \<and> said 1 s = [] \<and> said 2 s = [''Hello from thread Y'']"
  by (subst multithread_outputs) (simp add: worker_def numeral_eq_Suc)

section \<open>A thread that is cancelled\<close>

text \<open>The last statements of \<open>main\<close>, when the first thread is done.\<close>

definition cancel_rest :: "nat \<Rightarrow> stmt list" where
  "cancel_rest t2 = [Nap, Say (''====> Cancelling Thread Y (pthread_t: '' @ dec_nat t2 @ '')''), Cancel 2,
      Join 1, Join 2, Say ''Main thread done.'']"

lemma cancel_main_rest:
  "cancel_main t1 t2 = Start 1 (do_work t1 ''X'') # Start 2 (do_work t2 ''Y'') # cancel_rest t2"
  by (simp add: cancel_main_def cancel_rest_def)

lemma cancel_last:
  assumes "stmts s = (\<lambda>_. [])(0 := cancel_rest t2, 2 := q2)" and "pending s = (\<lambda>_. False)"
    and "\<forall>c \<in> set q2. plain c"
  shows "\<exists>s'. tsteps s s' \<and> stmts s' 0 = [] \<and> said 1 s' = said 1 s \<and> said 2 s' = said 2 s"
proof -
  let ?l = "''====> Cancelling Thread Y (pthread_t: '' @ dec_nat t2 @ '')''"
  define a where "a = continue_with 0 [Say ?l, Cancel 2, Join 1, Join 2, Say ''Main thread done.''] s"
  define b where "b = say 0 ?l (continue_with 0 [Cancel 2, Join 1, Join 2, Say ''Main thread done.''] a)"
  define c where "c = (continue_with 0 [Join 1, Join 2, Say ''Main thread done.''] b)\<lparr>pending := (\<lambda>_. False)(2 := True)\<rparr>"
  define d where "d = continue_with 2 [] c"
  define e where "e = continue_with 0 [Join 2, Say ''Main thread done.''] d"
  define f where "f = continue_with 0 [Say ''Main thread done.''] e"
  define g where "g = say 0 ''Main thread done.'' (continue_with 0 [] f)"
  have "tstep s a" using assms by (intro main_step [of _ Nap]) (simp_all add: a_def cancel_rest_def)
  moreover have "tstep a b" by (intro main_step [of _ "Say ?l"]) (simp_all add: a_def b_def)
  moreover have "tstep b c" using assms(2) by (intro main_step [of _ "Cancel 2"]) (simp_all add: a_def b_def c_def)
  moreover have "tsteps c d"
  proof (cases q2)
    case Nil
    then have "stmts c 2 = []" using assms(1) by (simp add: c_def b_def a_def)
    then have "d = c" unfolding d_def by (rule continue_same)
    then show ?thesis by simp
  next
    case (Cons x q)
    have "stmts c 2 = x # q" "stmts c 0 \<noteq> []" "pending c 2" using assms(1) Cons by (simp_all add: c_def b_def a_def)
    moreover have "cancel_point x" using assms(3) Cons by (cases x) simp_all
    ultimately have "tstep c d" unfolding d_def by (intro is_cancelled) simp_all
    then show ?thesis by simp
  qed
  moreover have cd: "stmts d = (\<lambda>_. [])(0 := [Join 1, Join 2, Say ''Main thread done.''])"
    using assms(1) by (simp add: d_def c_def b_def a_def fun_eq_iff)
  then have "tstep d e" by (intro main_step [of _ "Join 1"]) (simp_all add: e_def)
  moreover have "tstep e f" using cd by (intro main_step [of _ "Join 2"]) (simp_all add: e_def f_def)
  moreover have "tstep f g" by (intro main_step [of _ "Say ''Main thread done.''" "[]"]) (simp_all add: f_def g_def)
  ultimately have "tsteps s g" by (meson converse_rtranclp_into_rtranclp rtranclp_trans rtranclp.rtrancl_refl)
  moreover have "said u g = said u s" if "u \<noteq> 0" for u using that by (simp add: g_def f_def e_def d_def c_def b_def a_def)
  ultimately show ?thesis by (intro exI [of _ g]) (simp add: g_def)
qed

text \<open>C37: What the cancelled thread prints: when \<open>main\<close> returns, thread X has printed
  all its lines, and thread Y any prefix of its own, the empty and the full one included; there
  are no other outputs.\<close>

theorem cancel_outputs:
  "(\<exists>s. tsteps (start (cancel_main t1 t2) 0) s \<and> stmts s 0 = [] \<and> said 1 s = xs \<and> said 2 s = ys)
   \<longleftrightarrow> xs = says (do_work t1 ''X'') \<and> prefix ys (says (do_work t2 ''Y''))"
proof
  assume "\<exists>s. tsteps (start (cancel_main t1 t2) 0) s \<and> stmts s 0 = [] \<and> said 1 s = xs \<and> said 2 s = ys"
  then obtain s where s: "tsteps (start (cancel_main t1 t2) 0) s" "stmts s 0 = []" "said 1 s = xs" "said 2 s = ys" by blast
  note i = returned [OF good_cancel s(1,2)]
  have t: "thread_inv (do_work t1 ''X'') s 1" "thread_inv (do_work t2 ''Y'') s 2"
    using i unfolding main_inv_def by (auto simp: two_def cancel_main_def dest: spec [of _ 1] spec [of _ 2])
  have "\<not> pending s 1" "stmts s 1 = []" using i unfolding main_inv_def by (auto simp: cancel_main_def)
  then have "xs = says (do_work t1 ''X'')" using t(1) s(3) by (auto simp: thread_inv_def)
  then show "xs = says (do_work t1 ''X'') \<and> prefix ys (says (do_work t2 ''Y''))" using said_prefix [OF t(2)] s(4) by simp
next
  assume a: "xs = says (do_work t1 ''X'') \<and> prefix ys (says (do_work t2 ''Y''))"
  then obtain q1 q2 where q: "do_work t2 ''Y'' = q1 @ q2" "says q1 = ys" using says_prefix by metis
  have pl: "\<forall>c \<in> set q1. plain c" "\<forall>c \<in> set q2. plain c"
    using plain_do_work [of t2 "''Y''"] by (simp_all add: q(1))
  obtain s where s: "tsteps (start (cancel_main t1 t2) 0) s" "stmts s = ((\<lambda>_. [])(0 := cancel_rest t2))(1 := [], 2 := q2)"
    "pending s = (\<lambda>_. False)" "said 1 s = xs" "said 2 s = ys"
    using start_two [where m = 0, OF cancel_main_rest [of t1 t2] _ append_Nil2 [symmetric] q(1) plain_do_work pl(1)] a q(2)
    by (metis cancel_rest_def list.distinct(1))
  have "stmts s = (\<lambda>_. [])(0 := cancel_rest t2, 2 := q2)" using s(2) by (simp add: fun_eq_iff)
  then obtain s' where "tsteps s s'" "stmts s' 0 = []" "said 1 s' = xs" "said 2 s' = ys"
    using cancel_last [OF _ s(3) pl(2), of t2] s(4,5) by auto
  then show "\<exists>s. tsteps (start (cancel_main t1 t2) 0) s \<and> stmts s 0 = [] \<and> said 1 s = xs \<and> said 2 s = ys"
    using rtranclp_trans [of tstep _ s s'] s(1) by (intro exI [of _ s']) simp
qed

theorem cancel_outputs_witness:
  "\<exists>s. tsteps (start (cancel_main 7 8) 0) s \<and> stmts s 0 = [] \<and> said 1 s = says (do_work 7 ''X'') \<and> said 2 s = []"
  by (subst cancel_outputs) simp

text \<open>Every run of the program ends, and a join of the cancelled thread does not block it.\<close>

lemma cancel_ends:
  assumes "(tstep ^^ k) (start (cancel_main t1 t2) 0) s"
  shows "k \<le> 52 \<and> (stmts s 0 \<noteq> [] \<longrightarrow> (\<exists>s'. tstep s s'))"
proof -
  let ?P = "two (do_work t1 ''X'') (do_work t2 ''Y'')"
  obtain n where n: "main_inv (cancel_main t1 t2) ?P n s"
    "todo (cancel_main t1 t2) ?P n s + k \<le> todo (cancel_main t1 t2) ?P 0 (start (cancel_main t1 t2) 0)"
    using main_inv_steps [OF good_cancel assms] by blast
  have "starts (cancel_main t1 t2) ?P = {1, 2}" by (auto simp: starts_def cancel_main_def two_def)
  then have "todo (cancel_main t1 t2) ?P 0 (start (cancel_main t1 t2) 0) = 52"
    unfolding todo_def by (simp add: starts_def two_def) (simp add: cancel_main_def do_work_def Let_def numeral_eq_Suc)
  then show ?thesis using n(2) good_main_progress [OF good_cancel n(1)] by auto
qed

end
