(* ===== verification/Week7_Shared.thy ===== *)
theory Week7_Shared
  imports Week7_Threads C_Strings
begin

text \<open>
  \<open>week7/thread_shared.c\<close>: a thread fills a global array while another one prints it, without
  synchronization. The result says exactly which outputs are possible when the accesses to single elements
  are interleaved (the standard leaves the program undefined because of the data race).
\<close>

section \<open>The program\<close>

definition ARR_SIZE :: nat where "ARR_SIZE = 10"

text \<open>\<open>rnd k\<close> is the result of call \<open>k\<close> of \<open>rand()\<close>; \<open>tid\<close> is the value of \<open>pthread_self\<close>.\<close>

definition writer_thread :: "(nat \<Rightarrow> int) \<Rightarrow> nat \<Rightarrow> stmt list" where
  "writer_thread rnd tid =
     concat (map (\<lambda>round. map (\<lambda>i. Store i (rnd (ARR_SIZE * round + i) smod 100)) [0..<ARR_SIZE]
       @ [Say (''[Writer '' @ dec_nat tid @ ''] Wrote data.'' @ [NEWLINE]), Nap]) [0..<5])"

definition reader_thread :: "nat \<Rightarrow> stmt list" where
  "reader_thread tid =
     concat (replicate 5 ([Say (''[Reader '' @ dec_nat tid @ ''] Reading data: '')] @ map Show [0..<ARR_SIZE] @ [Say [NEWLINE], Nap]))"

definition shared_main :: "stmt list \<Rightarrow> stmt list \<Rightarrow> stmt list" where
  "shared_main W R = [Start 1 W, Start 2 R, Join 1, Join 2, Say (''Main thread done.'' @ [NEWLINE])]"

section \<open>What the array holds and what is read\<close>

fun stores :: "stmt list \<Rightarrow> int list \<Rightarrow> int list" where
  "stores [] a = a"
| "stores (Store i v # p) a = stores p (a[i := v])"
| "stores (c # p) a = stores p a"

text \<open>The array after the first \<open>m\<close> statements of the writer.\<close>

definition array_after :: "stmt list \<Rightarrow> nat \<Rightarrow> int list" where
  "array_after W m = stores (take m W) (replicate ARR_SIZE 0)"

fun count_shows :: "stmt list \<Rightarrow> nat" where
  "count_shows [] = 0"
| "count_shows (Show i # p) = Suc (count_shows p)"
| "count_shows (c # p) = count_shows p"

text \<open>The output of the reader when its accesses come after the given numbers of statements of the writer.\<close>

fun reads :: "(nat \<Rightarrow> int list) \<Rightarrow> stmt list \<Rightarrow> nat list \<Rightarrow> string list" where
  "reads a [] ms = []"
| "reads a (Say l # p) ms = l # reads a p ms"
| "reads a (Show i # p) (m # ms) = (dec_int (a m ! i) @ '' '') # reads a p ms"
| "reads a (c # p) ms = reads a p ms"

lemma reads_append: "length ms = count_shows p \<Longrightarrow> reads a (p @ q) (ms @ ms') = reads a p ms @ reads a q ms'"
  by (induction a p ms rule: reads.induct) auto

lemma count_shows_append: "count_shows (p @ q) = count_shows p + count_shows q"
  by (induction p rule: count_shows.induct) simp_all

lemma stores_append: "stores (p @ q) a = stores q (stores p a)"
  by (induction p a rule: stores.induct) simp_all

lemma length_stores [simp]: "length (stores p a) = length a"
  by (induction p a rule: stores.induct) simp_all

lemma array_after_Suc: "m < length W \<Longrightarrow> array_after W (Suc m) = stores [W ! m] (array_after W m)"
  by (simp add: array_after_def take_Suc_conv_app_nth stores_append)

lemma length_array_after [simp]: "length (array_after W m) = ARR_SIZE"
  by (simp add: array_after_def)

fun writes :: "stmt \<Rightarrow> bool" where
  "writes (Store i v) \<longleftrightarrow> i < ARR_SIZE"
| "writes c \<longleftrightarrow> plain c"

fun shows_or_plain :: "stmt \<Rightarrow> bool" where
  "shows_or_plain (Show i) \<longleftrightarrow> i < ARR_SIZE"
| "shows_or_plain c \<longleftrightarrow> plain c"

lemma writes_writer: "\<forall>c \<in> set (writer_thread rnd t). writes c"
  by (auto simp: writer_thread_def)

lemma shows_reader: "\<forall>c \<in> set (reader_thread t). shows_or_plain c"
  by (auto simp: reader_thread_def)

section \<open>The invariant\<close>

text \<open>\<open>main\<close> has done \<open>n\<close> statements, the writer \<open>a\<close> and the reader \<open>b\<close>.\<close>

definition race_inv :: "stmt list \<Rightarrow> stmt list \<Rightarrow> nat \<Rightarrow> nat \<Rightarrow> nat \<Rightarrow> nat list \<Rightarrow> process \<Rightarrow> bool" where
  "race_inv W R n a b ms s \<longleftrightarrow> n \<le> 5 \<and> a \<le> length W \<and> b \<le> length R
     \<and> stmts s 0 = drop n (shared_main W R) \<and> stmts s 1 = (if n < 1 then [] else drop a W)
     \<and> stmts s 2 = (if n < 2 then [] else drop b R) \<and> (\<forall>u > 2. stmts s u = [])
     \<and> pending s = (\<lambda>_. False) \<and> (n < 1 \<longrightarrow> a = 0) \<and> (n < 2 \<longrightarrow> b = 0) \<and> (2 < n \<longrightarrow> a = length W) \<and> (3 < n \<longrightarrow> b = length R)
     \<and> shared s = array_after W a \<and> said 2 s = reads (array_after W) (take b R) ms
     \<and> length ms = count_shows (take b R) \<and> sorted ms \<and> (\<forall>m \<in> set ms. m \<le> a)"

lemma race_start: "race_inv W R 0 0 0 [] (start (shared_main W R) ARR_SIZE)"
  by (simp add: race_inv_def array_after_def shared_main_def)

lemma race_main:
  assumes "race_inv W R n a b ms s" and "stmts s 0 = c # p" and "effect 0 c (continue_with 0 p s) = Some s'"
  shows "race_inv W R (Suc n) a b ms s'"
proof -
  have d: "drop n (shared_main W R) = c # p" using assms(1,2) by (simp add: race_inv_def)
  then have l: "n < length (shared_main W R)" using not_le by fastforce
  have p: "p = drop (Suc n) (shared_main W R)" using d Cons_nth_drop_Suc [OF l] by simp
  have "n \<in> {0, 1, 2, 3, 4}" using l by (auto simp: shared_main_def)
  then consider "n = 0" | "n = 1" | "n = 2" | "n = 3" | "n = 4" by blast
  then show ?thesis
  proof cases
    case 1
    with d have "c = Start 1 W" by (simp add: shared_main_def)
    with assms(1,3) p 1 show ?thesis by (auto simp: race_inv_def)
  next
    case 2
    with d have "c = Start 2 R" by (simp add: shared_main_def)
    with assms(1,3) p 2 show ?thesis by (auto simp: race_inv_def)
  next
    case 3
    with d have "c = Join 1" by (simp add: shared_main_def)
    with assms(1,3) p 3 show ?thesis by (auto simp: race_inv_def split: if_splits)
  next
    case 4
    with d have "c = Join 2" by (simp add: shared_main_def)
    with assms(1,3) p 4 show ?thesis by (auto simp: race_inv_def split: if_splits)
  next
    case 5
    with d have "c = Say (''Main thread done.'' @ [NEWLINE])" by (simp add: shared_main_def)
    with assms(1,3) p 5 show ?thesis by (auto simp: race_inv_def)
  qed
qed

lemma race_writer:
  assumes i: "race_inv W R n a b ms s" and "\<forall>c \<in> set W. writes c"
    and c: "stmts s 1 = c # p" and e: "effect 1 c (continue_with 1 p s) = Some s'"
  shows "race_inv W R n (Suc a) b ms s'"
proof -
  have n: "\<not> n < 1" and d: "drop a W = c # p" using i c by (auto simp: race_inv_def split: if_splits)
  have a: "a < length W" using d not_le by fastforce
  have cp: "c = W ! a" "p = drop (Suc a) W" using d Cons_nth_drop_Suc [OF a] by simp_all
  have w: "writes c" using assms(2) a cp(1) by simp
  have s': "stmts s' = (stmts s)(1 := p)" "pending s' = pending s" "shared s' = stores [c] (shared s)" "said 2 s' = said 2 s"
    using e w by (cases c; auto split: if_splits)+
  have sh: "shared s' = array_after W (Suc a)" using s'(3) i array_after_Suc [OF a] cp(1) by (simp add: race_inv_def)
  have "n \<le> 2" using i a by (auto simp: race_inv_def)
  then show ?thesis using i n a s'(1,2,4) sh cp(2) unfolding race_inv_def by auto
qed

lemma race_reader:
  assumes i: "race_inv W R n a b ms s" and "\<forall>c \<in> set R. shows_or_plain c"
    and c: "stmts s 2 = c # p" and e: "effect 2 c (continue_with 2 p s) = Some s'"
  shows "\<exists>ms'. race_inv W R n a (Suc b) ms' s'"
proof -
  have n: "\<not> n < 2" and d: "drop b R = c # p" using i c by (auto simp: race_inv_def split: if_splits)
  have b: "b < length R" using d not_le by fastforce
  have cp: "c = R ! b" "p = drop (Suc b) R" using d Cons_nth_drop_Suc [OF b] by simp_all
  have w: "shows_or_plain c" using assms(2) b cp(1) by simp
  have tk: "take (Suc b) R = take b R @ [c]" using b cp(1) by (simp add: take_Suc_conv_app_nth)
  define ms' where "ms' = (case c of Show i \<Rightarrow> [a] | _ \<Rightarrow> [])"
  have len: "length ms = count_shows (take b R)" using i by (simp add: race_inv_def)
  have s': "stmts s' = (stmts s)(2 := p)" "pending s' = pending s" "shared s' = shared s"
    "said 2 s' = said 2 s @ reads (array_after W) [c] ms'"
    using e w i by (cases c; auto simp: ms'_def race_inv_def split: if_splits)+
  have "said 2 s' = reads (array_after W) (take (Suc b) R) (ms @ ms')"
    using s'(4) i reads_append [OF len] by (simp add: race_inv_def tk)
  moreover have "length (ms @ ms') = count_shows (take (Suc b) R)"
    using len by (cases c) (simp_all add: tk count_shows_append ms'_def)
  moreover have "sorted (ms @ ms')" "\<forall>m \<in> set (ms @ ms'). m \<le> a"
    using i by (cases c; auto simp: race_inv_def ms'_def sorted_append)+
  moreover have "n \<le> 3" using i b by (auto simp: race_inv_def)
  ultimately have "race_inv W R n a (Suc b) (ms @ ms') s'"
    using i n b s'(1-3) cp(2) unfolding race_inv_def by auto
  then show ?thesis by blast
qed

lemma race_step:
  assumes i: "race_inv W R n a b ms s" and W: "\<forall>c \<in> set W. writes c" and R: "\<forall>c \<in> set R. shows_or_plain c" and "tstep s s'"
  shows "\<exists>n a b ms. race_inv W R n a b ms s'"
  using assms(4)
proof cases
  case (goes_on t c p)
  have "\<forall>u > 2. stmts s u = []" using i by (simp add: race_inv_def)
  then have "\<not> 2 < t" using goes_on(2) by auto
  then consider "t = 0" | "t = 1" | "t = 2" by linarith
  then show ?thesis
    by cases (use race_main [OF i] race_writer [OF i W] race_reader [OF i R] goes_on(2,3) in blast)+
next
  case (is_cancelled t c p)
  then show ?thesis using i by (simp add: race_inv_def)
qed

lemma race_reachable:
  assumes "tsteps (start (shared_main W R) ARR_SIZE) s" and W: "\<forall>c \<in> set W. writes c" and R: "\<forall>c \<in> set R. shows_or_plain c"
  shows "\<exists>n a b ms. race_inv W R n a b ms s"
  using assms(1)
proof (induction rule: rtranclp_induct)
  case base
  show ?case using race_start by blast
next
  case (step s s')
  then show ?case using race_step [OF _ W R] by blast
qed

section \<open>Every order is possible\<close>

lemma run_writer:
  assumes "\<forall>c \<in> set p. writes c"
  shows "stmts s 0 \<noteq> [] \<Longrightarrow> \<not> pending s 1 \<Longrightarrow> stmts s 1 = p @ q \<Longrightarrow> length (shared s) = ARR_SIZE \<Longrightarrow>
    \<exists>s'. tsteps s s' \<and> stmts s' = (stmts s)(1 := q) \<and> pending s' = pending s \<and> shared s' = stores p (shared s)
      \<and> said 2 s' = said 2 s"
  using assms
proof (induction p arbitrary: s)
  case Nil
  then show ?case by (intro exI [of _ s]) auto
next
  case (Cons c p)
  let ?s = "continue_with 1 (p @ q) s"
  obtain s1 where s1: "effect 1 c ?s = Some s1" "stmts s1 = (stmts s)(1 := p @ q)" "pending s1 = pending s"
    "shared s1 = stores [c] (shared s)" "said 2 s1 = said 2 s"
    using Cons.prems by (cases c) auto
  have st: "tstep s s1" by (rule goes_on [OF Cons.prems(1) _ s1(1)]) (use Cons.prems in simp)
  have nz: "stmts s1 0 \<noteq> []" "\<not> pending s1 1" "stmts s1 1 = p @ q" "length (shared s1) = ARR_SIZE" "\<forall>c \<in> set p. writes c"
    using s1 Cons.prems by simp_all
  obtain s' where "tsteps s1 s'" "stmts s' = (stmts s1)(1 := q)" "pending s' = pending s1" "shared s' = stores p (shared s1)"
    "said 2 s' = said 2 s1"
    using Cons.IH [OF nz] by blast
  moreover have "stores (c # p) (shared s) = stores p (shared s1)" using s1(4) stores_append [of "[c]" p] by simp
  ultimately show ?case using s1(2,3,5) st by (intro exI [of _ s']) (auto intro: converse_rtranclp_into_rtranclp)
qed

text \<open>The writer goes on until \<open>m\<close> statements are done.\<close>

lemma advance_writer:
  assumes "\<forall>c \<in> set W. writes c" and "stmts s 0 \<noteq> []" and "\<not> pending s 1" and "stmts s 1 = drop a W"
    and "shared s = array_after W a" and "a \<le> m" and "m \<le> length W"
  shows "\<exists>s'. tsteps s s' \<and> stmts s' = (stmts s)(1 := drop m W) \<and> pending s' = pending s \<and> shared s' = array_after W m
      \<and> said 2 s' = said 2 s"
proof -
  have d: "drop a W = take (m - a) (drop a W) @ drop m W"
    using append_take_drop_id [of "m - a" "drop a W"] assms(6) by simp
  have w: "\<forall>c \<in> set (take (m - a) (drop a W)). writes c" using assms(1) by (auto dest: in_set_takeD in_set_dropD)
  have "take m W = take a W @ take (m - a) (drop a W)" using assms(6) by (metis le_add_diff_inverse take_add)
  then have "array_after W m = stores (take (m - a) (drop a W)) (array_after W a)" by (simp add: array_after_def stores_append)
  with run_writer [OF w assms(2,3), of "drop m W"] assms(4,5) d show ?thesis by auto
qed

lemma run_reader:
  assumes W: "\<forall>c \<in> set W. writes c" and "\<forall>c \<in> set q. shows_or_plain c"
  shows "stmts s 0 \<noteq> [] \<Longrightarrow> pending s = (\<lambda>_. False) \<Longrightarrow> stmts s 1 = drop a W \<Longrightarrow> stmts s 2 = q \<Longrightarrow> shared s = array_after W a \<Longrightarrow>
    a \<le> length W \<Longrightarrow> length ms = count_shows q \<Longrightarrow> sorted ms \<Longrightarrow> \<forall>m \<in> set ms. a \<le> m \<and> m \<le> length W \<Longrightarrow>
    \<exists>s' a'. tsteps s s' \<and> stmts s' = (stmts s)(1 := drop a' W, 2 := []) \<and> a' \<le> length W \<and> pending s' = (\<lambda>_. False)
      \<and> shared s' = array_after W a' \<and> said 2 s' = said 2 s @ reads (array_after W) q ms"
  using assms(2)
proof (induction q arbitrary: s a ms)
  case Nil
  then show ?case by (intro exI [of _ s] exI [of _ a]) (auto simp: fun_eq_iff)
next
  case (Cons c q)
  show ?case
  proof (cases "\<exists>i. c = Show i")
    case False
    let ?s = "continue_with 2 q s"
    have k: "count_shows (c # q) = count_shows q" "reads (array_after W) (c # q) ms = reads (array_after W) [c] [] @ reads (array_after W) q ms"
      using False Cons.prems(10) by (cases c; simp)+
    obtain s1 where s1: "effect 2 c ?s = Some s1" "stmts s1 = (stmts s)(2 := q)" "pending s1 = pending s"
      "shared s1 = shared s" "said 2 s1 = said 2 s @ reads (array_after W) [c] []"
      using Cons.prems(2,10) False by (cases c) auto
    have st: "tstep s s1" by (rule goes_on [OF Cons.prems(1,4) s1(1)])
    have nz: "stmts s1 0 \<noteq> []" "pending s1 = (\<lambda>_. False)" "stmts s1 1 = drop a W" "stmts s1 2 = q" "shared s1 = array_after W a"
      "a \<le> length W" "length ms = count_shows q" "sorted ms" "\<forall>m \<in> set ms. a \<le> m \<and> m \<le> length W" "\<forall>c \<in> set q. shows_or_plain c"
      using Cons.prems s1 k(1) by simp_all
    obtain s' a' where "tsteps s1 s'" "stmts s' = (stmts s1)(1 := drop a' W, 2 := [])" "a' \<le> length W" "pending s' = (\<lambda>_. False)"
      "shared s' = array_after W a'" "said 2 s' = said 2 s1 @ reads (array_after W) q ms"
      using Cons.IH [OF nz] by blast
    with s1 st k(2) show ?thesis
      by (intro exI [of _ s'] exI [of _ a']) (auto simp: fun_eq_iff intro: converse_rtranclp_into_rtranclp)
  next
    case True
    then obtain i where c: "c = Show i" by blast
    then obtain m ms' where ms: "ms = m # ms'" using Cons.prems(7) by (cases ms) auto
    have m: "a \<le> m" "m \<le> length W" "length ms' = count_shows q" "sorted ms'" "\<forall>x \<in> set ms'. m \<le> x \<and> x \<le> length W"
      using Cons.prems(7-9) c ms by auto
    obtain s1 where s1: "tsteps s s1" "stmts s1 = (stmts s)(1 := drop m W)" "pending s1 = pending s" "shared s1 = array_after W m"
      "said 2 s1 = said 2 s"
      using advance_writer [OF W Cons.prems(1) _ Cons.prems(3,5) m(1,2)] Cons.prems(2) by auto
    let ?l = "dec_int (array_after W m ! i) @ '' ''"
    let ?s2 = "say 2 ?l (continue_with 2 q s1)"
    have i: "i < ARR_SIZE" using Cons.prems(10) c by simp
    have z: "stmts s1 0 \<noteq> []" "stmts s1 2 = Show i # q" using s1(2) Cons.prems(1,4) c by simp_all
    have "tstep s1 ?s2" by (rule goes_on [OF z]) (use s1(4) i in simp)
    then have st: "tsteps s ?s2" using s1(1) by simp
    have nz: "stmts ?s2 0 \<noteq> []" "pending ?s2 = (\<lambda>_. False)" "stmts ?s2 1 = drop m W" "stmts ?s2 2 = q" "shared ?s2 = array_after W m"
      using Cons.prems(1,2) s1 by simp_all
    have pl: "\<forall>c \<in> set q. shows_or_plain c" using Cons.prems(10) by simp
    obtain s' a' where "tsteps ?s2 s'" "stmts s' = (stmts ?s2)(1 := drop a' W, 2 := [])" "a' \<le> length W" "pending s' = (\<lambda>_. False)"
      "shared s' = array_after W a'" "said 2 s' = said 2 ?s2 @ reads (array_after W) q ms'"
      using Cons.IH [OF nz m(2-5) pl] by blast
    with s1 st ms c show ?thesis
      by (intro exI [of _ s'] exI [of _ a']) (auto simp: fun_eq_iff intro: rtranclp_trans)
  qed
qed

text \<open>One half of the result: what \<open>main\<close> leaves is an interleaving of this kind.\<close>

lemma outputs_are_reads:
  assumes W: "\<forall>c \<in> set W. writes c" and R: "\<forall>c \<in> set R. shows_or_plain c"
    and "tsteps (start (shared_main W R) ARR_SIZE) s" and "stmts s 0 = []"
  shows "\<exists>ms. length ms = count_shows R \<and> sorted ms \<and> (\<forall>m \<in> set ms. m \<le> length W) \<and> said 2 s = reads (array_after W) R ms"
proof -
  obtain n a b ms where i: "race_inv W R n a b ms s" using race_reachable [OF assms(3) W R] by blast
  then have "drop n (shared_main W R) = []" using assms(4) by (simp add: race_inv_def)
  then have "\<not> n < 5" by (auto simp: shared_main_def)
  with i show ?thesis by (intro exI [of _ ms]) (auto simp: race_inv_def)
qed

text \<open>\<open>main\<close> starts both threads.\<close>

lemma shared_started:
  "\<exists>s. tsteps (start (shared_main W R) ARR_SIZE) s \<and> stmts s 0 = drop 2 (shared_main W R) \<and> pending s = (\<lambda>_. False)
     \<and> stmts s 1 = drop 0 W \<and> stmts s 2 = R \<and> shared s = array_after W 0 \<and> said 2 s = []"
proof -
  define s0 where "s0 = start (shared_main W R) ARR_SIZE"
  define s1 where "s1 = continue_with 1 W (continue_with 0 (drop 1 (shared_main W R)) s0)"
  define s2 where "s2 = continue_with 2 R (continue_with 0 (drop 2 (shared_main W R)) s1)"
  have "tstep s0 s1" by (intro main_step [of _ "Start 1 W"]) (simp_all add: s0_def s1_def shared_main_def)
  moreover have "tstep s1 s2" by (intro main_step [of _ "Start 2 R"]) (simp_all add: s1_def s2_def shared_main_def)
  ultimately have "tsteps s0 s2" by (meson rtranclp.rtrancl_into_rtrancl rtranclp.rtrancl_refl)
  then show ?thesis unfolding s0_def
    by (intro exI [of _ s2]) (simp add: s2_def s1_def s0_def array_after_def)
qed

text \<open>When both threads are done, \<open>main\<close> joins them and returns.\<close>

lemma shared_joined:
  assumes "stmts s 0 = drop 2 (shared_main W R)" and "stmts s 1 = []" and "stmts s 2 = []"
  shows "\<exists>s'. tsteps s s' \<and> stmts s' 0 = [] \<and> said 2 s' = said 2 s"
proof -
  let ?E = "Say (''Main thread done.'' @ [NEWLINE])"
  define s5 where "s5 = continue_with 0 [Join 2, ?E] s"
  define s6 where "s6 = continue_with 0 [?E] s5"
  define s7 where "s7 = say 0 (''Main thread done.'' @ [NEWLINE]) (continue_with 0 [] s6)"
  have "tstep s s5" using assms by (intro main_step [of _ "Join 1"]) (simp_all add: s5_def shared_main_def)
  moreover have "tstep s5 s6" using assms by (intro main_step [of _ "Join 2"]) (simp_all add: s5_def s6_def)
  moreover have "tstep s6 s7" by (intro main_step [of _ ?E "[]"]) (simp_all add: s6_def s7_def)
  ultimately have "tsteps s s7" by (meson converse_rtranclp_into_rtranclp rtranclp.rtrancl_refl)
  then show ?thesis by (intro exI [of _ s7]) (simp add: s7_def s6_def s5_def)
qed

lemma reads_are_outputs:
  assumes W: "\<forall>c \<in> set W. writes c" and R: "\<forall>c \<in> set R. shows_or_plain c"
    and ms: "length ms = count_shows R" "sorted ms" "\<forall>m \<in> set ms. 0 \<le> m \<and> m \<le> length W"
  shows "\<exists>s. tsteps (start (shared_main W R) ARR_SIZE) s \<and> stmts s 0 = [] \<and> said 2 s = reads (array_after W) R ms"
proof -
  obtain s2 where s2: "tsteps (start (shared_main W R) ARR_SIZE) s2" "stmts s2 0 = drop 2 (shared_main W R)" "pending s2 = (\<lambda>_. False)"
    "stmts s2 1 = drop 0 W" "stmts s2 2 = R" "shared s2 = array_after W 0" "said 2 s2 = []"
    using shared_started by blast
  have e: "stmts s2 0 \<noteq> []" using s2(2) by (simp add: shared_main_def)
  obtain s3 a' where s3: "tsteps s2 s3" "stmts s3 = (stmts s2)(1 := drop a' W, 2 := [])" "a' \<le> length W" "pending s3 = (\<lambda>_. False)"
    "shared s3 = array_after W a'" "said 2 s3 = said 2 s2 @ reads (array_after W) R ms"
    using run_reader [OF W R e s2(3-6) _ ms] by auto
  obtain s4 where s4: "tsteps s3 s4" "stmts s4 = (stmts s3)(1 := drop (length W) W)" "said 2 s4 = said 2 s3"
    using advance_writer [OF W _ _ _ s3(5,3) order_refl] s3(2,4) e by auto
  have "stmts s4 0 = drop 2 (shared_main W R)" "stmts s4 1 = []" "stmts s4 2 = []" using s4(2) s3(2) s2(2) by simp_all
  then obtain s' where "tsteps s4 s'" "stmts s' 0 = []" "said 2 s' = said 2 s4" using shared_joined by blast
  then show ?thesis using s2(1,7) s3(1,6) s4(1,3) by (intro exI [of _ s']) (auto intro: rtranclp_trans)
qed

text \<open>C36: The outputs of the unsynchronized reader, exactly: each of its fifty reads shows the array
  after some number of statements of the writer, these numbers only grow, and every such choice
  can happen. So a line can show halves of two rounds.\<close>

theorem shared_array_outputs:
  fixes rnd :: "nat \<Rightarrow> int" and t1 t2 :: nat
  defines "W \<equiv> writer_thread rnd t1" and "R \<equiv> reader_thread t2"
  shows "(\<exists>s. tsteps (start (shared_main W R) ARR_SIZE) s \<and> stmts s 0 = [] \<and> said 2 s = ys)
    \<longleftrightarrow> (\<exists>ms. length ms = 50 \<and> sorted ms \<and> (\<forall>m \<in> set ms. m \<le> 60) \<and> ys = reads (array_after W) R ms)"
proof -
  have w: "\<forall>c \<in> set W. writes c" and r: "\<forall>c \<in> set R. shows_or_plain c"
    unfolding W_def R_def by (rule writes_writer, rule shows_reader)
  have "length W = 60" "count_shows R = 50"
    by (simp_all add: W_def R_def writer_thread_def reader_thread_def ARR_SIZE_def numeral_eq_Suc)
  then show ?thesis using outputs_are_reads [OF w r] reads_are_outputs [OF w r] by (metis le0)
qed

text \<open>A line that shows one half of the first round and one half of the second.\<close>

theorem shared_array_outputs_witness:
  "\<exists>s. tsteps (start (shared_main (writer_thread int 1) (reader_thread 2)) ARR_SIZE) s \<and> stmts s 0 = []
    \<and> take 12 (said 2 s) = [''[Reader 2] Reading data: '', ''0 '', ''1 '', ''2 '', ''3 '', ''4 '', ''15 '', ''16 '', ''17 '', ''18 '', ''19 '', [NEWLINE]]"
proof -
  let ?ms = "replicate 5 10 @ replicate 45 (22 :: nat)"
  have ms: "length ?ms = 50" "sorted ?ms" "\<forall>m \<in> set ?ms. m \<le> 60" by (simp_all add: sorted_append)
  have "take 12 (reads (array_after (writer_thread int 1)) (reader_thread 2) ?ms)
      = [''[Reader 2] Reading data: '', ''0 '', ''1 '', ''2 '', ''3 '', ''4 '', ''15 '', ''16 '', ''17 '', ''18 '', ''19 '', [NEWLINE]]"
    by code_simp
  then show ?thesis
    using shared_array_outputs [of int 1 2 "reads (array_after (writer_thread int 1)) (reader_thread 2) ?ms"] ms by metis
qed

end
