(* ===== verification/Rfs_Parallel.thy ===== *)
theory Rfs_Parallel
  imports Rfs_Get
begin

text \<open>
  Many connections at the same time. Sessions whose views survive the steps of the compatible others run
  in parallel as they do alone (locale \<open>parallel_sessions\<close>, an extension of \<open>session\<close>). This is the case
  when the threads look at the server only through a projection of their own, which the others leave as
  it is (locale \<open>local_views\<close>). Downloads are of this kind: what a thread sees is the server with its own
  shared locks only.
\<close>

section \<open>Steps seen by the other connections\<close>

definition idle_client :: "tid \<Rightarrow> network \<Rightarrow> bool" where
  "idle_client u c \<longleftrightarrow> thread c u \<in> {client_thread u, Close} \<and> peer c u \<in> {finish 1, Close}
     \<and> to_srv c u = [] \<and> to_cli c u = []"

lemma srv_step_others:
  assumes "srv_step c u = Some c'" and "t \<noteq> u"
  shows "thread c' t = thread c t \<and> peer c' t = peer c t \<and> machine c' t = machine c t
    \<and> to_srv c' t = to_srv c t \<and> to_cli c' t = to_cli c t"
proof (cases "thread c u")
  case (Recv n k)
  show ?thesis
  proof (cases "to_srv c u = []")
    case True
    with assms Recv show ?thesis by (cases "peer c u") (auto simp: srv_step_def)
  next
    case False
    with assms Recv show ?thesis by (auto simp: srv_step_def)
  qed
qed (use assms in \<open>auto simp: srv_step_def\<close>)

lemma cli_step_others:
  assumes "cli_step c u = Some c'" and "t \<noteq> u"
  shows "thread c' t = thread c t \<and> peer c' t = peer c t \<and> machine c' t = machine c t
    \<and> to_srv c' t = to_srv c t \<and> to_cli c' t = to_cli c t"
proof (cases "peer c u")
  case (Recv n k)
  show ?thesis
  proof (cases "to_cli c u = []")
    case True
    with assms Recv show ?thesis by (cases "thread c u") (auto simp: cli_step_def)
  next
    case False
    with assms Recv show ?thesis by (auto simp: cli_step_def)
  qed
qed (use assms in \<open>auto simp: cli_step_def\<close>)

lemma cli_step_server: "cli_step c u = Some c' \<Longrightarrow> srv c' = srv c"
  by (cases "peer c u"; cases "to_cli c u = []"; cases "thread c u") (auto simp: cli_step_def)

lemma others_view:
  assumes "srv_step c u = Some c' \<or> cli_step c u = Some c'" and "t \<noteq> u"
  shows "view_of t c' = (srv c', snd (view_of t c))" and "idle_client t c' = idle_client t c"
proof -
  have "thread c' t = thread c t \<and> peer c' t = peer c t \<and> machine c' t = machine c t
    \<and> to_srv c' t = to_srv c t \<and> to_cli c' t = to_cli c t"
    using assms srv_step_others cli_step_others by blast
  then show "view_of t c' = (srv c', snd (view_of t c))" and "idle_client t c' = idle_client t c"
    by (simp_all add: view_of_def idle_client_def)
qed

lemma idle_step:
  assumes "idle_client u c" and "srv_step c u = Some c' \<or> cli_step c u = Some c'"
  shows "idle_client u c' \<and> srv c' = srv c"
proof -
  have u: "thread c u \<in> {client_thread u, Close}" "peer c u \<in> {finish 1, Close}" "to_srv c u = []" "to_cli c u = []"
    using assms(1) by (simp_all add: idle_client_def)
  show ?thesis
    using assms(2)
  proof
    assume s: "srv_step c u = Some c'"
    then have th: "thread c u = Recv 1023 (\<lambda>buf. if buf = [] then Close else dispatch u (cstr buf))"
      using u(1) by (auto simp: srv_step_def client_thread_def BUF_SIZE_def)
    have "c' = c\<lparr>thread := (thread c)(u := Close)\<rparr>" using s u(3) by (auto simp: srv_step_def th split: prog.splits)
    with u show ?thesis by (simp add: idle_client_def)
  next
    assume s: "cli_step c u = Some c'"
    then have pe: "peer c u = finish 1" using u(2) by (auto simp: cli_step_def)
    have "c' = c\<lparr>machine := (machine c)(u := (machine c u)\<lparr>status := Some 1\<rparr>), peer := (peer c)(u := Close)\<rparr>"
      using s by (simp add: cli_step_def pe finish_def act_def)
    with u show ?thesis by (simp add: idle_client_def)
  qed
qed

text \<open>The steps of a client do not depend on the server's state.\<close>

lemma cstep_server: "cstep (s', p, q, m, a, b) = map_option (\<lambda>v. (s', snd v)) (cstep (s, p, q, m, a, b))"
  by (auto simp: cstep_def option.map_comp comp_def split_def split: prog.splits)

lemma cstep_own: "cstep (s, w) = Some v' \<Longrightarrow> cstep (f s, w) = Some (f (fst v'), snd v')"
proof -
  assume c: "cstep (s, w) = Some v'"
  obtain p q m a b where w: "w = (p, q, m, a, b)" by (cases w)
  have "map_option (\<lambda>v. (s, snd v)) (cstep (s, w)) = cstep (s, w)" unfolding w by (rule cstep_server [symmetric])
  with c have "fst v' = s" by (cases v') simp
  moreover have "cstep (f s, w) = map_option (\<lambda>v. (f s, snd v)) (cstep (s, w))" unfolding w by (rule cstep_server)
  ultimately show "cstep (f s, w) = Some (f (fst v'), snd v')" using c by simp
qed

lemma cstep_keeps: "cstep (s, w) = Some (s', w') \<Longrightarrow> s' = s"
  using cstep_own [of s w "(s', w')" "\<lambda>_. s"] by simp

lemma cstep_none: "cstep (s', w) \<noteq> None \<Longrightarrow> cstep (s, w) \<noteq> None"
  using cstep_server [of s'] by (cases w) (metis option.map_disc_iff)

section \<open>Parallel sessions\<close>

text \<open>The law on top of those of a session: a step of one connection leaves every view of a compatible
  other one as it is (the rely of the one, the guarantee of the other).\<close>

locale parallel_sessions = session views for views :: "job \<Rightarrow> nat \<Rightarrow> view \<Rightarrow> bool" +
  fixes compatible :: "job \<Rightarrow> job \<Rightarrow> bool"
  assumes undisturbed: "compatible j j' \<Longrightarrow> views j n (s, w) \<Longrightarrow> views j' k (s, w') \<Longrightarrow>
      sstep (s, w) = Some (s', w'') \<Longrightarrow> views j' k (s', w')"
begin

definition running :: "tid set \<Rightarrow> (tid \<Rightarrow> job) \<Rightarrow> network \<Rightarrow> bool" where
  "running T j c \<longleftrightarrow> (\<forall>t \<in> T. job_tid (j t) = t \<and> (\<exists>n. views (j t) n (view_of t c)))
     \<and> (\<forall>t \<in> T. \<forall>u \<in> T. t \<noteq> u \<longrightarrow> compatible (j t) (j u)) \<and> (\<forall>t. t \<notin> T \<longrightarrow> idle_client t c)"

lemma view_split: "view_of t c = (srv c, snd (view_of t c))"
  by (simp add: view_of_def)

lemma view_step:
  "srv_step c t = Some c' \<or> cli_step c t = Some c' \<Longrightarrow>
    sstep (view_of t c) = Some (view_of t c') \<or> cstep (view_of t c) = Some (view_of t c')"
  using view_srv_step [of t c] view_cli_step [of t c] by auto

text \<open>What a step of \<open>u\<close> does to the views of another connection.\<close>

lemma other_kept:
  assumes "running T j c" and "srv_step c u = Some c' \<or> cli_step c u = Some c'" and "t \<in> T" and "t \<noteq> u"
    and "views (j t) n (view_of t c)"
  shows "views (j t) n (view_of t c')"
proof -
  have v: "view_of t c' = (srv c', snd (view_of t c))" by (rule others_view(1) [OF assms(2,4)])
  show ?thesis
  proof (cases "u \<in> T \<and> srv_step c u = Some c'")
    case True
    then obtain k where k: "views (j u) k (srv c, snd (view_of u c))" and ut: "compatible (j u) (j t)"
      using assms(1,3,4) by (auto simp: running_def simp flip: view_split)
    have st: "sstep (srv c, snd (view_of u c)) = Some (srv c', snd (view_of u c'))"
      using True view_srv_step [of u c] by (simp flip: view_split)
    have "views (j t) n (srv c, snd (view_of t c))" using assms(5) by (simp flip: view_split)
    then have "views (j t) n (srv c', snd (view_of t c))" by (rule undisturbed [OF ut k _ st])
    with v show ?thesis by simp
  next
    case False
    have "srv c' = srv c"
    proof (cases "u \<in> T")
      case True
      with False assms(2) show ?thesis using cli_step_server by blast
    next
      case False
      with assms(1) have "idle_client u c" by (simp add: running_def)
      with idle_step [OF _ assms(2)] show ?thesis by simp
    qed
    with v assms(5) show ?thesis by (simp flip: view_split)
  qed
qed

lemma running_step:
  assumes "running T j c" and "step c c'"
  shows "running T j c' \<and> (\<forall>t \<in> T. \<forall>n. views (j t) n (view_of t c) \<longrightarrow> (\<exists>k \<le> n. views (j t) k (view_of t c')))"
proof -
  obtain u where u: "srv_step c u = Some c' \<or> cli_step c u = Some c'" using assms(2) by (auto elim: stepE)
  have down: "\<exists>k \<le> n. views (j t) k (view_of t c')" if "t \<in> T" "views (j t) n (view_of t c)" for t n
  proof (cases "t = u")
    case True
    with view_step [OF u] that(2) obtain k where "k < n" "views (j t) k (view_of t c')"
      using server_view client_view by blast
    then show ?thesis by (intro exI [of _ k]) simp
  next
    case False
    with other_kept [OF assms(1) u that(1) _ that(2)] show ?thesis by blast
  qed
  moreover have "idle_client t c'" if "t \<notin> T" for t
  proof -
    have i: "idle_client t c" using assms(1) that by (simp add: running_def)
    with idle_step [of t c c'] u others_view(2) [OF u, of t] show ?thesis by (cases "t = u") simp_all
  qed
  ultimately show ?thesis using assms(1) unfolding running_def by meson
qed

lemma running_reachable: "reachable c0 c \<Longrightarrow> running T j c0 \<Longrightarrow> running T j c"
  by (induction rule: reachable.induct) (auto dest: running_step)

lemma rank_kept: "reachable c c' \<Longrightarrow> running T j c \<Longrightarrow> t \<in> T \<Longrightarrow> views (j t) 0 (view_of t c) \<Longrightarrow> views (j t) 0 (view_of t c')"
proof (induction rule: reachable.induct)
  case (step c1 c2)
  then have "running T j c1" "views (j t) 0 (view_of t c1)" using running_reachable by blast+
  with running_step [OF _ step.hyps(2)] step.prems(2) show ?case by fastforce
qed

lemma ended_running:
  assumes "running T j c" and "t \<in> T"
  shows "ended t c \<longleftrightarrow> views (j t) 0 (view_of t c)"
proof
  obtain n where t: "job_tid (j t) = t" and n: "views (j t) n (view_of t c)" using assms by (auto simp: running_def)
  show "ended t c" if "views (j t) 0 (view_of t c)" using rank_ended [of "j t" c] that t by simp
  show "views (j t) 0 (view_of t c)" if "ended t c"
    using that n progress [of "j t"] unfolding ended_view by (cases n) blast+
qed

text \<open>What the steps of the connections keep of the server holds all the time.\<close>

lemma server_kept:
  assumes "reachable c0 c" and "running T j c0" and "P (srv c0)"
    and kept: "\<And>t n s w s' w'. t \<in> T \<Longrightarrow> views (j t) n (s, w) \<Longrightarrow> sstep (s, w) = Some (s', w') \<Longrightarrow> P s \<Longrightarrow> P s'"
  shows "P (srv c)"
  using assms(1-3)
proof (induction rule: reachable.induct)
  case (step c1 c2)
  then have r: "running T j c1" "P (srv c1)" using running_reachable by blast+
  obtain u where u: "srv_step c1 u = Some c2 \<or> cli_step c1 u = Some c2" using step.hyps(2) by (auto elim: stepE)
  show ?case
  proof (cases "u \<in> T \<and> srv_step c1 u = Some c2")
    case True
    with r(1) obtain n where "views (j u) n (srv c1, snd (view_of u c1))"
      by (auto simp: running_def simp flip: view_split)
    moreover have "sstep (srv c1, snd (view_of u c1)) = Some (srv c2, snd (view_of u c2))"
      using True view_srv_step [of u c1] by (simp flip: view_split)
    ultimately show ?thesis using kept True r(2) by blast
  next
    case False
    then have "srv c2 = srv c1"
      using u cli_step_server idle_step [of u c1 c2] r(1) by (cases "u \<in> T") (auto simp: running_def)
    with r(2) show ?thesis by simp
  qed
qed

text \<open>Each connection can come to rest, whatever the others do, and so can any number of them.\<close>

lemma can_end_running:
  assumes "running T j c" and "t \<in> T"
  shows "\<exists>c'. reachable c c' \<and> ended t c'"
proof -
  obtain n where "views (j t) n (view_of t c)" using assms by (auto simp: running_def)
  then show ?thesis using assms(1)
  proof (induction n arbitrary: c rule: less_induct)
    case (less n)
    show ?case
    proof (cases "ended t c")
      case True
      then show ?thesis using reachable.refl by blast
    next
      case False
      obtain c1 where c1: "srv_step c t = Some c1 \<or> cli_step c t = Some c1" using False by (auto simp: ended_def)
      then have st: "step c c1" by (auto intro: step.intros)
      obtain k where k: "k < n" "views (j t) k (view_of t c1)"
        using view_step [OF c1] server_view [OF less.prems(1)] client_view [OF less.prems(1)] by blast
      have "running T j c1" using running_step [OF less.prems(2) st] by blast
      with less.IH [OF k] obtain c2 where "reachable c1 c2" "ended t c2" by blast
      moreover have "reachable c c1" using st by (auto intro: reachable.intros)
      ultimately show ?thesis using net_trans by blast
    qed
  qed
qed

lemma all_can_end:
  assumes "running T j c" and "finite F" and "F \<subseteq> T"
  shows "\<exists>c'. reachable c c' \<and> (\<forall>t \<in> F. ended t c')"
  using assms(2,3)
proof (induction rule: finite_induct)
  case empty
  then show ?case using reachable.refl by blast
next
  case (insert t F)
  then obtain c1 where c1: "reachable c c1" "\<forall>t \<in> F. ended t c1" by blast
  have r1: "running T j c1" by (rule running_reachable [OF c1(1) assms(1)])
  obtain c2 where c2: "reachable c1 c2" "ended t c2" using can_end_running [OF r1] insert.prems by blast
  have r2: "running T j c2" by (rule running_reachable [OF c2(1) r1])
  have "ended u c2" if "u \<in> F" for u
  proof -
    have "u \<in> T" using that insert.prems by blast
    with c1(2) that ended_running [OF r1] have "views (j u) 0 (view_of u c1)" by blast
    from rank_kept [OF c2(1) r1 \<open>u \<in> T\<close> this] show ?thesis using ended_running [OF r2 \<open>u \<in> T\<close>] by blast
  qed
  with c1(1) c2 show ?case using net_trans by blast
qed

end

section \<open>Views of a part of the server\<close>

text \<open>A kind of session whose threads look at the server only through a projection of their own.\<close>

locale local_views = session views for views :: "job \<Rightarrow> nat \<Rightarrow> view \<Rightarrow> bool" +
  fixes own :: "tid \<Rightarrow> server \<Rightarrow> server"
  assumes local_step: "views j n (own (job_tid j) s, w) \<Longrightarrow> sstep (s, w) = Some (s', w') \<Longrightarrow>
      sstep (own (job_tid j) s, w) = Some (own (job_tid j) s', w')"
    and others_kept: "views j n (own (job_tid j) s, w) \<Longrightarrow> sstep (s, w) = Some (s', w') \<Longrightarrow> u \<noteq> job_tid j \<Longrightarrow>
      own u s' = own u s"
    and enabled: "views j n (own (job_tid j) s, w) \<Longrightarrow> sstep (own (job_tid j) s, w) \<noteq> None \<Longrightarrow> sstep (s, w) \<noteq> None"

sublocale local_views < part: parallel_sessions "\<lambda>j n v. views j n (own (job_tid j) (fst v), snd v)" "\<lambda>j j'. job_tid j \<noteq> job_tid j'"
proof
  fix j n v v'
  assume v: "views j n (own (job_tid j) (fst v), snd v)"
  show "\<exists>k<n. views j k (own (job_tid j) (fst v'), snd v')" if "sstep v = Some v'"
    using local_step [OF v, of "fst v'" "snd v'"] server_view [OF v] that by simp
  show "\<exists>k<n. views j k (own (job_tid j) (fst v'), snd v')" if "cstep v = Some v'"
    using cstep_own [of "fst v" "snd v" v' "own (job_tid j)"] client_view [OF v] that by simp
next
  fix j n v
  assume v: "views j (Suc n) (own (job_tid j) (fst v), snd v)"
  show "sstep v \<noteq> None \<or> cstep v \<noteq> None"
    using progress [OF v] enabled [OF v] cstep_none [of "own (job_tid j) (fst v)" "snd v" "fst v"] by auto
next
  fix j j' n s w k w' s' w''
  assume "job_tid j \<noteq> job_tid j'" and v: "views j n (own (job_tid j) (fst (s, w)), snd (s, w))"
    and "views j' k (own (job_tid j') (fst (s, w')), snd (s, w'))" and s: "sstep (s, w) = Some (s', w'')"
  then show "views j' k (own (job_tid j') (fst (s', w')), snd (s', w'))"
    using others_kept [OF _ s, of j n "job_tid j'"] by simp
qed

section \<open>Downloads in parallel\<close>

text \<open>What a thread sees: the server with its own shared locks only.\<close>

definition own_locks :: "tid \<Rightarrow> server \<Rightarrow> server" where
  "own_locks t s = s\<lparr>readers := (\<lambda>i. readers s i \<inter> {t})\<rparr>"

lemma own_locks_simps [simp]:
  "open_read (own_locks t s) f = open_read s f" "flock_works (own_locks t s) = flock_works s"
  "read_start i (own_locks t s) = read_start i s" "writer (own_locks t s) = writer s"
  by (simp_all add: own_locks_def open_read_def read_start_def)

lemma own_locks_lock_sh:
  "lock_sh t i (own_locks t s) = map_option (own_locks t) (lock_sh t i s)"
  "lock_sh t i s = Some s' \<Longrightarrow> u \<noteq> t \<Longrightarrow> own_locks u s' = own_locks u s"
  by (auto simp: lock_sh_def own_locks_def fun_eq_iff split: if_splits)

lemma own_locks_unlock:
  "unlock t i (own_locks t s) = own_locks t (unlock t i s)"
  "writer s i \<noteq> Some t \<Longrightarrow> u \<noteq> t \<Longrightarrow> own_locks u (unlock t i s) = own_locks u s"
proof -
  show "unlock t i (own_locks t s) = own_locks t (unlock t i s)"
    by (auto simp: unlock_def own_locks_def fun_eq_iff)
  assume u: "writer s i \<noteq> Some t" "u \<noteq> t"
  then have "((readers s)(i := readers s i - {t})) k \<inter> {u} = readers s k \<inter> {u}" for k by auto
  with u show "own_locks u (unlock t i s) = own_locks u s" by (simp add: unlock_def own_locks_def)
qed

lemma get_writer: "get_views j n (own_locks t s, w) \<Longrightarrow> writer s i = None"
proof -
  have "writer (fst v) i = None" if "get_views j n v" for v
    using that by (induction rule: get_views.cases) (auto simp: get_ok_def no_locks_def)
  from this [of "(own_locks t s, w)"] show "get_views j n (own_locks t s, w) \<Longrightarrow> writer s i = None" by simp
qed

text \<open>The programs of the server's end of a download.\<close>

lemma get_thread:
  assumes "get_views j n (s, p, w)"
  shows "p \<in> {client_thread (job_tid j), handle_get (job_tid j) (job_remote j),
      with_lock_sh (job_tid j) (remote_file j) (inode_of j) (send_back (job_tid j) (inode_of j)),
      send_back (job_tid j) (inode_of j), act (unlock (job_tid j) (inode_of j)) (Send ok_line (send_rest j)),
      Send ok_line (send_rest j), Send (payload j) Close, Close}"
  using assms by (cases rule: get_views.cases) simp_all

lemma get_flock: "get_views j n (s, w) \<Longrightarrow> flock_works s (remote_file j)"
  by (cases rule: get_views.cases) (auto simp: get_ok_def)

lemma get_local:
  assumes "get_views j n (own_locks (job_tid j) s, w)"
  shows "sstep (own_locks (job_tid j) s, w) = map_option (\<lambda>v. (own_locks (job_tid j) (fst v), snd v)) (sstep (s, w))"
    and "sstep (s, w) = Some (s', w') \<Longrightarrow> u \<noteq> job_tid j \<Longrightarrow> own_locks u s' = own_locks u s"
proof -
  obtain p q m a b where w: "w = (p, q, m, a, b)" by (cases w)
  have f: "flock_works s (remote_file j)" using get_flock [OF assms] by simp
  have p: "p \<in> {client_thread (job_tid j), handle_get (job_tid j) (job_remote j),
      with_lock_sh (job_tid j) (remote_file j) (inode_of j) (send_back (job_tid j) (inode_of j)),
      send_back (job_tid j) (inode_of j), act (unlock (job_tid j) (inode_of j)) (Send ok_line (send_rest j)),
      Send ok_line (send_rest j), Send (payload j) Close, Close}"
    using get_thread [of j n _ p] assms unfolding w by blast
  show "sstep (own_locks (job_tid j) s, w) = map_option (\<lambda>v. (own_locks (job_tid j) (fst v), snd v)) (sstep (s, w))"
    using p f unfolding w
    by (elim insertE emptyE) (simp_all add: own_locks_lock_sh own_locks_unlock option.map_comp comp_def)
  show "sstep (s, w) = Some (s', w') \<Longrightarrow> u \<noteq> job_tid j \<Longrightarrow> own_locks u s' = own_locks u s"
    using p f get_writer [OF assms, of "inode_of j"] unfolding w
    by (elim insertE emptyE) (auto simp: own_locks_lock_sh(2) own_locks_unlock(2) split: if_splits)
qed

interpretation downloads: local_views get_views own_locks
  using get_local by unfold_locales (auto simp: map_option_eq_Some)

lemma own_locks_all:
  assumes same: "\<And>t. own_locks t s' = own_locks t s"
  shows "s' = s"
proof -
  have "readers s' i \<inter> {t} = readers s i \<inter> {t}" for i t
    using arg_cong [OF same [of t], of "\<lambda>s. readers s i"] by (simp add: own_locks_def)
  then have r: "readers s' = readers s" by (auto simp: fun_eq_iff)
  have put_back: "(own_locks 0 s0)\<lparr>readers := readers s0\<rparr> = s0" for s0
    by (intro server.equality) (simp_all add: own_locks_def)
  have "s' = (own_locks 0 s')\<lparr>readers := readers s'\<rparr>" by (rule put_back [symmetric])
  also have "\<dots> = (own_locks 0 s)\<lparr>readers := readers s\<rparr>" by (simp only: same r)
  also have "\<dots> = s" by (rule put_back)
  finally show ?thesis .
qed

text \<open>Apart from the locks the server is what it was.\<close>

lemma own_locks_other: "own_locks t s' = s\<lparr>readers := R\<rparr> \<Longrightarrow> s' = s\<lparr>readers := readers s'\<rparr>"
  by (drule arg_cong [of _ _ "\<lambda>s0. s0\<lparr>readers := readers s'\<rparr>"]) (simp add: own_locks_def)

lemma get_unlocked: "get_views j n (s, w) \<Longrightarrow> s = (job_srv j)\<lparr>readers := readers s\<rparr>"
proof -
  have "fst v = (job_srv j)\<lparr>readers := readers (fst v)\<rparr>" if "get_views j n v" for v
    using that by (induction rule: get_views.cases) simp_all
  from this [of "(s, w)"] show "get_views j n (s, w) \<Longrightarrow> s = (job_srv j)\<lparr>readers := readers s\<rparr>" by simp
qed

lemma own_locks_none: "no_locks s \<Longrightarrow> own_locks t s = s"
  by (intro server.equality) (simp_all add: own_locks_def no_locks_def fun_eq_iff)

lemma downloads_start:
  assumes "\<forall>t \<in> T. get_ok (j t) \<and> job_tid (j t) = t \<and> job_srv (j t) = s"
  shows "downloads.part.running T j (connect s (\<lambda>t. if t \<in> T then get_args (j t) else []) (\<lambda>t. job_client (j t)))"
    (is "downloads.part.running T j ?c")
proof -
  have "get_views (j t) 14 (own_locks t (srv ?c), snd (view_of t ?c))" if "t \<in> T" for t
  proof -
    have t: "get_ok (j t)" "job_tid (j t) = t" "job_srv (j t) = s" using assms that by simp_all
    then have "own_locks t s = s" by (simp add: get_ok_def own_locks_none)
    then have "(own_locks t (srv ?c), snd (view_of t ?c)) = (s, client_thread t, main (get_args (j t)), job_client (j t), [], [])"
      using that by (simp add: view_of_def connect_def)
    then show ?thesis using get_views.g14 [OF t(1)] t(2,3) by simp
  qed
  then show ?thesis
    using assms by (auto simp: downloads.part.running_def idle_client_def connect_def main_def view_of_def)
qed

text \<open>What is hidden from all of them stays as it is.\<close>

lemma downloads_others:
  assumes "\<forall>t \<in> T. get_ok (j t) \<and> job_tid (j t) = t \<and> job_srv (j t) = s"
    and run: "reachable (connect s (\<lambda>t. if t \<in> T then get_args (j t) else []) (\<lambda>t. job_client (j t))) c" and "u \<notin> T"
  shows "own_locks u (srv c) = own_locks u s"
proof (rule downloads.part.server_kept [OF run downloads_start [OF assms(1)]])
  fix t n s1 w s2 w2
  assume "t \<in> T" and "get_views (j t) n (own_locks (job_tid (j t)) (fst (s1, w)), snd (s1, w))"
    and "sstep (s1, w) = Some (s2, w2)" and "own_locks u s1 = own_locks u s"
  then show "own_locks u s2 = own_locks u s" using get_local(2) [of "j t" n s1 w s2 w2 u] assms(1,3) by auto
qed (simp add: connect_def)

lemma downloads_same:
  assumes "downloads.part.running T j c" and "\<forall>t \<in> T. job_srv (j t) = s" and "0 \<notin> T \<Longrightarrow> own_locks 0 (srv c) = own_locks 0 s"
  shows "srv c = s\<lparr>readers := readers (srv c)\<rparr>"
proof (cases "0 \<in> T")
  case True
  then obtain n where "get_views (j 0) n (own_locks 0 (srv c), snd (view_of 0 c))"
    using assms(1) by (auto simp: downloads.part.running_def view_of_def)
  then have "own_locks 0 (srv c) = (job_srv (j 0))\<lparr>readers := readers (own_locks 0 (srv c))\<rparr>" by (rule get_unlocked)
  with True assms(2) have "own_locks 0 (srv c) = s\<lparr>readers := readers (own_locks 0 (srv c))\<rparr>" by simp
  then show ?thesis by (rule own_locks_other)
next
  case False
  then have "own_locks 0 (srv c) = s\<lparr>readers := (\<lambda>i. readers s i \<inter> {0})\<rparr>" using assms(3) by (simp add: own_locks_def)
  then show ?thesis by (rule own_locks_other)
qed

lemma downloads_end:
  assumes "downloads.part.running T j c" and "t \<in> T" and "ended t c"
  shows "get_views (j t) 0 (own_locks t (srv c), snd (view_of t c))"
  using assms downloads.part.ended_running [OF assms(1,2)] by (simp add: downloads.part.running_def view_of_def)

lemma downloads_done:
  assumes "downloads.part.running T j c" and "\<forall>t \<in> T. job_srv (j t) = s \<and> get_ok (j t)" and "\<forall>t \<in> T. ended t c"
    and "\<And>u. u \<notin> T \<Longrightarrow> own_locks u (srv c) = own_locks u s"
  shows "srv c = s"
proof (rule own_locks_all)
  fix t
  show "own_locks t (srv c) = own_locks t s"
  proof (cases "t \<in> T")
    case True
    then have "own_locks t (srv c) = s" using get_end [OF downloads_end [OF assms(1)]] assms(2,3) by fastforce
    moreover have "own_locks t s = s" using True assms(2) by (intro own_locks_none) (auto simp: get_ok_def)
    ultimately show ?thesis by simp
  qed (rule assms(4))
qed

text \<open>Any number of clients that download existing files at the same time, the same file or
  different ones, do not disturb each other, in every interleaving: the server differs from its
  first state in nothing but shared locks, and not at all when all have ended; each connection
  can come to rest from every state, and finitely many of them all can; a client that has ended
  has saved the first 1024 bytes of its file, or, when they came in with the answer, what did
  not fit the first buffer (nothing up to 1008 bytes), exactly as if it were alone.\<close>

theorem concurrent_downloads:
  assumes jobs: "\<forall>t \<in> T. get_ok (j t) \<and> job_tid (j t) = t \<and> job_srv (j t) = s"
    and run: "reachable (connect s (\<lambda>t. if t \<in> T then get_args (j t) else []) (\<lambda>t. job_client (j t))) c"
  shows "srv c = s\<lparr>readers := readers (srv c)\<rparr> \<and> ((\<forall>t \<in> T. ended t c) \<longrightarrow> srv c = s)
    \<and> (\<forall>t \<in> T. ended t c \<longrightarrow> thread c t = Close \<and> peer c t = Close
        \<and> machine c t \<in> {downloaded (j t) (payload (j t)), downloaded (j t) (drop 1008 (payload (j t)))})
    \<and> (\<forall>t \<in> T. \<exists>c'. reachable c c' \<and> ended t c')
    \<and> (finite T \<longrightarrow> (\<exists>c'. reachable c c' \<and> (\<forall>t \<in> T. ended t c')))"
proof -
  have r: "downloads.part.running T j c" by (rule downloads.part.running_reachable [OF run downloads_start [OF jobs]])
  have "thread c t = Close \<and> peer c t = Close
      \<and> machine c t \<in> {downloaded (j t) (payload (j t)), downloaded (j t) (drop 1008 (payload (j t)))}"
    if "t \<in> T" "ended t c" for t
    using get_end [OF downloads_end [OF r that]] by (auto simp: view_of_def rest_ok_def)
  then show ?thesis
    using downloads_same [OF r] downloads_done [OF r] downloads_others [OF jobs run] downloads.part.can_end_running [OF r]
      downloads.part.all_can_end [OF r, of T] jobs by simp
qed

section \<open>An example\<close>

text \<open>Connections 3 and 4 fetch the same file.\<close>

abbreviation both_jobs :: "tid \<Rightarrow> job" where
  "both_jobs t \<equiv> stored_job\<lparr>job_tid := t\<rparr>"

lemma both_get: "get_ok (both_jobs t)"
  using stored_get by (simp add: get_ok_def get_line_def)

theorem concurrent_downloads_witness:
  "\<exists>c. reachable (connect stored_server (\<lambda>t. if t \<in> {3, 4} then [''GET'', ''b.txt'', ''a.txt''] else []) (\<lambda>_. sample_client)) c
     \<and> ended 3 c \<and> ended 4 c \<and> srv c = stored_server \<and> status (machine c 3) = Some 0 \<and> status (machine c 4) = Some 0"
proof -
  have args: "get_args (both_jobs t) = [''GET'', ''b.txt'', ''a.txt'']" for t
    using stored_simps by (simp add: get_args_def)
  have "\<forall>t \<in> {3, 4}. get_ok (both_jobs t) \<and> job_tid (both_jobs t) = t \<and> job_srv (both_jobs t) = stored_server"
    using both_get stored_simps by simp
  note th = concurrent_downloads [OF this, unfolded args]
  let ?c0 = "connect stored_server (\<lambda>t. if t \<in> {3, 4} then [''GET'', ''b.txt'', ''a.txt''] else []) (\<lambda>_. sample_client)"
  have c0: "connect stored_server (\<lambda>t. if t \<in> {3, 4} then [''GET'', ''b.txt'', ''a.txt''] else []) (\<lambda>t. job_client (both_jobs t)) = ?c0"
    by (simp add: stored_simps)
  obtain c where c: "reachable ?c0 c" "ended 3 c" "ended 4 c"
    using th [unfolded c0, OF reachable.refl] by auto
  with th [unfolded c0, OF c(1)] show ?thesis by (auto simp: downloaded_def stored_simps)
qed

end
