(* ===== verification/Rfs_Isolation.thy ===== *)
theory Rfs_Isolation
  imports Rfs_Parallel Rfs_Remove
begin

text \<open>
  Uploads, downloads and removals at the same time. As long as two connections do not use the same file, or
  only to download it, each of them runs as it does alone: the part of the server it sees goes through
  the same states as in a run of its own (a simulation, which makes the three kinds of sessions an
  instance of \<open>parallel_sessions\<close>). So the files at the end are those of a serial run, in any order.
\<close>

datatype request = GET | WRITE | RM

section \<open>What a connection sees of the server\<close>

text \<open>The file it is about; a download does not see the shared locks of the others.\<close>

definition look :: "request \<Rightarrow> tid \<Rightarrow> string list \<Rightarrow> server \<Rightarrow> (inode \<times> char list \<times> tid option \<times> tid set) option" where
  "look k t f s = map_option (\<lambda>i. (i, contents s i, writer s i, if k = GET then readers s i \<inter> {t} else readers s i)) (names s f)"

text \<open>What no handler changes, uploads with the permission \<open>READ_WRITE\<close> included.\<close>

definition same_rules :: "server \<Rightarrow> server \<Rightarrow> bool" where
  "same_rules s s' \<longleftrightarrow> can_create s' = can_create s \<and> can_write s' = can_write s \<and> can_read s' = can_read s
     \<and> can_remove s' = can_remove s \<and> flock_works s' = flock_works s \<and> read_works s' = read_works s
     \<and> free_space s' = free_space s \<and> (\<forall>q. get_file_permission (tab s') q = get_file_permission (tab s) q)"

text \<open>The server \<open>s\<close> looks to the connection of \<open>j\<close> like \<open>b\<close>; an upload that is to create its file will get
  the same inode.\<close>

definition alike :: "request \<Rightarrow> job \<Rightarrow> server \<Rightarrow> server \<Rightarrow> bool" where
  "alike k j s b \<longleftrightarrow> look k (job_tid j) (remote_file j) s = look k (job_tid j) (remote_file j) b \<and> same_rules s b
     \<and> (k = WRITE \<and> names s (remote_file j) = None \<longrightarrow> next_inode b = next_inode s)"

text \<open>Every file has one name, and new inodes are new.\<close>

definition sound_names :: "server \<Rightarrow> bool" where
  "sound_names s \<longleftrightarrow> (\<forall>f g i. names s f = Some i \<and> names s g = Some i \<longrightarrow> f = g)
     \<and> (\<forall>f i. names s f = Some i \<longrightarrow> i < next_inode s)
     \<and> (\<forall>i. next_inode s \<le> i \<longrightarrow> writer s i = None \<and> readers s i = {})"

lemma same_rules_refl: "same_rules s s"
  by (simp add: same_rules_def)

lemma same_rules_trans: "same_rules s s' \<Longrightarrow> same_rules s' s'' \<Longrightarrow> same_rules s s''"
  by (simp add: same_rules_def)

lemma alikeD:
  assumes "alike k j s b"
  shows "names s (remote_file j) = names b (remote_file j)" and "same_rules s b"
    and "names b (remote_file j) = Some i \<Longrightarrow> contents s i = contents b i \<and> writer s i = writer b i
      \<and> (if k = GET then readers s i \<inter> {job_tid j} = readers b i \<inter> {job_tid j} else readers s i = readers b i)"
    and "k = WRITE \<Longrightarrow> names b (remote_file j) = None \<Longrightarrow> next_inode b = next_inode s"
proof -
  show n: "names s (remote_file j) = names b (remote_file j)"
    using assms by (auto simp: alike_def look_def map_option_case split: option.splits)
  show "same_rules s b" "k = WRITE \<Longrightarrow> names b (remote_file j) = None \<Longrightarrow> next_inode b = next_inode s"
    using assms n by (simp_all add: alike_def)
  show "names b (remote_file j) = Some i \<Longrightarrow> contents s i = contents b i \<and> writer s i = writer b i
      \<and> (if k = GET then readers s i \<inter> {job_tid j} = readers b i \<inter> {job_tid j} else readers s i = readers b i)"
    using assms n by (simp add: alike_def look_def split: if_splits)
qed

section \<open>The steps of one connection\<close>

text \<open>The programs of the three handlers after their request is read, with the inode that the path of the
  job has in the server \<open>b\<close> of a run of its own.\<close>

inductive part_of :: "request \<Rightarrow> job \<Rightarrow> server \<Rightarrow> server prog \<Rightarrow> bool" for k j b where
  p_thread: "part_of k j b (client_thread (job_tid j))"
| p_send: "part_of k j b (Send x p)"
| p_close: "part_of k j b Close"
| p_unlock: "part_of k j b (act (unlock (job_tid j) i) p)"
| p_lock_ex: "k \<noteq> GET \<Longrightarrow> names b (remote_file j) = Some i \<Longrightarrow> flock_works b (remote_file j) \<Longrightarrow>
    part_of k j b (with_lock_ex (job_tid j) (remote_file j) i p)"
| p_get: "k = GET \<Longrightarrow> part_of k j b (handle_get (job_tid j) (job_remote j))"
| p_lock_sh: "k = GET \<Longrightarrow> names b (remote_file j) = Some i \<Longrightarrow> flock_works b (remote_file j) \<Longrightarrow>
    part_of k j b (with_lock_sh (job_tid j) (remote_file j) i p)"
| p_back: "k = GET \<Longrightarrow> names b (remote_file j) = Some i \<Longrightarrow> part_of k j b (send_back (job_tid j) i)"
| p_write: "k = WRITE \<Longrightarrow> part_of k j b (handle_write (job_tid j) (job_remote j) (job_perm j))"
| p_set: "k = WRITE \<Longrightarrow> part_of k j b (set_and_check (job_tid j) (job_remote j) (job_perm j))"
| p_check: "k = WRITE \<Longrightarrow>
    part_of k j b (query (\<lambda>s. write_checked (job_tid j) (job_remote j) (get_file_permission (tab s) (job_remote j))))"
| p_open: "k = WRITE \<Longrightarrow> no_locks b \<Longrightarrow> part_of k j b (open_and_receive (job_tid j) (remote_file j))"
| p_receive: "k = WRITE \<Longrightarrow> part_of k j b (receive_file (job_tid j) i)"
| p_save: "k = WRITE \<Longrightarrow> names b (remote_file j) = Some i \<Longrightarrow> length x \<le> free_space b i \<Longrightarrow>
    part_of k j b (save_data (job_tid j) i x)"
| p_rm: "k = RM \<Longrightarrow> part_of k j b (handle_rm (job_tid j) (job_remote j))"
| p_look: "k = RM \<Longrightarrow> part_of k j b (query (\<lambda>s. case open_write s (remote_file j) of
      None \<Rightarrow> Send ''ERR_REMOVE_FAILED'' Close
    | Some i \<Rightarrow> with_lock_ex (job_tid j) (remote_file j) i (remove_file (job_tid j) (remote_file j) i)))"
| p_remove: "k = RM \<Longrightarrow> names b (remote_file j) = Some i \<Longrightarrow>
    part_of k j b (remove_file (job_tid j) (remote_file j) i)"

text \<open>The operations on the two servers.\<close>

lemma alike_update:
  assumes "alike k j s b" and "names s' = names s" and "names b' = names b" and "same_rules s s'" and "same_rules b b'"
    and "next_inode s' = next_inode s" and "next_inode b' = next_inode b"
    and "\<And>i. names b (remote_file j) = Some i \<Longrightarrow> contents s' i = contents b' i \<and> writer s' i = writer b' i
      \<and> (if k = GET then readers s' i \<inter> {job_tid j} = readers b' i \<inter> {job_tid j} else readers s' i = readers b' i)"
  shows "alike k j s' b'"
proof -
  have "same_rules s' b'" using alikeD(2) [OF assms(1)] assms(4,5) by (simp add: same_rules_def)
  moreover have "look k (job_tid j) (remote_file j) s' = look k (job_tid j) (remote_file j) b'"
    using alikeD(1) [OF assms(1)] assms(2,3,8)
    by (cases "names b (remote_file j)") (auto simp: look_def split: if_splits)
  ultimately show ?thesis using assms(1,2,3,6,7) by (simp add: alike_def)
qed

lemma sound_update:
  "sound_names s \<Longrightarrow> names s' = names s \<Longrightarrow> next_inode s' = next_inode s \<Longrightarrow>
    (\<And>i. next_inode s \<le> i \<Longrightarrow> writer s' i = None \<and> readers s' i = {}) \<Longrightarrow> sound_names s'"
  by (simp add: sound_names_def)

abbreviation both :: "request \<Rightarrow> job \<Rightarrow> (server \<times> 'w) option \<Rightarrow> (server \<times> 'w) option \<Rightarrow> bool" where
  "both k j \<equiv> rel_option (\<lambda>(s, w) (b, w'). w = w' \<and> alike k j s b \<and> sound_names s)"

lemma both_lock_ex:
  assumes al: "alike k j s b" and so: "sound_names s" and k: "k \<noteq> GET" and n: "names b (remote_file j) = Some i"
  shows "both k j (map_option (\<lambda>s. (s, w)) (lock_ex t i s)) (map_option (\<lambda>s. (s, w)) (lock_ex t i b))"
proof -
  note i = alikeD(3) [OF al n] and ns = alikeD(1) [OF al]
  have "i < next_inode s" using so ns n by (auto simp: sound_names_def)
  then have "sound_names (s\<lparr>writer := (writer s)(i := Some t)\<rparr>)"
    using so by (intro sound_update [OF so]) (auto simp: sound_names_def)
  moreover have "alike k j (s\<lparr>writer := (writer s)(i := Some t)\<rparr>) (b\<lparr>writer := (writer b)(i := Some t)\<rparr>)"
    using i n k by (intro alike_update [OF al]) (auto simp: same_rules_def)
  ultimately show ?thesis using i k by (auto simp: lock_ex_def)
qed

lemma both_lock_sh:
  assumes al: "alike k j s b" and so: "sound_names s" and k: "k = GET" and n: "names b (remote_file j) = Some i"
  shows "both k j (map_option (\<lambda>s. (s, w)) (lock_sh (job_tid j) i s)) (map_option (\<lambda>s. (s, w)) (lock_sh (job_tid j) i b))"
proof -
  let ?l = "\<lambda>s. s\<lparr>readers := (readers s)(i := insert (job_tid j) (readers s i))\<rparr>"
  note i = alikeD(3) [OF al n] and ns = alikeD(1) [OF al]
  have "i < next_inode s" using so ns n by (auto simp: sound_names_def)
  then have "sound_names (?l s)" using so by (intro sound_update [OF so]) (auto simp: sound_names_def)
  moreover have "alike k j (?l s) (?l b)"
    using i n k by (intro alike_update [OF al]) (auto simp: same_rules_def)
  ultimately show ?thesis using i by (auto simp: lock_sh_def)
qed

lemma alike_unlock:
  assumes al: "alike k j s b" and so: "sound_names s"
  shows "alike k j (unlock (job_tid j) i s) (unlock (job_tid j) i b)" and "sound_names (unlock t i s)"
proof -
  have "contents s n = contents b n \<and> writer (unlock (job_tid j) i s) n = writer (unlock (job_tid j) i b) n
      \<and> (if k = GET then readers (unlock (job_tid j) i s) n \<inter> {job_tid j} = readers (unlock (job_tid j) i b) n \<inter> {job_tid j}
         else readers (unlock (job_tid j) i s) n = readers (unlock (job_tid j) i b) n)"
    if "names b (remote_file j) = Some n" for n
    using alikeD(3) [OF al that] by (cases "n = i") (auto simp: unlock_def)
  then show "alike k j (unlock (job_tid j) i s) (unlock (job_tid j) i b)"
    by (intro alike_update [OF al]) (auto simp: same_rules_def unlock_def)
  show "sound_names (unlock t i s)"
    using so by (intro sound_update [OF so]) (auto simp: sound_names_def unlock_def)
qed

lemma both_open:
  assumes al: "alike WRITE j s b" and so: "sound_names s" and b: "no_locks b"
  shows "rel_option (\<lambda>(i, s) (i', b). i = i' \<and> alike WRITE j s b \<and> sound_names s)
    (open_trunc s (remote_file j)) (open_trunc b (remote_file j))"
proof (cases "names b (remote_file j)")
  case None
  note n = alikeD(1) [OF al] and k = alikeD(4) [OF al _ None]
  let ?i = "next_inode s"
  let ?new = "\<lambda>s. s\<lparr>names := (names s)(remote_file j \<mapsto> ?i), contents := (contents s)(?i := []), next_inode := Suc ?i\<rparr>"
  have free: "writer s ?i = None" "readers s ?i = {}" using so by (simp_all add: sound_names_def)
  have "same_rules (?new s) (?new b)" using alikeD(2) [OF al] by (simp add: same_rules_def)
  then have "alike WRITE j (?new s) (?new b)" using free b by (simp add: alike_def look_def no_locks_def)
  moreover have "sound_names (?new s)" using so unfolding sound_names_def by (auto simp: less_Suc_eq)
  moreover have "can_create s = can_create b" using alikeD(2) [OF al] by (simp add: same_rules_def)
  ultimately show ?thesis using None n k by (simp add: open_trunc_def Let_def)
next
  case (Some i)
  note n = alikeD(1) [OF al] and i = alikeD(3) [OF al Some]
  have "alike WRITE j (s\<lparr>contents := (contents s)(i := [])\<rparr>) (b\<lparr>contents := (contents b)(i := [])\<rparr>)"
    using i Some by (intro alike_update [OF al]) (auto simp: same_rules_def)
  moreover have "sound_names (s\<lparr>contents := (contents s)(i := [])\<rparr>)" using so by (simp add: sound_names_def)
  moreover have "can_write s = can_write b" using alikeD(2) [OF al] by (simp add: same_rules_def)
  ultimately show ?thesis using Some n by (simp add: open_trunc_def)
qed

lemma alike_remove:
  assumes al: "alike RM j s b" and so: "sound_names s"
  shows "fst (remove_name (remote_file j) s) = fst (remove_name (remote_file j) b)"
    and "alike RM j (snd (remove_name (remote_file j) s)) (snd (remove_name (remote_file j) b))"
    and "sound_names (snd (remove_name (remote_file j) s))"
proof -
  note n = alikeD(1) [OF al]
  have r: "can_remove s = can_remove b" using alikeD(2) [OF al] by (simp add: same_rules_def)
  then show "fst (remove_name (remote_file j) s) = fst (remove_name (remote_file j) b)" using n by (simp add: remove_name_def)
  show "alike RM j (snd (remove_name (remote_file j) s)) (snd (remove_name (remote_file j) b))"
    using al n r by (simp add: remove_name_def alike_def look_def same_rules_def)
  show "sound_names (snd (remove_name (remote_file j) s))"
    using so by (auto simp: remove_name_def sound_names_def)
qed

lemma alike_rules:
  assumes "alike k j s b"
  shows "get_file_permission (tab s) q = get_file_permission (tab b) q" and "flock_works s = flock_works b"
    and "free_space s = free_space b" and "open_read s (remote_file j) = open_read b (remote_file j)"
    and "open_write s (remote_file j) = open_write b (remote_file j)"
    and "names b (remote_file j) = Some i \<Longrightarrow> read_start i s = read_start i b"
  using alikeD(1,2) [OF assms] alikeD(3) [OF assms, of i]
  by (simp_all add: same_rules_def open_read_def open_write_def read_start_def)

text \<open>Every step leads to servers that look alike again, and is possible on both or on none.\<close>

lemma part_step:
  assumes p: "part_of k j b p" and al: "alike k j s b" and so: "sound_names s"
    and rw: "k = WRITE \<Longrightarrow> parse_perm (job_perm j) = READ_WRITE"
  shows "both k j (sstep (s, p, w)) (sstep (b, p, w))"
proof -
  obtain q m a z where w [simp]: "w = (q, m, a, z)" by (cases w)
  note rules = alike_rules [OF al]
  from p show ?thesis
  proof cases
    case (p_unlock i p')
    then show ?thesis using alike_unlock [OF al so] by simp
  next
    case (p_lock_ex i p')
    then show ?thesis using both_lock_ex [OF al so p_lock_ex(2,3), of "(p', q, m, a, z)"] rules by simp
  next
    case (p_lock_sh i p')
    then show ?thesis using both_lock_sh [OF al so p_lock_sh(2,3), of "(p', q, m, a, z)"] rules by simp
  next
    case p_set
    let ?set = "\<lambda>s. s\<lparr>tab := set_file_permission (tab s) (job_remote j) (parse_perm (job_perm j))\<rparr>"
    have "same_rules s (?set s)" "same_rules b (?set b)" using rw p_set by (simp_all add: same_rules_def set_default)
    then have "alike k j (?set s) (?set b)" using alikeD(3) [OF al] by (intro alike_update [OF al]) simp_all
    moreover have "sound_names (?set s)" using so by (simp add: sound_names_def)
    ultimately show ?thesis using p_set by simp
  next
    case p_open
    with both_open [of j s b] al so show ?thesis
      by (cases "open_trunc s (remote_file j)"; cases "open_trunc b (remote_file j)") auto
  next
    case (p_save i x)
    let ?save = "\<lambda>s. s\<lparr>contents := (contents s)(i := x @ drop (length x) (contents s i))\<rparr>"
    have "alike k j (?save s) (?save b)"
      using alikeD(3) [OF al] by (intro alike_update [OF al]) (auto simp: same_rules_def)
    moreover have "sound_names (?save s)" using so by (simp add: sound_names_def)
    ultimately show ?thesis using p_save rules by simp
  next
    case (p_remove i)
    with alike_remove [of j s b] al so show ?thesis by (simp add: split_def)
  qed (use al so rules in \<open>simp_all\<close>)
qed

section \<open>What the others see of a step\<close>

text \<open>A connection only gives back its own locks, so those of a file it holds no lock of are kept.\<close>

definition free_of :: "tid \<Rightarrow> (inode \<times> char list \<times> tid option \<times> tid set) option \<Rightarrow> bool" where
  "free_of t v \<longleftrightarrow> (case v of None \<Rightarrow> True | Some (i, x, wr, rd) \<Rightarrow> wr \<noteq> Some t \<and> t \<notin> rd)"

lemma look_kept:
  assumes "names s' f = names s f"
    and "\<And>i. names s f = Some i \<Longrightarrow> contents s' i = contents s i \<and> writer s' i = writer s i
      \<and> (if k = GET then readers s' i \<inter> {u} = readers s i \<inter> {u} else readers s' i = readers s i)"
  shows "look k u f s' = look k u f s"
  using assms by (cases "names s f") (auto simp: look_def split: if_splits)

lemma other_inode:
  "sound_names s \<Longrightarrow> names s g = Some i \<Longrightarrow> f \<noteq> g \<Longrightarrow> names s f \<noteq> Some i"
  "sound_names s \<Longrightarrow> names s f \<noteq> Some (next_inode s)"
  by (auto simp: sound_names_def)

lemma look_other_file:
  assumes "sound_names s" and "f \<noteq> g"
  shows "names s g = Some i \<Longrightarrow> lock_ex t i s = Some s' \<Longrightarrow> look k u f s' = look k u f s"
    and "names s g = Some i \<Longrightarrow> lock_sh t i s = Some s' \<Longrightarrow> look k u f s' = look k u f s"
    and "names s g = Some i \<Longrightarrow> look k u f (s\<lparr>contents := (contents s)(i := x)\<rparr>) = look k u f s"
    and "open_trunc s g = Some (i, s') \<Longrightarrow> look k u f s' = look k u f s"
    and "look k u f (snd (remove_name g s)) = look k u f s"
  using other_inode(1) [OF assms(1) _ assms(2)] other_inode(2) [OF assms(1)] assms(2)
  by (auto simp: lock_ex_def lock_sh_def open_trunc_def remove_name_def Let_def
      split: if_splits option.splits intro!: look_kept)

lemma look_unlock: "free_of t (look k u f s) \<Longrightarrow> u \<noteq> t \<Longrightarrow> look k u f (unlock t i s) = look k u f s"
  by (rule look_kept) (auto simp: free_of_def look_def unlock_def split: option.splits if_splits)

lemma look_shared: "lock_sh t i s = Some s' \<Longrightarrow> u \<noteq> t \<Longrightarrow> look GET u f s' = look GET u f s"
  by (rule look_kept) (auto simp: lock_sh_def split: if_splits)

lemma step_elsewhere:
  assumes p: "part_of k j b p" and al: "alike k j s b" and so: "sound_names s"
    and rw: "k = WRITE \<Longrightarrow> parse_perm (job_perm j) = READ_WRITE" and st: "sstep (s, p, w) = Some (s', w')"
  shows "same_rules s s'"
    and "u \<noteq> job_tid j \<Longrightarrow> f \<noteq> remote_file j \<or> k = GET \<and> k' = GET \<Longrightarrow> free_of (job_tid j) (look k' u f s) \<Longrightarrow>
      look k' u f s' = look k' u f s"
proof -
  obtain q m a z where w [simp]: "w = (q, m, a, z)" by (cases w)
  note rules = alike_rules [OF al] and ns = alikeD(1) [OF al]
  note other = look_other_file [OF so]
  let ?kept = "\<lambda>s'. u \<noteq> job_tid j \<longrightarrow> f \<noteq> remote_file j \<or> k = GET \<and> k' = GET \<longrightarrow>
    free_of (job_tid j) (look k' u f s) \<longrightarrow> look k' u f s' = look k' u f s"
  from p have "same_rules s s' \<and> ?kept s'"
  proof cases
    case (p_unlock i p')
    with st have "s' = unlock (job_tid j) i s" by simp
    moreover from this have "?kept s'" by (auto intro: look_unlock)
    ultimately show ?thesis by (simp add: same_rules_def unlock_def)
  next
    case (p_lock_ex i p')
    with st rules have l: "lock_ex (job_tid j) i s = Some s'" by auto
    then have "same_rules s s'" by (auto simp: lock_ex_def same_rules_def split: if_splits)
    with l p_lock_ex ns other(1) show ?thesis by auto
  next
    case (p_lock_sh i p')
    with st rules have l: "lock_sh (job_tid j) i s = Some s'" by auto
    then have "same_rules s s'" by (auto simp: lock_sh_def same_rules_def split: if_splits)
    with l p_lock_sh ns other(2) show ?thesis by (auto intro: look_shared)
  next
    case p_set
    with st have "s' = s\<lparr>tab := set_file_permission (tab s) (job_remote j) READ_WRITE\<rparr>" using rw by simp
    then show ?thesis by (auto simp: same_rules_def set_default intro!: look_kept)
  next
    case p_open
    with st consider "s' = s" | i where "open_trunc s (remote_file j) = Some (i, s')"
      by (auto split: option.splits)
    then show ?thesis
    proof cases
      case 2
      then have "same_rules s s'" by (auto simp: open_trunc_def same_rules_def Let_def split: option.splits if_splits)
      with 2 p_open other(4) show ?thesis by auto
    qed (simp add: same_rules_refl)
  next
    case (p_save i x)
    with st rules have "s' = s\<lparr>contents := (contents s)(i := x @ drop (length x) (contents s i))\<rparr>" by simp
    with p_save ns other(3) show ?thesis by (auto simp: same_rules_def)
  next
    case (p_remove i)
    with st have s': "s' = snd (remove_name (remote_file j) s)" by (auto simp: split_def)
    then have "same_rules s s'" by (simp add: remove_name_def same_rules_def)
    with s' p_remove other(5) show ?thesis by auto
  qed (use st in \<open>auto simp: same_rules_refl split: if_splits\<close>)
  then show "same_rules s s'"
    and "u \<noteq> job_tid j \<Longrightarrow> f \<noteq> remote_file j \<or> k = GET \<and> k' = GET \<Longrightarrow> free_of (job_tid j) (look k' u f s) \<Longrightarrow>
      look k' u f s' = look k' u f s" by blast+
qed

section \<open>The views of a run of its own\<close>

definition solo :: "request \<Rightarrow> job \<Rightarrow> nat \<Rightarrow> view \<Rightarrow> bool" where
  "solo k j n v \<longleftrightarrow> (case k of GET \<Rightarrow> get_views j n v | WRITE \<Rightarrow> upload_views j n v | RM \<Rightarrow> rm_views j n v)"

lemma get_part: "get_views j n v \<Longrightarrow> part_of GET j (fst v) (fst (snd v))"
proof (induction rule: get_views.induct)
  case g11
  then show ?case by (auto simp: get_ok_def inode_of_def intro!: part_of.intros)
next
  case g10
  then show ?case by (auto simp: get_ok_def inode_of_def intro!: part_of.intros)
qed (auto intro: part_of.intros)

lemma rm_part: "rm_views j n v \<Longrightarrow> part_of RM j (fst v) (fst (snd v))"
proof (induction rule: rm_views.induct)
  case m7
  then show ?case by (auto simp: rm_ok_def inode_of_def intro!: part_of.intros)
next
  case m6
  then show ?case by (auto simp: rm_ok_def inode_of_def intro!: part_of.intros)
qed (auto intro: part_of.intros)

lemma accepting_server: "accepting j n v \<Longrightarrow> fst v \<in> {job_srv j, after_set j}"
  by (auto elim!: accepting.cases handshake.cases)

lemma accepting_part: "accepting j n v \<Longrightarrow> part_of WRITE j (fst v) (fst (snd v))"
  by (auto elim!: accepting.cases handshake.cases intro: part_of.intros)

lemma opens_part: "uploadable j \<Longrightarrow> opens j k s p \<Longrightarrow> part_of WRITE j s p"
proof (erule opens.cases)
  assume u: "uploadable j"
  note wr = upload_facts(2) [OF u]
  show "p = open_and_receive (job_tid j) (remote_file j) \<Longrightarrow> s = after_set j \<Longrightarrow> part_of WRITE j s p"
    using wr by (auto simp: writable_def after_set_def no_locks_def intro!: part_of.intros)
  show "p = with_lock_ex (job_tid j) (remote_file j) (target j) (receive_file (job_tid j) (target j)) \<Longrightarrow>
      s = after_open j \<Longrightarrow> part_of WRITE j s p"
    using flock_after_open [OF wr] by (auto simp: after_open_simps [OF wr] intro!: part_of.intros)
qed (auto intro: part_of.intros)

lemma upload_part: "upload_views j n v \<Longrightarrow> part_of WRITE j (fst v) (fst (snd v))"
proof (induction rule: upload_views.induct)
  case (u_start n v)
  then show ?case by (auto intro: accepting_part)
next
  case (u_both k s p l q a b)
  then show ?case by (auto intro: opens_part)
next
  case u6
  then show ?case using upload_facts(2,8) [of j]
    by (auto simp: after_lock_def after_open_simps intro!: part_of.intros)
qed (auto intro: part_of.intros)

lemma solo_part: "solo k j n (b, p, w) \<Longrightarrow> part_of k j b p"
  using get_part [of j n "(b, p, w)"] upload_part [of j n "(b, p, w)"] rm_part [of j n "(b, p, w)"]
  by (cases k) (simp_all add: solo_def)

text \<open>It holds no locks but its own.\<close>

definition own_locks_only :: "tid \<Rightarrow> server \<Rightarrow> bool" where
  "own_locks_only t s \<longleftrightarrow> (\<forall>i. writer s i \<in> {None, Some t} \<and> readers s i \<subseteq> {t})"

lemma no_locks_own: "no_locks s \<Longrightarrow> own_locks_only t s"
  by (simp add: no_locks_def own_locks_only_def)

lemma upload_locks: "upload_views j n v \<Longrightarrow> own_locks_only (job_tid j) (fst v)"
proof -
  assume v: "upload_views j n v"
  then have wr: "writable j" by (auto elim!: upload_views.cases dest: upload_facts(2))
  then have s: "no_locks (job_srv j)" "no_locks (after_set j)" "no_locks (after_open j)" "no_locks (uploaded j)"
    using unlock_target [OF wr] by (simp_all add: writable_def after_set_def no_locks_def after_open_simps)
  have l: "own_locks_only (job_tid j) (after_lock j)" "own_locks_only (job_tid j) (after_save j x)" for x
    using wr by (simp_all add: own_locks_only_def after_lock_def after_save_def after_open_simps)
  from v show ?thesis
  proof cases
    case (u_start n0)
    with accepting_server [of j n0 v] s show ?thesis by (auto intro: no_locks_own)
  next
    case (u_both k s p l q a b)
    then have "s \<in> {after_set j, after_open j, after_lock j}" by (auto elim: opens.cases)
    with u_both s l show ?thesis by (auto intro: no_locks_own)
  qed (use s l in \<open>auto intro: no_locks_own\<close>)
qed

lemma solo_locks: "solo k j n (b, w) \<Longrightarrow> own_locks_only (job_tid j) b"
proof (cases k)
  case GET
  assume "solo k j n (b, w)"
  with GET have "get_views j n (b, w)" by (simp add: solo_def)
  then show ?thesis by cases (auto simp: get_ok_def no_locks_def own_locks_only_def)
next
  case RM
  assume "solo k j n (b, w)"
  with RM have "rm_views j n (b, w)" by (simp add: solo_def)
  then show ?thesis by cases (auto simp: rm_ok_def no_locks_def own_locks_only_def removed_def split: if_splits)
next
  case WRITE
  assume "solo k j n (b, w)"
  with WRITE upload_locks [of j n "(b, w)"] show ?thesis by (simp add: solo_def)
qed

text \<open>Which inode a new file gets does not matter before it is made.\<close>

definition renumbered :: "inode \<Rightarrow> job \<Rightarrow> job" where
  "renumbered m j = j\<lparr>job_srv := (job_srv j)\<lparr>next_inode := m\<rparr>\<rparr>"

lemma renumbered_simps [simp]:
  "job_tid (renumbered m j) = job_tid j" "job_local (renumbered m j) = job_local j" "job_remote (renumbered m j) = job_remote j"
  "job_perm (renumbered m j) = job_perm j" "job_client (renumbered m j) = job_client j"
  "job_srv (renumbered m j) = (job_srv j)\<lparr>next_inode := m\<rparr>" "renumbered m (renumbered n j) = renumbered m j"
  "write_args (renumbered m j) = write_args j" "write_line (renumbered m j) = write_line j"
  "good_request (renumbered m j) = good_request j" "accepted (renumbered m j) = accepted j"
  "writable (renumbered m j) = writable j" "after_set (renumbered m j) = (after_set j)\<lparr>next_inode := m\<rparr>"
  by (simp_all add: renumbered_def write_args_def write_line_def good_request_def accepted_def writable_def
      after_set_def no_locks_def cong: option.case_cong)

definition roomy :: "job \<Rightarrow> bool" where
  "roomy j \<longleftrightarrow> (\<forall>i. length (chunk j) \<le> free_space (job_srv j) i)"

lemma uploadable_renumbered: "uploadable j \<Longrightarrow> roomy j \<Longrightarrow> uploadable (renumbered m j)"
  by (simp add: upload_ok_def roomy_def)

lemma handshake_renumbered:
  assumes "handshake j n (b, w)"
  shows "handshake (renumbered m j) n (b\<lparr>next_inode := m\<rparr>, w)"
  using assms
proof cases
  case hs2 then show ?thesis using handshake.hs2 [of "renumbered m j"] by simp
next
  case hs1 then show ?thesis using handshake.hs1 [of "renumbered m j"] by simp
next
  case hs0 then show ?thesis using handshake.hs0 [of "renumbered m j"] by simp
qed

lemma accepting_renumbered:
  assumes "accepting j n (b, w)"
  shows "accepting (renumbered m j) n (b\<lparr>next_inode := m\<rparr>, w)"
  using assms
proof cases
  case (ac_request k)
  then show ?thesis using accepting.ac_request [OF handshake_renumbered] by simp
next
  case ac2 then show ?thesis using accepting.ac2 [of "renumbered m j"] by simp
next
  case ac1 then show ?thesis using accepting.ac1 [of "renumbered m j"] by simp
next
  case ac0 then show ?thesis using accepting.ac0 [of "renumbered m j"] by simp
qed

lemma client_renumbered:
  assumes "upload_client j l q a z"
  shows "upload_client (renumbered m j) l q a z"
  using assms
proof cases
  case uc3 then show ?thesis using upload_client.uc3 [of "renumbered m j"] by simp
next
  case uc2 then show ?thesis using upload_client.uc2 [of "renumbered m j"] by simp
next
  case uc1 then show ?thesis using upload_client.uc1 [of "renumbered m j"] by simp
next
  case uc0 then show ?thesis using upload_client.uc0 [of "renumbered m j"] by simp
qed

lemma upload_renumbered:
  assumes "upload_views j n (b, w)" and "names b (remote_file j) = None" and "roomy j"
  shows "upload_views (renumbered m j) n (b\<lparr>next_inode := m\<rparr>, w)"
proof -
  have up: "uploadable j" using assms(1) by (auto elim: upload_views.cases)
  note up' = uploadable_renumbered [OF up assms(3)] and made = after_open_simps(4) [OF upload_facts(2) [OF up]]
  from assms(1) show ?thesis
  proof cases
    case (u_start n0)
    then show ?thesis using upload_views.u_start [OF up' accepting_renumbered] by simp
  next
    case (u_both k p l q a z)
    from u_both(4) show ?thesis
    proof cases
      case op2
      then show ?thesis
        using u_both upload_views.u_both [OF up' opens.op2 client_renumbered [OF u_both(5)]] by simp
    qed (use assms(2) made in \<open>simp_all add: after_lock_def\<close>)
  qed (use assms(2) made in \<open>simp_all add: after_lock_def after_save_def unlock_def\<close>)
qed

section \<open>All three kinds in parallel\<close>

text \<open>The connection sees a server as in a run of its own.\<close>

definition as_alone :: "request \<Rightarrow> job \<Rightarrow> nat \<Rightarrow> view \<Rightarrow> bool" where
  "as_alone k j n v \<longleftrightarrow> (\<exists>m b. solo k (renumbered m j) n (b, snd v) \<and> alike k j (fst v) b)"

definition mixed_views :: "(tid \<Rightarrow> request) \<Rightarrow> job \<Rightarrow> nat \<Rightarrow> view \<Rightarrow> bool" where
  "mixed_views kind j n v \<longleftrightarrow> sound_names (fst v)
     \<and> (kind (job_tid j) = WRITE \<longrightarrow> parse_perm (job_perm j) = READ_WRITE \<and> roomy j) \<and> as_alone (kind (job_tid j)) j n v"

definition apart :: "(tid \<Rightarrow> request) \<Rightarrow> job \<Rightarrow> job \<Rightarrow> bool" where
  "apart kind j j' \<longleftrightarrow> job_tid j \<noteq> job_tid j'
     \<and> (remote_file j \<noteq> remote_file j' \<or> kind (job_tid j) = GET \<and> kind (job_tid j') = GET)"

lemma session_solo: "session (solo k)"
proof -
  have "solo GET = get_views" "solo WRITE = upload_views" "solo RM = rm_views"
    by (simp_all add: solo_def fun_eq_iff)
  then show ?thesis
    using get_file.session_axioms upload.session_axioms rm_file.session_axioms by (cases k) simp_all
qed

interpretation solo_session: session "solo k" for k
  by (rule session_solo)

lemma solo_server:
  assumes "solo k (renumbered m j) n (b, p, w)" and "alike k j s b" and "sound_names s"
    and "k = WRITE \<Longrightarrow> parse_perm (job_perm j) = READ_WRITE"
  shows "both k j (sstep (s, p, w)) (sstep (b, p, w))"
proof -
  have "part_of k (renumbered m j) b p" by (rule solo_part [OF assms(1)])
  moreover have "alike k (renumbered m j) s b" using assms(2) by (simp add: alike_def)
  ultimately have "both k (renumbered m j) (sstep (s, p, w)) (sstep (b, p, w))"
    using part_step [of k "renumbered m j" b p s w] assms(3,4) by simp
  then show ?thesis by (simp add: alike_def)
qed

lemma solo_elsewhere:
  assumes "solo k (renumbered m j) n (b, p, w)" and "alike k j s b" and "sound_names s"
    and "k = WRITE \<Longrightarrow> parse_perm (job_perm j) = READ_WRITE" and "sstep (s, p, w) = Some (s', w')"
  shows "same_rules s s'"
    and "u \<noteq> job_tid j \<Longrightarrow> f \<noteq> remote_file j \<or> k = GET \<and> k' = GET \<Longrightarrow> free_of (job_tid j) (look k' u f s) \<Longrightarrow>
      look k' u f s' = look k' u f s"
proof -
  have p: "part_of k (renumbered m j) b p" by (rule solo_part [OF assms(1)])
  have al: "alike k (renumbered m j) s b" using assms(2) by (simp add: alike_def)
  note st = step_elsewhere [OF p al assms(3) _ assms(5)]
  show "same_rules s s'" using st(1) assms(4) by simp
  show "u \<noteq> job_tid j \<Longrightarrow> f \<noteq> remote_file j \<or> k = GET \<and> k' = GET \<Longrightarrow> free_of (job_tid j) (look k' u f s) \<Longrightarrow>
      look k' u f s' = look k' u f s" using st(2) assms(4) by simp
qed

text \<open>A connection holds no lock of the file of another one.\<close>

lemma alike_free:
  assumes "alike k j s b" and "own_locks_only (job_tid j) b" and "t \<noteq> job_tid j"
  shows "free_of t (look k (job_tid j) (remote_file j) s)"
proof -
  have "look k (job_tid j) (remote_file j) s = look k (job_tid j) (remote_file j) b" using assms(1) by (simp add: alike_def)
  moreover have "writer b i \<noteq> Some t" "t \<notin> readers b i" for i
  proof -
    have "writer b i \<in> {None, Some (job_tid j)}" "readers b i \<subseteq> {job_tid j}"
      using assms(2) by (simp_all add: own_locks_only_def)
    with assms(3) show "writer b i \<noteq> Some t" "t \<notin> readers b i" by auto
  qed
  ultimately show ?thesis by (auto simp: free_of_def look_def split: option.splits)
qed

lemma as_alone_kept:
  assumes "as_alone k j n (s, w)" and "look k (job_tid j) (remote_file j) s' = look k (job_tid j) (remote_file j) s"
    and "same_rules s s'" and "k = WRITE \<Longrightarrow> roomy j"
  shows "as_alone k j n (s', w)"
proof -
  obtain m b where b: "solo k (renumbered m j) n (b, w)" "alike k j s b" using assms(1) by (auto simp: as_alone_def)
  have rules: "same_rules s' b" using b(2) assms(3) by (simp add: alike_def same_rules_def)
  have names: "names s' (remote_file j) = names b (remote_file j)"
    using b(2) assms(2) by (auto simp: alike_def look_def map_option_case split: option.splits)
  show ?thesis
  proof (cases "k = WRITE \<and> names b (remote_file j) = None")
    case True
    then have "upload_views (renumbered (next_inode s') j) n (b\<lparr>next_inode := next_inode s'\<rparr>, w)"
      using upload_renumbered [of "renumbered m j" n b w "next_inode s'"] b(1) assms(4) by (simp add: solo_def roomy_def)
    moreover have "alike k j s' (b\<lparr>next_inode := next_inode s'\<rparr>)"
      using True names rules by (simp add: alike_def look_def same_rules_def)
    ultimately show ?thesis using True unfolding as_alone_def solo_def by auto
  next
    case False
    then have "alike k j s' b" using b(2) assms(2) rules names by (auto simp: alike_def)
    with b(1) show ?thesis by (auto simp: as_alone_def)
  qed
qed

lemma mixed_server:
  assumes v: "mixed_views kind j n v" and st: "sstep v = Some v'"
  shows "\<exists>k<n. mixed_views kind j k v'"
proof -
  obtain s p w where vs: "v = (s, p, w)" by (cases v)
  let ?k = "kind (job_tid j)"
  obtain m b where b: "solo ?k (renumbered m j) n (b, p, w)" "alike ?k j s b"
    and so: "sound_names s" and rw: "?k = WRITE \<longrightarrow> parse_perm (job_perm j) = READ_WRITE \<and> roomy j"
    using v by (auto simp: mixed_views_def as_alone_def vs)
  have rel: "both ?k j (sstep (s, p, w)) (sstep (b, p, w))" using solo_server [OF b so] rw by simp
  obtain s' w' where v': "v' = (s', w')" by (cases v')
  with rel st obtain b' where b': "sstep (b, p, w) = Some (b', w')" "alike ?k j s' b'" "sound_names s'"
    by (auto simp: vs option_rel_Some1)
  with solo_session.server_view [OF b(1)] obtain k where "k < n" "solo ?k (renumbered m j) k (b', w')" by blast
  with b'(2,3) rw show ?thesis by (auto simp: mixed_views_def as_alone_def v')
qed

lemma mixed_client:
  assumes v: "mixed_views kind j n v" and st: "cstep v = Some v'"
  shows "\<exists>k<n. mixed_views kind j k v'"
proof -
  obtain s w s' w' where vs: "v = (s, w)" "v' = (s', w')" by (cases v; cases v')
  let ?k = "kind (job_tid j)"
  obtain m b where b: "solo ?k (renumbered m j) n (b, w)" "alike ?k j s b" using v by (auto simp: mixed_views_def as_alone_def vs)
  have "s' = s" using st cstep_keeps by (simp add: vs)
  moreover have "cstep (b, w) = Some (b, w')" using cstep_own [of s w v' "\<lambda>_. b"] st by (simp add: vs)
  with solo_session.client_view [OF b(1)] obtain k where "k < n" "solo ?k (renumbered m j) k (b, w')" by blast
  ultimately show ?thesis using v b(2) by (auto simp: mixed_views_def as_alone_def vs)
qed

lemma mixed_progress:
  assumes v: "mixed_views kind j (Suc n) v"
  shows "sstep v \<noteq> None \<or> cstep v \<noteq> None"
proof -
  obtain s p w where vs: "v = (s, p, w)" by (cases v)
  let ?k = "kind (job_tid j)"
  obtain m b where b: "solo ?k (renumbered m j) (Suc n) (b, p, w)" "alike ?k j s b"
    and so: "sound_names s" and rw: "?k = WRITE \<longrightarrow> parse_perm (job_perm j) = READ_WRITE \<and> roomy j"
    using v by (auto simp: mixed_views_def as_alone_def vs)
  have "both ?k j (sstep (s, p, w)) (sstep (b, p, w))" using solo_server [OF b so] rw by simp
  then have "sstep (b, p, w) \<noteq> None \<Longrightarrow> sstep v \<noteq> None" by (auto simp: vs option_rel_Some2)
  with solo_session.progress [OF b(1)] cstep_none [of b "(p, w)" s] show ?thesis by (auto simp: vs)
qed

lemma mixed_elsewhere:
  assumes v: "mixed_views kind j n (s, w)" and st: "sstep (s, w) = Some (s', w')"
  shows "same_rules s s'"
    and "u \<noteq> job_tid j \<Longrightarrow> f \<noteq> remote_file j \<or> kind (job_tid j) = GET \<and> k' = GET \<Longrightarrow>
      free_of (job_tid j) (look k' u f s) \<Longrightarrow> look k' u f s' = look k' u f s"
proof -
  obtain p r where w: "w = (p, r)" by (cases w)
  let ?k = "kind (job_tid j)"
  obtain m b where b: "solo ?k (renumbered m j) n (b, p, r)" "alike ?k j s b"
    and so: "sound_names s" and rw: "?k = WRITE \<longrightarrow> parse_perm (job_perm j) = READ_WRITE"
    using v by (auto simp: mixed_views_def as_alone_def w)
  note other = solo_elsewhere [OF b so _ st [unfolded w]]
  show "same_rules s s'" using other(1) rw by simp
  show "u \<noteq> job_tid j \<Longrightarrow> f \<noteq> remote_file j \<or> ?k = GET \<and> k' = GET \<Longrightarrow>
      free_of (job_tid j) (look k' u f s) \<Longrightarrow> look k' u f s' = look k' u f s" using other(2) rw by simp
qed

lemma mixed_undisturbed:
  assumes "apart kind j j'" and v: "mixed_views kind j n (s, w)" and v': "mixed_views kind j' k (s, w')"
    and st: "sstep (s, w) = Some (s', w'')"
  shows "mixed_views kind j' k (s', w')"
proof -
  let ?k = "kind (job_tid j)" and ?k' = "kind (job_tid j')"
  obtain m b where b: "solo ?k' (renumbered m j') k (b, w')" "alike ?k' j' s b" and al: "as_alone ?k' j' k (s, w')"
    using v' by (auto simp: mixed_views_def as_alone_def)
  have ap: "job_tid j' \<noteq> job_tid j" "remote_file j' \<noteq> remote_file j \<or> ?k = GET \<and> ?k' = GET"
    using assms(1) by (auto simp: apart_def)
  have "free_of (job_tid j) (look ?k' (job_tid j') (remote_file j') s)"
    using alike_free [OF b(2)] solo_locks [OF b(1)] ap(1) by simp
  then have look: "look ?k' (job_tid j') (remote_file j') s' = look ?k' (job_tid j') (remote_file j') s"
    by (rule mixed_elsewhere(2) [OF v st ap])
  have "as_alone ?k' j' k (s', w')"
    by (rule as_alone_kept [OF al look mixed_elsewhere(1) [OF v st]]) (use v' in \<open>simp add: mixed_views_def\<close>)
  moreover obtain k2 where "mixed_views kind j k2 (s', w'')" using mixed_server [OF v st] by blast
  ultimately show ?thesis using v' by (simp add: mixed_views_def)
qed

interpretation mixed: parallel_sessions "mixed_views kind" "apart kind" for kind
  using mixed_server mixed_client mixed_progress mixed_undisturbed by unfold_locales blast+

section \<open>The result\<close>

definition request_args :: "request \<Rightarrow> job \<Rightarrow> string list" where
  "request_args k j = (case k of GET \<Rightarrow> get_args j | WRITE \<Rightarrow> write_args j | RM \<Rightarrow> rm_args j)"

text \<open>The request can be served: for an upload there is room whatever inode the file gets.\<close>

definition request_ok :: "request \<Rightarrow> job \<Rightarrow> bool" where
  "request_ok k j \<longleftrightarrow> (case k of
       GET \<Rightarrow> get_ok j
     | WRITE \<Rightarrow> uploadable j \<and> parse_perm (job_perm j) = READ_WRITE \<and> roomy j
     | RM \<Rightarrow> rm_ok j)"

text \<open>The files of the server as a map from paths to contents, and what a request does to them.\<close>

definition stored_files :: "server \<Rightarrow> string list \<Rightarrow> char list option" where
  "stored_files s f = map_option (contents s) (names s f)"

definition change :: "request \<Rightarrow> job \<Rightarrow> char list option \<Rightarrow> char list option" where
  "change k j x = (case k of
       GET \<Rightarrow> x
     | WRITE \<Rightarrow> Some (take 1024 (the (local (job_client j) (job_local j))))
     | RM \<Rightarrow> if removable j then None else x)"

definition effect :: "request \<Rightarrow> job \<Rightarrow> (string list \<Rightarrow> char list option) \<Rightarrow> string list \<Rightarrow> char list option" where
  "effect k j fs = fs(remote_file j := change k j (fs (remote_file j)))"

text \<open>What the client is left with.\<close>

definition outcomes :: "request \<Rightarrow> job \<Rightarrow> client set" where
  "outcomes k j = (case k of
       GET \<Rightarrow> {downloaded j (payload j), downloaded j (drop 1008 (payload j))}
     | WRITE \<Rightarrow> {(job_client j)\<lparr>printed := printed (job_client j) @ [final_line], status := Some 0\<rparr>}
     | RM \<Rightarrow> {(job_client j)\<lparr>printed := printed (job_client j) @ [rm_report j], status := Some 0\<rparr>})"

lemma renumbered_results:
  "downloaded (renumbered m j) r = downloaded j r" "payload (renumbered m j) = payload j"
  "removable (renumbered m j) = removable j" "rm_answer (renumbered m j) = rm_answer j"
  by (simp_all add: downloaded_def payload_def inode_of_def read_start_def removable_def rm_answer_def)

lemma solo_end:
  assumes "solo k (renumbered m j) 0 (b, p, q, mc, w)"
  shows "p = Close" and "q = Close" and "mc \<in> outcomes k j"
    and "stored_files b (remote_file j) = change k j (stored_files (job_srv j) (remote_file j))"
proof -
  have "p = Close \<and> q = Close \<and> mc \<in> outcomes k j
      \<and> stored_files b (remote_file j) = change k j (stored_files (job_srv j) (remote_file j))"
  proof (cases k)
    case GET
    with assms have "get_views (renumbered m j) 0 (b, p, q, mc, w)" by (simp add: solo_def)
    from get_end [OF this] GET show ?thesis
      by (auto simp: outcomes_def change_def renumbered_results rest_ok_def stored_files_def)
  next
    case WRITE
    with assms have v: "upload_views (renumbered m j) 0 (b, p, q, mc, w)" by (simp add: solo_def)
    then have "uploadable (renumbered m j)" by (auto elim: upload_views.cases)
    from uploaded_simps(1,2) [OF this] v WRITE show ?thesis
      by (auto simp: outcomes_def change_def stored_files_def elim!: upload_views.cases)
  next
    case RM
    with assms have "rm_views (renumbered m j) 0 (b, p, q, mc, w)" by (simp add: solo_def)
    from rm_end [OF this] RM show ?thesis
      by (simp add: outcomes_def change_def renumbered_results removed_def stored_files_def)
  qed
  then show "p = Close" "q = Close" "mc \<in> outcomes k j"
    "stored_files b (remote_file j) = change k j (stored_files (job_srv j) (remote_file j))" by blast+
qed

text \<open>A serial run, file by file.\<close>

lemma fold_untouched:
  "\<forall>u \<in> set ts. remote_file (j u) \<noteq> f \<or> kind u = GET \<Longrightarrow> fold (\<lambda>t. effect (kind t) (j t)) ts fs f = fs f"
proof (induction ts arbitrary: fs)
  case (Cons a ts)
  then have "effect (kind a) (j a) fs f = fs f" by (auto simp: effect_def change_def)
  with Cons show ?case by simp
qed simp

lemma fold_touched:
  assumes "distinct ts" and "t \<in> set ts"
    and "\<forall>t \<in> set ts. \<forall>u \<in> set ts. t \<noteq> u \<longrightarrow> remote_file (j t) \<noteq> remote_file (j u) \<or> kind t = GET \<and> kind u = GET"
  shows "fold (\<lambda>t. effect (kind t) (j t)) ts fs (remote_file (j t)) = change (kind t) (j t) (fs (remote_file (j t)))"
  using assms
proof (induction ts arbitrary: fs)
  case (Cons a ts)
  let ?f = "remote_file (j t)"
  show ?case
  proof (cases "a = t")
    case True
    have "remote_file (j u) \<noteq> ?f \<or> kind u = GET" if "u \<in> set ts" for u
    proof -
      have "u \<noteq> t" using that Cons.prems(1) True by auto
      with that Cons.prems(3) True show ?thesis by fastforce
    qed
    then have "fold (\<lambda>t. effect (kind t) (j t)) ts (effect (kind a) (j a) fs) ?f = effect (kind a) (j a) fs ?f"
      by (intro fold_untouched) blast
    moreover have "effect (kind a) (j a) fs ?f = change (kind t) (j t) (fs ?f)" by (simp add: effect_def True)
    ultimately show ?thesis by simp
  next
    case False
    with Cons.prems have t: "t \<in> set ts" by simp
    have "remote_file (j a) \<noteq> ?f \<or> kind a = GET" using Cons.prems(3) t False by auto
    then have "effect (kind a) (j a) fs ?f = fs ?f" by (auto simp: effect_def change_def)
    with Cons.IH [OF _ t] Cons.prems show ?thesis by simp
  qed
qed simp

text \<open>The connections at the start, and the files at the end.\<close>

lemma alike_refl: "alike k j s s"
  by (simp add: alike_def same_rules_refl)

lemma renumbered_same: "renumbered (next_inode (job_srv j)) j = j"
  by (simp add: renumbered_def)

lemma solo_start:
  assumes "request_ok k j"
  shows "\<exists>n. solo k j n (job_srv j, client_thread (job_tid j), main (request_args k j), job_client j, [], [])"
  using assms get_views.g14 [of j] upload_start [of j] rm_views.m11 [of j]
  by (cases k) (auto simp: request_ok_def request_args_def solo_def)

abbreviation all_apart :: "tid set \<Rightarrow> (tid \<Rightarrow> request) \<Rightarrow> (tid \<Rightarrow> job) \<Rightarrow> bool" where
  "all_apart T kind j \<equiv> \<forall>t \<in> T. \<forall>u \<in> T. t \<noteq> u \<longrightarrow>
     remote_file (j t) \<noteq> remote_file (j u) \<or> kind t = GET \<and> kind u = GET"

abbreviation requests :: "tid set \<Rightarrow> (tid \<Rightarrow> request) \<Rightarrow> (tid \<Rightarrow> job) \<Rightarrow> server \<Rightarrow> network" where
  "requests T kind j s \<equiv>
     connect s (\<lambda>t. if t \<in> T then request_args (kind t) (j t) else []) (\<lambda>t. job_client (j t))"

lemma mixed_start:
  assumes jobs: "\<forall>t \<in> T. job_tid (j t) = t \<and> job_srv (j t) = s \<and> request_ok (kind t) (j t)"
    and "all_apart T kind j" and so: "sound_names s"
  shows "mixed.running kind T j (requests T kind j s)"
proof -
  have "\<exists>n. mixed_views kind (j t) n (view_of t (requests T kind j s))" if "t \<in> T" for t
  proof -
    have t: "job_tid (j t) = t" "job_srv (j t) = s" "request_ok (kind t) (j t)" using jobs that by simp_all
    obtain n where "solo (kind t) (j t) n (s, client_thread t, main (request_args (kind t) (j t)), job_client (j t), [], [])"
      using solo_start [OF t(3)] t(1,2) by auto
    moreover have "renumbered (next_inode s) (j t) = j t" using renumbered_same [of "j t"] t(2) by simp
    ultimately have "as_alone (kind t) (j t) n (view_of t (requests T kind j s))"
      unfolding as_alone_def using alike_refl that
      by (intro exI [of _ "next_inode s"] exI [of _ s]) (simp add: view_of_def connect_def)
    then show ?thesis
      using so t by (auto simp: mixed_views_def request_ok_def view_of_def connect_def split: request.splits)
  qed
  then show ?thesis
    using assms(1,2) by (auto simp: mixed.running_def apart_def idle_client_def connect_def main_def)
qed

text \<open>Files that no request is about, and the permissions.\<close>

lemma mixed_others:
  assumes start: "mixed.running kind T j c0" and run: "reachable c0 c" and free: "no_locks (srv c0)"
  shows "same_rules (srv c0) (srv c)"
    and "\<forall>t \<in> T. remote_file (j t) \<noteq> f \<Longrightarrow> stored_files (srv c) f = stored_files (srv c0) f"
proof -
  show "same_rules (srv c0) (srv c)"
  proof (rule mixed.server_kept [OF run start])
    fix t n s w s' w'
    assume "mixed_views kind (j t) n (s, w)" and "sstep (s, w) = Some (s', w')" and "same_rules (srv c0) s"
    then show "same_rules (srv c0) s'" using mixed_elsewhere(1) same_rules_trans by blast
  qed (rule same_rules_refl)
  assume f: "\<forall>t \<in> T. remote_file (j t) \<noteq> f"
  have "look WRITE 0 f (srv c) = look WRITE 0 f (srv c0)"
  proof (rule mixed.server_kept [OF run start])
    fix t n s w s' w'
    assume t: "t \<in> T" and v: "mixed_views kind (j t) n (s, w)" and st: "sstep (s, w) = Some (s', w')"
      and l: "look WRITE 0 f s = look WRITE 0 f (srv c0)"
    let ?u = "Suc (job_tid (j t))"
    have any: "look WRITE 0 f s1 = look WRITE ?u f s1" for s1 by (simp add: look_def)
    have "free_of (job_tid (j t)) (look WRITE ?u f s)"
      using free unfolding any [symmetric] l by (auto simp: free_of_def look_def no_locks_def split: option.splits)
    moreover have "f \<noteq> remote_file (j t)" using f t by auto
    ultimately have "look WRITE ?u f s' = look WRITE ?u f s"
      using mixed_elsewhere(2) [OF v st, of ?u f WRITE] by simp
    with l show "look WRITE 0 f s' = look WRITE 0 f (srv c0)" unfolding any by simp
  qed (rule HOL.refl)
  then show "stored_files (srv c) f = stored_files (srv c0) f"
    by (auto simp: look_def stored_files_def map_option_case split: option.splits)
qed

lemma mixed_end:
  assumes "mixed.running kind T j c" and "t \<in> T" and "ended t c"
  shows "thread c t = Close" and "peer c t = Close" and "machine c t \<in> outcomes (kind t) (j t)"
    and "stored_files (srv c) (remote_file (j t)) = change (kind t) (j t) (stored_files (job_srv (j t)) (remote_file (j t)))"
proof -
  have "mixed_views kind (j t) 0 (view_of t c)" "job_tid (j t) = t"
    using assms mixed.ended_running [OF assms(1,2)] by (simp_all add: mixed.running_def)
  then obtain m b where b: "solo (kind t) (renumbered m (j t)) 0 (b, snd (view_of t c))" "alike (kind t) (j t) (srv c) b"
    by (auto simp: mixed_views_def as_alone_def view_of_def)
  note e = solo_end [OF b(1) [unfolded view_of_def snd_conv]]
  show "thread c t = Close" "peer c t = Close" "machine c t \<in> outcomes (kind t) (j t)" by (rule e(1-3))+
  have "stored_files (srv c) (remote_file (j t)) = stored_files b (remote_file (j t))"
    using b(2) by (auto simp: alike_def look_def stored_files_def map_option_case split: option.splits)
  with e(4) show "stored_files (srv c) (remote_file (j t)) = change (kind t) (j t) (stored_files (job_srv (j t)) (remote_file (j t)))"
    by simp
qed

text \<open>When all have ended, no lock is left.\<close>

lemma ended_free: "disciplined t h p \<Longrightarrow> p \<in> {client_thread t, Close} \<Longrightarrow> h = Free"
proof -
  have close: "disciplined t h Close \<Longrightarrow> h = Free" by (auto elim: disciplined_via.cases)
  assume "disciplined t h p" "p \<in> {client_thread t, Close}"
  then show "h = Free"
    unfolding client_thread_def using close by (auto elim!: disciplined_RecvE dest: spec [of _ "[]"])
qed

lemma mixed_no_locks:
  assumes "mixed.running kind T j c" and "lock_inv c" and "\<forall>t \<in> T. ended t c"
  shows "no_locks (srv c)"
proof -
  obtain hs where hs: "lock_state (srv c) hs" "\<And>t. disciplined t (hs t) (thread c t)" using assms(2) by (auto simp: lock_inv_def)
  have "hs t = Free" for t
  proof (rule ended_free [OF hs(2)])
    show "thread c t \<in> {client_thread t, Close}"
      using assms(1,3) mixed_end(1) [OF assms(1)] by (cases "t \<in> T") (auto simp: mixed.running_def idle_client_def)
  qed
  then have "writer (srv c) i \<noteq> Some t" "t \<notin> readers (srv c) i" for i t
    using lock_stateD(1,2) [OF hs(1)] by simp_all
  then show ?thesis unfolding no_locks_def by (meson equals0I not_Some_eq)
qed

lemma mixed_files:
  assumes r: "mixed.running kind T j c" and "all_apart T kind j" and "\<forall>t \<in> T. job_srv (j t) = s \<and> ended t c"
    and others: "\<And>f. \<forall>t \<in> T. remote_file (j t) \<noteq> f \<Longrightarrow> stored_files (srv c) f = stored_files s f"
    and ts: "distinct ts" "set ts = T"
  shows "stored_files (srv c) = fold (\<lambda>t. effect (kind t) (j t)) ts (stored_files s)"
proof
  fix f
  show "stored_files (srv c) f = fold (\<lambda>t. effect (kind t) (j t)) ts (stored_files s) f"
  proof (cases "\<exists>t \<in> T. remote_file (j t) = f")
    case True
    then obtain t where t: "t \<in> T" "remote_file (j t) = f" by blast
    have "fold (\<lambda>t. effect (kind t) (j t)) ts (stored_files s) f = change (kind t) (j t) (stored_files s f)"
      using fold_touched [OF ts(1), of t j kind] t assms(2) ts(2) by simp
    with mixed_end(4) [OF r t(1)] t assms(3) show ?thesis by simp
  next
    case False
    then have "fold (\<lambda>t. effect (kind t) (j t)) ts (stored_files s) f = stored_files s f"
      by (intro fold_untouched) (use ts(2) in blast)
    with others [of f] False show ?thesis by auto
  qed
qed

text \<open>Uploads, downloads and removals of any number of clients at the same time, with the request read in
  one step (\<open>Rfs_Requests\<close> carries this over to threads that call \<open>strtok\<close>): each connection can come to rest
  from every state, a client that has ended is left with what it gets alone, and when all have ended the
  files are those after serving the requests one after the other, in any order.\<close>

theorem mixed_requests:
  assumes jobs: "\<forall>t \<in> T. job_tid (j t) = t \<and> job_srv (j t) = s \<and> request_ok (kind t) (j t)"
    and apart: "\<forall>t \<in> T. \<forall>u \<in> T. t \<noteq> u \<longrightarrow> remote_file (j t) \<noteq> remote_file (j u) \<or> kind t = GET \<and> kind u = GET"
    and sound: "sound_names s" and free: "no_locks s"
    and run: "reachable (connect s (\<lambda>t. if t \<in> T then request_args (kind t) (j t) else []) (\<lambda>t. job_client (j t))) c"
  shows "(\<forall>t \<in> T. \<exists>c'. reachable c c' \<and> ended t c') \<and> (finite T \<longrightarrow> (\<exists>c'. reachable c c' \<and> (\<forall>t \<in> T. ended t c')))
    \<and> (\<forall>t \<in> T. ended t c \<longrightarrow> thread c t = Close \<and> peer c t = Close \<and> machine c t \<in> outcomes (kind t) (j t))
    \<and> (\<forall>q. get_file_permission (tab (srv c)) q = get_file_permission (tab s) q)
    \<and> ((\<forall>t \<in> T. ended t c) \<longrightarrow> no_locks (srv c)
        \<and> (\<forall>ts. distinct ts \<and> set ts = T \<longrightarrow>
             stored_files (srv c) = fold (\<lambda>t. effect (kind t) (j t)) ts (stored_files s)))"
proof -
  have start: "mixed.running kind T j (requests T kind j s)" by (rule mixed_start [OF jobs apart sound])
  have r: "mixed.running kind T j c" by (rule mixed.running_reachable [OF run start])
  have s: "srv (requests T kind j s) = s" by (simp add: connect_def)
  note others = mixed_others [OF start run, unfolded s, OF free]
  have "lock_inv c" by (rule lock_inv_reachable [OF run lock_inv_connect [OF free]])
  then have "\<forall>t \<in> T. ended t c \<Longrightarrow> no_locks (srv c)" by (rule mixed_no_locks [OF r])
  moreover have "stored_files (srv c) = fold (\<lambda>t. effect (kind t) (j t)) ts (stored_files s)"
    if "\<forall>t \<in> T. ended t c" "distinct ts \<and> set ts = T" for ts
    by (rule mixed_files [OF r apart _ others(2)]) (use jobs that in auto)
  moreover have "\<forall>q. get_file_permission (tab (srv c)) q = get_file_permission (tab s) q"
    using others(1) by (simp add: same_rules_def)
  moreover have "\<forall>t \<in> T. ended t c \<longrightarrow> thread c t = Close \<and> peer c t = Close \<and> machine c t \<in> outcomes (kind t) (j t)"
    using mixed_end(1-3) [OF r] by blast
  ultimately show ?thesis using mixed.can_end_running [OF r] mixed.all_can_end [OF r, of T] by blast
qed

section \<open>An example\<close>

text \<open>Connections 3 and 4 fetch \<open>b.txt\<close> while 5 stores \<open>c.txt\<close> and 6 removes \<open>d.txt\<close>.\<close>

definition busy_server :: server where
  "busy_server = sample_server\<lparr>names := [file_of (full_path ''b.txt'') \<mapsto> 5, file_of (full_path ''d.txt'') \<mapsto> 6],
     contents := (\<lambda>_. [])(5 := ''hello'', 6 := ''old'')\<rparr>"

definition busy_kind :: "tid \<Rightarrow> request" where
  "busy_kind t = (if t = 5 then WRITE else if t = 6 then RM else GET)"

definition busy_job :: "tid \<Rightarrow> job" where
  "busy_job t = \<lparr>job_tid = t, job_local = ''a.txt'',
     job_remote = (if t = 5 then ''c.txt'' else if t = 6 then ''d.txt'' else ''b.txt''), job_perm = None,
     job_srv = busy_server, job_client = sample_client\<rparr>"

lemma busy_paths:
  "file_of (full_path ''b.txt'') = [''server_data'', ''b.txt'']" "file_of (full_path ''c.txt'') = [''server_data'', ''c.txt'']"
  "file_of (full_path ''d.txt'') = [''server_data'', ''d.txt'']"
  by code_simp+

lemma busy_fields:
  "job_tid (busy_job t) = t" "job_local (busy_job t) = ''a.txt''" "job_perm (busy_job t) = None"
  "job_srv (busy_job t) = busy_server" "job_client (busy_job t) = sample_client"
  "job_remote (busy_job 5) = ''c.txt''" "job_remote (busy_job 6) = ''d.txt''"
  "t \<noteq> 5 \<Longrightarrow> t \<noteq> 6 \<Longrightarrow> job_remote (busy_job t) = ''b.txt''"
  by (simp_all add: busy_job_def)

lemma busy_word: "is_word ''c.txt''" "is_word ''d.txt''"
  by (simp_all add: is_word_def is_delim_def)

lemma busy_rights:
  "names busy_server = [[''server_data'', ''b.txt''] \<mapsto> 5, [''server_data'', ''d.txt''] \<mapsto> 6]"
  "contents busy_server = (\<lambda>_. [])(5 := ''hello'', 6 := ''old'')" "next_inode busy_server = 7"
  "can_create busy_server f" "can_write busy_server f" "can_read busy_server f" "can_remove busy_server f"
  "flock_works busy_server f" "free_space busy_server i = 4096" "get_file_permission (tab busy_server) q = READ_WRITE"
  by (simp_all add: busy_server_def sample_server_def busy_paths get_known)

lemma busy_free: "no_locks busy_server"
  by (simp add: no_locks_def busy_server_def sample_server_def)

lemma busy_get: "t \<noteq> 5 \<Longrightarrow> t \<noteq> 6 \<Longrightarrow> get_ok (busy_job t)"
  by (simp add: get_ok_def get_line_def busy_fields busy_rights busy_free busy_paths sample_words sample_client_def)

lemma busy_write: "uploadable (busy_job 5) \<and> parse_perm (job_perm (busy_job 5)) = READ_WRITE \<and> roomy (busy_job 5)"
proof -
  have "good_request (busy_job 5)"
    by (simp add: good_request_def write_line_def busy_fields sample_words busy_word)
  moreover have "parse_perm None = READ_WRITE" by (simp add: parse_perm_def)
  moreover from this have "accepted (busy_job 5)"
    by (simp add: accepted_def busy_fields set_default busy_rights)
  ultimately show ?thesis
    by (simp add: upload_ok_def writable_def roomy_def busy_fields busy_rights busy_free busy_paths sample_client_def BUF_SIZE_def)
qed

lemma busy_rm: "rm_ok (busy_job 6)"
  by (simp add: rm_ok_def rm_line_def busy_fields busy_rights busy_free busy_paths busy_word)

lemma busy_ok: "request_ok (busy_kind t) (busy_job t)"
  using busy_get busy_write busy_rm by (simp add: busy_kind_def request_ok_def)

lemma busy_apart: "all_apart {3, 4, 5, 6} busy_kind busy_job"
  by (simp add: busy_kind_def busy_fields busy_paths)

lemma busy_sound: "sound_names busy_server"
  by (simp add: sound_names_def busy_rights) (simp add: busy_server_def sample_server_def)

lemma busy_args:
  "(\<lambda>t. if t \<in> {3, 4, 5, 6} then request_args (busy_kind t) (busy_job t) else []) =
    (\<lambda>t. if t \<in> {3, 4} then [''GET'', ''b.txt'', ''a.txt''] else if t = 5 then [''WRITE'', ''a.txt'', ''c.txt'']
       else if t = 6 then [''RM'', ''d.txt''] else [])"
  by (auto simp: fun_eq_iff request_args_def busy_kind_def get_args_def write_args_def rm_args_def busy_fields)

lemma busy_files:
  "fold (\<lambda>t. effect (busy_kind t) (busy_job t)) [3, 4, 5, 6] (stored_files busy_server) =
    [[''server_data'', ''b.txt''] \<mapsto> ''hello'', [''server_data'', ''c.txt''] \<mapsto> ''hello'']"
  by (auto simp: fun_eq_iff effect_def change_def busy_kind_def busy_fields busy_paths busy_rights stored_files_def
      removable_def sample_client_def)

theorem mixed_requests_witness:
  "\<exists>c. reachable (connect busy_server (\<lambda>t. if t \<in> {3, 4} then [''GET'', ''b.txt'', ''a.txt'']
         else if t = 5 then [''WRITE'', ''a.txt'', ''c.txt''] else if t = 6 then [''RM'', ''d.txt''] else []) (\<lambda>_. sample_client)) c
     \<and> no_locks (srv c) \<and> peer c 5 = Close
     \<and> stored_files (srv c) = [[''server_data'', ''b.txt''] \<mapsto> ''hello'', [''server_data'', ''c.txt''] \<mapsto> ''hello'']"
    (is "\<exists>c. reachable ?c0 c \<and> _ c")
proof -
  have "\<forall>t \<in> {3, 4, 5, 6}. job_tid (busy_job t) = t \<and> job_srv (busy_job t) = busy_server \<and> request_ok (busy_kind t) (busy_job t)"
    using busy_ok by (simp add: busy_fields)
  note th = mixed_requests [OF this busy_apart busy_sound busy_free, unfolded busy_args busy_fields(5)]
  obtain c where c: "reachable ?c0 c" "\<forall>t \<in> {3, 4, 5, 6}. ended t c" using th [OF reachable.refl] by blast
  have "distinct [3, 4, 5, 6 :: tid] \<and> set [3, 4, 5, 6] = {3, 4, 5, 6 :: tid}" by simp
  with th [OF c(1)] c(2)
  have "stored_files (srv c) = fold (\<lambda>t. effect (busy_kind t) (busy_job t)) [3, 4, 5, 6] (stored_files busy_server)" by blast
  then have "stored_files (srv c) = [[''server_data'', ''b.txt''] \<mapsto> ''hello'', [''server_data'', ''c.txt''] \<mapsto> ''hello'']"
    unfolding busy_files .
  moreover have "no_locks (srv c)" "peer c 5 = Close" using th [OF c(1)] c(2) by simp_all
  ultimately show ?thesis using c(1) by blast
qed

end
