(* ===== verification/Rfs_Strtok.thy ===== *)
theory Rfs_Strtok
  imports Rfs_Server
begin

text \<open>
  The command line of a request as \<open>client_thread\<close> (\<open>practicum2/server.c\<close>) really takes it apart: four calls
  of \<open>strtok\<close>, which writes NUL characters into the line and remembers its place in a static variable that
  all threads share. A thread that is not disturbed gets what \<open>tokens\<close> says; two threads that are
  served at the same time can get each other's arguments.
\<close>

section \<open>strtok\<close>

text \<open>A place is a thread, in whose buffer it is, and an index. \<open>calls\<close> lists what the calls of each thread
  returned.\<close>

type_synonym place = "tid \<times> nat"

record tokenizer =
  static :: "place option"
  bufs :: "tid \<Rightarrow> char list"
  calls :: "tid \<Rightarrow> place option list"

definition skip_while :: "(char \<Rightarrow> bool) \<Rightarrow> char list \<Rightarrow> nat \<Rightarrow> nat" where
  "skip_while f buf i = i + length (takeWhile f (drop i buf))"

definition char_at :: "char list \<Rightarrow> nat \<Rightarrow> char c" where
  "char_at buf i = (if i < length buf then Some (buf ! i) else None)"

text \<open>Delimiters are skipped; at the end of the string there is no token. Else the token ends at the next
  delimiter, which is overwritten with NUL, or at the end of the string.\<close>

definition strtok :: "tid option \<Rightarrow> tokenizer \<Rightarrow> (place option \<times> tokenizer) c" where
  "strtok arg s = do {
     (b, p) \<leftarrow> (case arg of Some t \<Rightarrow> Some (t, 0) | None \<Rightarrow> static s);
     let i = skip_while is_delim (bufs s b) p;
     c \<leftarrow> char_at (bufs s b) i;
     (if c = NUL then Some (None, s\<lparr>static := Some (b, i)\<rparr>)
      else do {
        let q = skip_while (\<lambda>c. \<not> is_delim c \<and> c \<noteq> NUL) (bufs s b) i;
        d \<leftarrow> char_at (bufs s b) q;
        (if d = NUL then Some (Some (b, i), s\<lparr>static := Some (b, q)\<rparr>)
         else Some (Some (b, i), s\<lparr>static := Some (b, q + 1), bufs := (bufs s)(b := (bufs s b)[q := NUL])\<rparr>))
      })
   }"

text \<open>The first call of a thread is for its own buffer, the others go on where the last call, of whatever
  thread, has stopped. A schedule lists the thread of each call.\<close>

definition call :: "tid \<Rightarrow> tokenizer \<Rightarrow> tokenizer c" where
  "call t s = do {
     (r, s) \<leftarrow> strtok (if calls s t = [] then Some t else None) s;
     Some (s\<lparr>calls := (calls s)(t := calls s t @ [r])\<rparr>)
   }"

fun run_calls :: "tid list \<Rightarrow> tokenizer \<Rightarrow> tokenizer c" where
  "run_calls [] s = Some s"
| "run_calls (t # ts) s = do { s \<leftarrow> call t s; run_calls ts s }"

text \<open>The string a pointer stands for, and what the thread does after its four calls.\<close>

definition string_at :: "tokenizer \<Rightarrow> place option \<Rightarrow> string option" where
  "string_at s p = map_option (\<lambda>(b, i). cstr (drop i (bufs s b))) p"

definition request_of :: "tid \<Rightarrow> tokenizer \<Rightarrow> server prog" where
  "request_of t s =
     run_command t (string_at s (calls s t ! 0)) (string_at s (calls s t ! 1))
       (string_at s (calls s t ! 2)) (string_at s (calls s t ! 3))"

section \<open>One call\<close>

lemma tokens_delim: "is_delim c \<Longrightarrow> tokens (c # s) = tokens s"
  by (simp add: tokens_def)

lemma tokens_skip: "tokens s = tokens (dropWhile is_delim s)"
  by (induction s) (simp_all add: tokens_delim)

lemma tokens_from_end: "cur \<noteq> [] \<Longrightarrow> is_delim c \<Longrightarrow> tokens_from cur (c # cs) = cur # tokens cs"
  by (simp add: tokens_def)

text \<open>The text left, as the next call sees it: nothing but delimiters, or a token and what follows it.\<close>

lemma text_cases:
  obtains ds where "r = ds" and "\<forall>c \<in> set ds. is_delim c" and "tokens r = []"
  | ds w where "r = ds @ w" and "\<forall>c \<in> set ds. is_delim c" and "w \<noteq> []" and "\<forall>c \<in> set w. \<not> is_delim c" and "tokens r = [w]"
  | ds w d r' where "r = ds @ w @ d # r'" and "\<forall>c \<in> set ds. is_delim c" and "w \<noteq> []" and "\<forall>c \<in> set w. \<not> is_delim c"
      and "is_delim d" and "tokens r = w # tokens r'"
proof -
  define ds where "ds = takeWhile is_delim r"
  define s where "s = dropWhile is_delim r"
  define w where "w = takeWhile (\<lambda>c. \<not> is_delim c) s"
  define z where "z = dropWhile (\<lambda>c. \<not> is_delim c) s"
  have r: "r = ds @ s" "s = w @ z" by (simp_all add: ds_def s_def w_def z_def)
  have ds: "\<forall>c \<in> set ds. is_delim c" unfolding ds_def by (auto dest: set_takeWhileD)
  have w: "\<forall>c \<in> set w. \<not> is_delim c" unfolding w_def by (auto dest: set_takeWhileD)
  have ts: "tokens r = tokens s" using tokens_skip s_def by simp
  have tz: "tokens s = tokens_from w z" unfolding r(2) tokens_def using w by (simp add: tokens_from_word)
  have ne: "s \<noteq> [] \<Longrightarrow> w \<noteq> []"
    using hd_dropWhile [of is_delim r] unfolding s_def [symmetric] w_def by (cases s) auto
  show thesis
  proof (cases "s = []")
    case True
    then show thesis using that(1) [of r] r ds ts by (simp add: tokens_def)
  next
    case False
    show thesis
    proof (cases z)
      case Nil
      then show thesis using that(2) [of ds w] r ds w ts tz ne False by simp
    next
      case (Cons d r')
      have "is_delim d" using hd_dropWhile [of "\<lambda>c. \<not> is_delim c" s] unfolding z_def [symmetric] Cons by simp
      then show thesis using that(3) [of ds w d r'] r ds w ts tz ne False Cons tokens_from_end by simp
    qed
  qed
qed

lemma skip_while_append:
  assumes "drop p buf = xs @ c # rest" and "\<forall>x \<in> set xs. f x" and "\<not> f c"
  shows "skip_while f buf p = p + length xs"
  using assms by (simp add: skip_while_def takeWhile_append2)

lemma char_at_drop: "drop p buf = xs @ c # rest \<Longrightarrow> char_at buf (p + length xs) = Some c"
proof -
  assume a: "drop p buf = xs @ c # rest"
  then have "length xs < length (drop p buf)" by simp
  then have "p + length xs < length buf" by simp
  moreover have "buf ! (p + length xs) = c" using a by (metis le_add1 nth_append_length nth_drop add_leD1 calculation less_imp_le)
  ultimately show ?thesis by (simp add: char_at_def)
qed

lemma is_delim_not_NUL: "\<not> is_delim NUL"
  by (simp add: is_delim_def)

text \<open>The strings that end at or before a place are not changed by calls that start there.\<close>

definition keeps :: "nat \<Rightarrow> char list \<Rightarrow> char list \<Rightarrow> bool" where
  "keeps p buf buf' \<longleftrightarrow> length buf' = length buf \<and>
     (\<forall>j \<le> p. j < length buf \<and> buf ! j = NUL \<longrightarrow> buf' ! j = NUL \<and> (\<forall>i \<le> j. cstr (drop i buf') = cstr (drop i buf)))"

lemma keeps_refl: "keeps p buf buf"
  by (simp add: keeps_def)

lemma keeps_trans: "keeps p a b \<Longrightarrow> keeps q b c \<Longrightarrow> p \<le> q \<Longrightarrow> keeps p a c"
  unfolding keeps_def by (metis order_trans)

lemma keeps_update:
  assumes "p \<le> q"
  shows "keeps p buf (buf[q := NUL])"
proof -
  have "cstr (drop i (buf[q := NUL])) = cstr (drop i buf)" if "j \<le> p" "j < length buf" "buf ! j = NUL" "i \<le> j" for i j
  proof (cases "j = q")
    case True
    then show ?thesis using that by (metis list_update_id)
  next
    case False
    with that assms have jq: "j < q" by simp
    have d: "drop i b = take (j - i) (drop i b) @ b ! j # drop (Suc j) b" if "length b = length buf" for b :: string
      using that \<open>i \<le> j\<close> \<open>j < length buf\<close> by (metis Cons_nth_drop_Suc append_take_drop_id drop_drop le_add_diff_inverse2)
    have t: "take (j - i) (drop i (buf[q := NUL])) = take (j - i) (drop i buf)"
      using jq \<open>i \<le> j\<close> by (metis drop_take take_update_cancel less_imp_le le_add_diff_inverse add.commute)
    have "cstr (xs @ NUL # ys) = cstr (xs @ NUL # zs)" for xs ys zs by (simp add: cstr_def takeWhile_tail)
    then show ?thesis using d [of buf] d [of "buf[q := NUL]"] t that(3) jq by (metis length_list_update nth_list_update_neq less_irrefl)
  qed
  moreover have "buf[q := NUL] ! j = NUL" if "j < length buf" "buf ! j = NUL" for j
    using that by (cases "j = q") simp_all
  ultimately show ?thesis by (simp add: keeps_def)
qed

definition text_at :: "char list \<Rightarrow> nat \<Rightarrow> string \<Rightarrow> bool" where
  "text_at buf p r \<longleftrightarrow> no_nul r \<and> (\<exists>rest. drop p buf = r @ NUL # rest)"

lemma drop_more: "drop p buf = xs @ ys \<Longrightarrow> drop (p + length xs) buf = ys"
  by (metis add.commute append_eq_conv_conj drop_drop)

text \<open>A pointer into a buffer whose string ends at or before the place.\<close>

definition ends_by :: "nat \<Rightarrow> tid \<Rightarrow> char list \<Rightarrow> place option \<Rightarrow> bool" where
  "ends_by p b buf r \<longleftrightarrow> (\<forall>x. r = Some x \<longrightarrow> fst x = b \<and> (\<exists>j \<ge> snd x. j \<le> p \<and> j < length buf \<and> buf ! j = NUL))"

definition call_ok :: "tokenizer \<Rightarrow> tid \<Rightarrow> nat \<Rightarrow> string \<Rightarrow> place option \<Rightarrow> tokenizer \<Rightarrow> bool" where
  "call_ok s b p r res s' \<longleftrightarrow>
     (\<exists>p' r'. static s' = Some (b, p') \<and> p \<le> p' \<and> text_at (bufs s' b) p' r' \<and> tokens r' = tl (tokens r)
        \<and> ends_by p' b (bufs s' b) res)
     \<and> string_at s' res = nth_token 0 (tokens r) \<and> calls s' = calls s
     \<and> (\<forall>b'. b' \<noteq> b \<longrightarrow> bufs s' b' = bufs s b') \<and> keeps p (bufs s b) (bufs s' b)"

lemma strtok_end:
  assumes "static s = Some (b, p)" and "drop p (bufs s b) = r @ NUL # rest" and "\<forall>c \<in> set r. is_delim c"
  shows "strtok None s = Some (None, s\<lparr>static := Some (b, p + length r)\<rparr>)"
  using assms(1) skip_while_append [OF assms(2,3) is_delim_not_NUL] char_at_drop [OF assms(2)]
  by (simp add: strtok_def)

lemma strtok_word:
  assumes "static s = Some (b, p)" and "drop p (bufs s b) = ds @ w @ d # rest" and "\<forall>c \<in> set ds. is_delim c"
    and "w \<noteq> []" and "\<forall>c \<in> set w. \<not> is_delim c \<and> c \<noteq> NUL" and "is_delim d \<or> d = NUL"
  defines "i \<equiv> p + length ds" and "q \<equiv> p + length ds + length w"
  shows "strtok None s = Some (Some (b, i),
    if d = NUL then s\<lparr>static := Some (b, q)\<rparr>
    else s\<lparr>static := Some (b, q + 1), bufs := (bufs s)(b := (bufs s b)[q := NUL])\<rparr>)"
proof -
  obtain c w' where w: "w = c # w'" using assms(4) by (cases w) auto
  have c: "\<not> is_delim c" "c \<noteq> NUL" using assms(5) w by auto
  have d1: "drop p (bufs s b) = ds @ c # w' @ d # rest" using assms(2) w by simp
  have d2: "drop i (bufs s b) = w @ d # rest" using drop_more [of p "bufs s b" ds] assms(2) i_def by simp
  have "skip_while is_delim (bufs s b) p = i" "char_at (bufs s b) i = Some c"
    using skip_while_append [OF d1 assms(3) c(1)] char_at_drop [OF d1] by (simp_all add: i_def)
  moreover have "skip_while (\<lambda>c. \<not> is_delim c \<and> c \<noteq> NUL) (bufs s b) i = q" "char_at (bufs s b) q = Some d"
    using skip_while_append [OF d2 assms(5)] char_at_drop [OF d2] assms(6) by (auto simp: i_def q_def)
  ultimately show ?thesis using assms(1) c(2) by (simp add: strtok_def)
qed

lemma strtok_last_ok:
  assumes "static s = Some (b, p)" and d: "drop p (bufs s b) = ds @ w @ NUL # rest"
    and ds: "\<forall>c \<in> set ds. is_delim c" and "w \<noteq> []" and w: "\<forall>c \<in> set w. \<not> is_delim c \<and> c \<noteq> NUL"
    and t: "tokens r = [w]"
  defines "i \<equiv> p + length ds" and "q \<equiv> p + length ds + length w"
  shows "strtok None s = Some (Some (b, i), s\<lparr>static := Some (b, q)\<rparr>)
    \<and> call_ok s b p r (Some (b, i)) (s\<lparr>static := Some (b, q)\<rparr>)"
proof
  let ?s = "s\<lparr>static := Some (b, q)\<rparr>"
  have nw: "no_nul w" using w by (auto simp: no_nul_def)
  show "strtok None s = Some (Some (b, i), ?s)"
    using strtok_word [OF assms(1) d ds assms(4) w] by (simp add: i_def q_def)
  show "call_ok s b p r (Some (b, i)) ?s"
    unfolding call_ok_def
  proof (intro conjI exI)
    have "drop i (bufs s b) = w @ NUL # rest" "drop (p + length (ds @ w)) (bufs s b) = NUL # rest"
      using drop_more [OF d] drop_more [of p "bufs s b" "ds @ w"] d by (simp_all add: i_def)
    then show "text_at (bufs ?s b) q []" "string_at ?s (Some (b, i)) = nth_token 0 (tokens r)"
      using t nw by (simp_all add: text_at_def string_at_def nth_token_def add.assoc q_def)
    have "char_at (bufs s b) q = Some NUL"
      using char_at_drop [of p "bufs s b" "ds @ w" NUL rest] d by (simp add: add.assoc q_def)
    then have "q < length (bufs s b)" "bufs s b ! q = NUL" by (simp_all add: char_at_def split: if_splits)
    then show "ends_by q b (bufs ?s b) (Some (b, i))"
      unfolding ends_by_def by (intro allI impI conjI exI [of _ q]) (auto simp: i_def q_def)
  qed (use t in \<open>simp_all add: keeps_refl tokens_def i_def q_def\<close>)
qed

lemma strtok_more_ok:
  assumes "static s = Some (b, p)" and d: "drop p (bufs s b) = ds @ w @ dl # r' @ NUL # rest"
    and ds: "\<forall>c \<in> set ds. is_delim c" and "w \<noteq> []" and w: "\<forall>c \<in> set w. \<not> is_delim c \<and> c \<noteq> NUL"
    and dl: "is_delim dl" and nn: "no_nul r'" and t: "tokens r = w # tokens r'"
  defines "i \<equiv> p + length ds" and "q \<equiv> p + length ds + length w"
  defines "s' \<equiv> s\<lparr>static := Some (b, q + 1), bufs := (bufs s)(b := (bufs s b)[q := NUL])\<rparr>"
  shows "strtok None s = Some (Some (b, i), s') \<and> call_ok s b p r (Some (b, i)) s'"
proof
  have nw: "no_nul w" using w by (auto simp: no_nul_def)
  have "dl \<noteq> NUL" using dl is_delim_not_NUL by auto
  then show "strtok None s = Some (Some (b, i), s')"
    using strtok_word [OF assms(1) d ds assms(4) w] dl by (simp add: i_def q_def s'_def)
  show "call_ok s b p r (Some (b, i)) s'"
    unfolding call_ok_def
  proof (intro conjI exI)
    have "char_at (bufs s b) q = Some dl"
      using char_at_drop [of p "bufs s b" "ds @ w" dl] d by (simp add: add.assoc q_def)
    then have ql: "q < length (bufs s b)" by (simp add: char_at_def split: if_splits)
    have "drop i (bufs s b) = w @ dl # r' @ NUL # rest" using drop_more [OF d] by (simp add: i_def)
    then have "drop i ((bufs s b)[q := NUL]) = w @ NUL # r' @ NUL # rest"
      by (simp add: drop_update_swap i_def q_def)
    moreover have "drop (q + 1) ((bufs s b)[q := NUL]) = drop (q + 1) (bufs s b)" by simp
    moreover have "drop (p + length (ds @ w @ [dl])) (bufs s b) = r' @ NUL # rest"
      using drop_more [of p "bufs s b" "ds @ w @ [dl]"] d by simp
    ultimately show "text_at (bufs s' b) (q + 1) r'" "string_at s' (Some (b, i)) = nth_token 0 (tokens r)"
      using t nw nn by (simp_all add: text_at_def string_at_def nth_token_def add.assoc s'_def q_def)
    show "ends_by (q + 1) b (bufs s' b) (Some (b, i))"
      using ql by (auto simp: ends_by_def s'_def i_def q_def intro!: exI [of _ q])
    show "keeps p (bufs s b) (bufs s' b)" using keeps_update [of p q "bufs s b"] by (simp add: s'_def q_def)
  qed (use t in \<open>simp_all add: s'_def q_def\<close>)
qed

lemma strtok_ok:
  assumes "static s = Some (b, p)" and "text_at (bufs s b) p r"
  shows "\<exists>res s'. strtok None s = Some (res, s') \<and> call_ok s b p r res s'"
proof -
  obtain rest where d: "drop p (bufs s b) = r @ NUL # rest" and nn: "no_nul r" using assms(2) by (auto simp: text_at_def)
  show ?thesis
  proof (cases r rule: text_cases)
    case (1 ds)
    let ?s = "s\<lparr>static := Some (b, p + length r)\<rparr>"
    have "strtok None s = Some (None, ?s)" using 1 by (intro strtok_end [OF assms(1) d]) simp
    moreover have "text_at (bufs s b) (p + length r) []" using drop_more [OF d] by (simp add: text_at_def)
    then have "call_ok s b p r None ?s"
      unfolding call_ok_def using 1 by (auto simp: keeps_refl ends_by_def string_at_def nth_token_def tokens_def)
    ultimately show ?thesis by blast
  next
    case (2 ds w)
    then have "\<forall>c \<in> set w. \<not> is_delim c \<and> c \<noteq> NUL" "drop p (bufs s b) = ds @ w @ NUL # rest"
      using nn d by (auto simp: no_nul_def)
    then show ?thesis using strtok_last_ok [OF assms(1), of ds w rest r] 2 by auto
  next
    case (3 ds w dl r')
    then have "\<forall>c \<in> set w. \<not> is_delim c \<and> c \<noteq> NUL" "drop p (bufs s b) = ds @ w @ dl # r' @ NUL # rest" "no_nul r'"
      using nn d by (auto simp: no_nul_def)
    then show ?thesis using strtok_more_ok [OF assms(1), of ds w dl r' rest r] 3 by auto
  qed
qed

section \<open>A thread that is not disturbed\<close>

lemma keeps_string:
  assumes "ends_by p b (bufs s b) r" and "keeps p (bufs s b) (bufs s' b)"
  shows "string_at s' r = string_at s r"
proof (cases r)
  case (Some x)
  obtain j where "fst x = b" "snd x \<le> j" "j \<le> p" "j < length (bufs s b)" "bufs s b ! j = NUL"
    using assms(1) Some by (auto simp: ends_by_def)
  with assms(2) Some show ?thesis by (auto simp: keeps_def string_at_def split_beta)
qed (simp add: string_at_def)

lemma nth_token_Suc: "nth_token (Suc k) ts = nth_token k (tl ts)"
  by (cases ts) (simp_all add: nth_token_def)

text \<open>Whoever calls gets the next token of the buffer in which the last call has stopped.\<close>

definition results_of :: "tid \<Rightarrow> tid list \<Rightarrow> place option list \<Rightarrow> place option list" where
  "results_of v ts rs = map snd (filter (\<lambda>x. fst x = v) (zip ts rs))"

lemma later_calls:
  "static s = Some (b, p) \<Longrightarrow> text_at (bufs s b) p r \<Longrightarrow> \<forall>t \<in> set ts. calls s t \<noteq> [] \<Longrightarrow>
   \<exists>s' rs. run_calls ts s = Some s' \<and> length rs = length ts \<and> (\<forall>v. calls s' v = calls s v @ results_of v ts rs)
     \<and> map (string_at s') rs = map (\<lambda>k. nth_token k (tokens r)) [0..<length ts]
     \<and> keeps p (bufs s b) (bufs s' b) \<and> (\<forall>b'. b' \<noteq> b \<longrightarrow> bufs s' b' = bufs s b')"
proof (induction ts arbitrary: s p r)
  case Nil
  show ?case by (intro exI [of _ s] exI [of _ "[]"]) (simp add: keeps_refl results_of_def)
next
  case (Cons t ts)
  obtain res s1 where st: "strtok None s = Some (res, s1)" and ok: "call_ok s b p r res s1"
    using strtok_ok [OF Cons.prems(1,2)] by blast
  obtain p1 r1 where p1: "static s1 = Some (b, p1)" "p \<le> p1" "text_at (bufs s1 b) p1 r1" "tokens r1 = tl (tokens r)"
    "ends_by p1 b (bufs s1 b) res" and o: "string_at s1 res = nth_token 0 (tokens r)" "calls s1 = calls s"
    "\<forall>b'. b' \<noteq> b \<longrightarrow> bufs s1 b' = bufs s b'" "keeps p (bufs s b) (bufs s1 b)"
    using ok unfolding call_ok_def by blast
  define s2 where "s2 = s1\<lparr>calls := (calls s1)(t := calls s1 t @ [res])\<rparr>"
  have c: "call t s = Some s2" using st Cons.prems(3) by (simp add: call_def s2_def)
  have b2: "bufs s2 = bufs s1" "calls s2 = (calls s)(t := calls s t @ [res])" using o(2) by (simp_all add: s2_def)
  have sb: "static s2 = Some (b, p1)" "text_at (bufs s2 b) p1 r1" "\<forall>t \<in> set ts. calls s2 t \<noteq> []"
    using p1(1,3) Cons.prems(3) o(2) by (simp_all add: s2_def)
  obtain s' rs where IH: "run_calls ts s2 = Some s'" "length rs = length ts" "\<forall>v. calls s' v = calls s2 v @ results_of v ts rs"
    "map (string_at s') rs = map (\<lambda>k. nth_token k (tokens r1)) [0..<length ts]"
    "keeps p1 (bufs s1 b) (bufs s' b)" "\<forall>b'. b' \<noteq> b \<longrightarrow> bufs s' b' = bufs s1 b'"
    using Cons.IH [OF sb] unfolding b2(1) by blast
  have res: "string_at s' res = nth_token 0 (tokens r)" using keeps_string [OF p1(5) IH(5)] o(1) by simp
  have "map (\<lambda>k. nth_token k (tokens r)) [0..<length (t # ts)] = nth_token 0 (tokens r) # map (\<lambda>k. nth_token k (tokens r1)) [0..<length ts]"
    using p1(4) by (simp add: upt_conv_Cons map_Suc_upt [symmetric] nth_token_Suc del: upt_Suc)
  moreover have "calls s' v = calls s v @ results_of v (t # ts) (res # rs)" for v
    using IH(3) b2(2) by (simp add: results_of_def)
  moreover have "keeps p (bufs s b) (bufs s' b)" by (rule keeps_trans [OF o(4) IH(5) p1(2)])
  ultimately show ?case using c IH(1,2,4,6) o(3) res
    by (intro exI [of _ s'] exI [of _ "res # rs"]) simp
qed

lemma strtok_first: "strtok (Some t) s = strtok None (s\<lparr>static := Some (t, 0)\<rparr>)"
  by (simp add: strtok_def Let_def cong: if_cong)

lemma first_call:
  assumes "calls s t = []" and "strtok None (s\<lparr>static := Some (t, 0)\<rparr>) = Some (r, s')"
  shows "call t s = Some (s'\<lparr>calls := (calls s')(t := calls s' t @ [r])\<rparr>)"
  using assms by (simp add: call_def strtok_first)

text \<open>After the first call of a thread, made for its own buffer.\<close>

lemma first_call_ok:
  assumes "text_at (bufs s t) 0 line" and "calls s t = []"
  shows "\<exists>res s' p r. call t s = Some s' \<and> calls s' = (calls s)(t := [res]) \<and> static s' = Some (t, p)
    \<and> text_at (bufs s' t) p r \<and> tokens r = tl (tokens line) \<and> ends_by p t (bufs s' t) res
    \<and> string_at s' res = nth_token 0 (tokens line) \<and> (\<forall>b. b \<noteq> t \<longrightarrow> bufs s' b = bufs s b)"
proof -
  let ?s0 = "s\<lparr>static := Some (t, 0)\<rparr>"
  obtain res s1 where st: "strtok None ?s0 = Some (res, s1)" and ok: "call_ok ?s0 t 0 line res s1"
    using strtok_ok [of ?s0 t 0 line] assms(1) by auto
  obtain p r where p: "static s1 = Some (t, p)" "text_at (bufs s1 t) p r" "tokens r = tl (tokens line)"
    "ends_by p t (bufs s1 t) res" and o: "string_at s1 res = nth_token 0 (tokens line)" "calls s1 = calls s"
    "\<forall>b'. b' \<noteq> t \<longrightarrow> bufs s1 b' = bufs s b'"
    using ok unfolding call_ok_def by auto
  have sa: "string_at (s1\<lparr>calls := x\<rparr>) = string_at s1" for x by (simp add: string_at_def fun_eq_iff)
  show ?thesis using first_call [OF assms(2) st] p o assms(2) sa
    by (intro exI [of _ res] exI [of _ "s1\<lparr>calls := (calls s1)(t := calls s1 t @ [res])\<rparr>"] exI [of _ p] exI [of _ r]) simp
qed

lemma list_of_3: "length rs = 3 \<Longrightarrow> \<exists>a b c. rs = [a, b, c]"
  by (auto simp: numeral_eq_Suc length_Suc_conv)

text \<open>C28: A thread whose four calls are not interrupted by another one stays inside its buffer and
  runs the command that the words of the line say, however many delimiters separate them; the
  other threads are not touched.\<close>

theorem strtok_undisturbed:
  assumes "text_at (bufs s t) 0 line" and "calls s t = []"
  shows "\<exists>s'. run_calls [t, t, t, t] s = Some s' \<and> request_of t s' = dispatch t line
    \<and> (\<forall>u. u \<noteq> t \<longrightarrow> bufs s' u = bufs s u \<and> calls s' u = calls s u)"
proof -
  obtain res s1 p r where f: "call t s = Some s1" "calls s1 = (calls s)(t := [res])" "static s1 = Some (t, p)"
    "text_at (bufs s1 t) p r" "tokens r = tl (tokens line)" "ends_by p t (bufs s1 t) res"
    "string_at s1 res = nth_token 0 (tokens line)" "\<forall>b. b \<noteq> t \<longrightarrow> bufs s1 b = bufs s b"
    using first_call_ok [OF assms] by blast
  have ne: "\<forall>v \<in> set [t, t, t]. calls s1 v \<noteq> []" using f(2) by simp
  obtain s' rs where r: "run_calls [t, t, t] s1 = Some s'" "length rs = length [t, t, t]"
    "\<forall>v. calls s' v = calls s1 v @ results_of v [t, t, t] rs"
    "map (string_at s') rs = map (\<lambda>k. nth_token k (tokens r)) [0..<length [t, t, t]]"
    "keeps p (bufs s1 t) (bufs s' t)" "\<forall>b. b \<noteq> t \<longrightarrow> bufs s' b = bufs s1 b"
    using later_calls [OF f(3,4) ne] by blast
  obtain a b c where rs: "rs = [a, b, c]" using r(2) list_of_3 [of rs] by auto
  have "string_at s' res = nth_token 0 (tokens line)" using keeps_string [OF f(6) r(5)] f(7) by simp
  then have "request_of t s' = dispatch t line"
    using r(3,4) f(2,5) by (simp add: rs results_of_def request_of_def dispatch_def nth_token_Suc numeral_eq_Suc Let_def)
  then show ?thesis using f(1,2,8) r(1,3,6) by (intro exI [of _ s']) (simp add: results_of_def rs)
qed

definition two_lines :: "string \<Rightarrow> string \<Rightarrow> tokenizer" where
  "two_lines l k = \<lparr>static = None, bufs = (\<lambda>_. replicate 10 NUL)(1 := l @ [NUL, NUL], 2 := k @ [NUL]), calls = \<lambda>_. []\<rparr>"

theorem strtok_undisturbed_witness:
  "\<exists>s'. run_calls [1, 1, 1, 1] (two_lines '' RM  a.txt'' ''GET b.txt c.txt'') = Some s' \<and> request_of 1 s' = handle_rm 1 ''a.txt''"
proof -
  have "dispatch 1 '' RM  a.txt'' = handle_rm 1 ''a.txt''"
    by (simp add: dispatch_def tokens_def is_delim_def run_command_def nth_token_def strcaseeq_def to_lower_def)
  then show ?thesis
    using strtok_undisturbed [of "two_lines '' RM  a.txt'' ''GET b.txt c.txt''" 1 "'' RM  a.txt''"]
    by (auto simp: two_lines_def text_at_def)
qed

section \<open>Two threads\<close>

text \<open>C27: The threads of two clients share the static variable of \<open>strtok\<close>: for any two
  command lines there is an interleaving in which the first thread runs its own command on the
  arguments of the other client, and the second thread loses its arguments. So a client that
  asks to remove its own file can remove the one that another client is reading.\<close>

theorem strtok_mixes_requests:
  assumes "t \<noteq> u" and "text_at (bufs s t) 0 l" and "text_at (bufs s u) 0 k" and "calls s t = []" and "calls s u = []"
  shows "\<exists>s'. run_calls [t, u, t, t, t, u, u, u] s = Some s'
    \<and> request_of t s' = run_command t (nth_token 0 (tokens l)) (nth_token 1 (tokens k)) (nth_token 2 (tokens k)) (nth_token 3 (tokens k))
    \<and> request_of u s' = run_command u (nth_token 0 (tokens k)) (nth_token 4 (tokens k)) (nth_token 5 (tokens k)) (nth_token 6 (tokens k))"
proof -
  obtain rt s1 p r where f: "call t s = Some s1" "calls s1 = (calls s)(t := [rt])" "static s1 = Some (t, p)"
    "text_at (bufs s1 t) p r" "tokens r = tl (tokens l)" "ends_by p t (bufs s1 t) rt"
    "string_at s1 rt = nth_token 0 (tokens l)" "\<forall>b. b \<noteq> t \<longrightarrow> bufs s1 b = bufs s b"
    using first_call_ok [OF assms(2,4)] by blast
  have u1: "text_at (bufs s1 u) 0 k" "calls s1 u = []" using f(2,8) assms(1,3,5) by auto
  obtain ru s2 q r2 where g: "call u s1 = Some s2" "calls s2 = (calls s1)(u := [ru])" "static s2 = Some (u, q)"
    "text_at (bufs s2 u) q r2" "tokens r2 = tl (tokens k)" "ends_by q u (bufs s2 u) ru"
    "string_at s2 ru = nth_token 0 (tokens k)" "\<forall>b. b \<noteq> u \<longrightarrow> bufs s2 b = bufs s1 b"
    using first_call_ok [OF u1] by blast
  let ?ts = "[t, t, t, u, u, u]"
  have ne: "\<forall>v \<in> set ?ts. calls s2 v \<noteq> []" using f(2) g(2) by simp
  obtain s' rs where r: "run_calls ?ts s2 = Some s'" "length rs = length ?ts" "\<forall>v. calls s' v = calls s2 v @ results_of v ?ts rs"
    "map (string_at s') rs = map (\<lambda>k. nth_token k (tokens r2)) [0..<length ?ts]"
    "keeps q (bufs s2 u) (bufs s' u)" "\<forall>b. b \<noteq> u \<longrightarrow> bufs s' b = bufs s2 b"
    using later_calls [OF g(3,4) ne] by blast
  obtain a b c a' b' c' where rs: "rs = [a, b, c, a', b', c']"
    using r(2) list_of_3 [of "take 3 rs"] list_of_3 [of "drop 3 rs"] append_take_drop_id [of 3 rs] by fastforce
  have su: "string_at s' ru = nth_token 0 (tokens k)" using keeps_string [OF g(6) r(5)] g(7) by simp
  have "bufs s' t = bufs s1 t" using r(6) g(8) assms(1) by auto
  then have "keeps p (bufs s1 t) (bufs s' t)" by (simp add: keeps_refl)
  then have st: "string_at s' rt = nth_token 0 (tokens l)" using keeps_string [OF f(6)] f(7) by simp
  have ct: "calls s' t = [rt, a, b, c]" "calls s' u = [ru, a', b', c']"
    using r(3) f(2) g(2) assms(1) by (auto simp: rs results_of_def)
  have "string_at s' a = nth_token 1 (tokens k)" "string_at s' b = nth_token 2 (tokens k)" "string_at s' c = nth_token 3 (tokens k)"
    "string_at s' a' = nth_token 4 (tokens k)" "string_at s' b' = nth_token 5 (tokens k)" "string_at s' c' = nth_token 6 (tokens k)"
    using r(4) g(5) by (simp_all add: rs nth_token_Suc numeral_eq_Suc)
  with ct st su f(1) g(1) r(1) show ?thesis by (intro exI [of _ s']) (simp add: request_of_def)
qed

text \<open>One client asks to remove a file of its own, another one reads a file; it is the file of the other
  client that is removed, and the other client is told that its request is wrong.\<close>

theorem strtok_mixes_requests_witness:
  "\<exists>s'. run_calls [1, 2, 1, 1, 1, 2, 2, 2] (two_lines ''RM mine'' ''GET yours copy'') = Some s'
    \<and> request_of 1 s' = handle_rm 1 ''yours'' \<and> request_of 2 s' = Send ''ERR_BAD_ARGS'' Close"
proof -
  have "tokens ''RM mine'' = [''RM'', ''mine'']" "tokens ''GET yours copy'' = [''GET'', ''yours'', ''copy'']"
    by (simp_all add: tokens_def is_delim_def)
  then show ?thesis
    using strtok_mixes_requests [of 1 2 "two_lines ''RM mine'' ''GET yours copy''" "''RM mine''" "''GET yours copy''"]
    by (auto simp: two_lines_def text_at_def run_command_def nth_token_def strcaseeq_def to_lower_def)
qed

end
