(* ===== verification/Rfs_Requests.thy ===== *)
theory Rfs_Requests
  imports Rfs_Isolation Rfs_Strtok
begin

text \<open>
  The threads of the server as they read their requests: the four calls of \<open>strtok\<close> are four steps on the
  static variable that all threads of the process share. \<open>Rfs_Server\<close> and the theories on it take the
  request apart in one step. As long as no thread calls \<open>strtok\<close> while another one is between its calls, that
  is the same: every such run is a run with the request read in one step, and every one of those can be
  made by the real threads. What was shown of clients at the same time so holds of the real threads.
\<close>

section \<open>The real threads\<close>

text \<open>The state of the process: that of the server, and that of \<open>strtok\<close>. What comes after the request is
  read does not touch the latter.\<close>

type_synonym process = "server \<times> tokenizer"

primrec lift :: "server prog \<Rightarrow> process prog" where
  "lift Close = Close"
| "lift (Send m p) = Send m (lift p)"
| "lift (Recv n k) = Recv n (\<lambda>b. lift (k b))"
| "lift (Act f) = Act (\<lambda>sk. map_option (\<lambda>sp. ((fst sp, snd sk), snd sp)) (map_option (map_prod id lift) (f (fst sk))))"

text \<open>What was received is in the buffer, which is zero behind it.\<close>

definition store_line :: "tid \<Rightarrow> char list \<Rightarrow> tokenizer \<Rightarrow> tokenizer" where
  "store_line t buf k = k\<lparr>bufs := (bufs k)(t := buf @ replicate (BUF_SIZE - length buf) NUL)\<rparr>"

text \<open>The calls of \<open>strtok\<close> that are still to be made, then the choice of the handler.\<close>

fun take_words :: "tid \<Rightarrow> nat \<Rightarrow> process prog" where
  "take_words t 0 = query (\<lambda>(s, k). lift (request_of t k))"
| "take_words t (Suc n) = Act (\<lambda>(s, k). map_option (\<lambda>k. ((s, k), take_words t n)) (call t k))"

definition client_thread_strtok :: "tid \<Rightarrow> process prog" where
  "client_thread_strtok t = Recv (BUF_SIZE - 1) (\<lambda>buf.
     if buf = [] then Close
     else act (\<lambda>(s, k). (s, store_line t buf k)) (take_words t 4))"

definition connect_strtok :: "process \<Rightarrow> (tid \<Rightarrow> string list) \<Rightarrow> (tid \<Rightarrow> client) \<Rightarrow> process net" where
  "connect_strtok sk args cs = \<lparr>srv = sk, thread = client_thread_strtok, peer = (\<lambda>t. main (args t)), machine = cs,
     to_srv = (\<lambda>_. []), to_cli = (\<lambda>_. [])\<rparr>"

abbreviation tokz :: "process net \<Rightarrow> tokenizer" where "tokz c \<equiv> snd (srv c)"

text \<open>A thread is between its calls of \<open>strtok\<close>; a calm step is any step but a call while another thread is.\<close>

definition between :: "tokenizer \<Rightarrow> tid \<Rightarrow> bool" where
  "between k t \<longleftrightarrow> calls k t \<noteq> [] \<and> length (calls k t) < 4"

definition quiet_for :: "tid \<Rightarrow> tokenizer \<Rightarrow> bool" where
  "quiet_for t k \<longleftrightarrow> (\<forall>u. u \<noteq> t \<longrightarrow> \<not> between k u)"

inductive calm :: "process net \<Rightarrow> process net \<Rightarrow> bool" where
  calm: "step c c' \<Longrightarrow> (\<And>t. calls (tokz c') t \<noteq> calls (tokz c) t \<Longrightarrow> quiet_for t (tokz c)) \<Longrightarrow> calm c c'"

abbreviation calms :: "process net \<Rightarrow> process net \<Rightarrow> bool" where "calms \<equiv> calm\<^sup>*\<^sup>*"

section \<open>Reading a request\<close>

text \<open>A thread that has made some of its calls on a line: what the calls returned, and where the next one
  goes on.\<close>

definition reading :: "tokenizer \<Rightarrow> tid \<Rightarrow> string \<Rightarrow> bool" where
  "reading k t line \<longleftrightarrow> length (calls k t) \<le> 4
     \<and> map (string_at k) (calls k t) = map (\<lambda>i. nth_token i (tokens line)) [0..<length (calls k t)]
     \<and> (\<forall>b i. Some (b, i) \<in> set (calls k t) \<longrightarrow> b = t)
     \<and> (calls k t = [] \<longrightarrow> text_at (bufs k t) 0 line)
     \<and> (between k t \<longrightarrow> (\<exists>p r. static k = Some (t, p) \<and> text_at (bufs k t) p r
          \<and> tokens r = drop (length (calls k t)) (tokens line) \<and> (\<forall>x \<in> set (calls k t). ends_by p t (bufs k t) x)))"

lemma string_at_same: "bufs k' t = bufs k t \<Longrightarrow> string_at k' (Some (t, i)) = string_at k (Some (t, i))"
  by (simp add: string_at_def)

lemma strings_same:
  assumes "bufs k' t = bufs k t" and "\<forall>b i. Some (b, i) \<in> set xs \<longrightarrow> b = t"
  shows "map (string_at k') xs = map (string_at k) xs"
proof (rule map_cong)
  fix x
  assume "x \<in> set xs"
  with assms show "string_at k' x = string_at k x" by (cases x) (auto simp: string_at_def)
qed simp

lemma nth_token_drop: "nth_token i (drop n ts) = nth_token (n + i) ts"
  by (auto simp: nth_token_def)

lemma ends_by_mono: "ends_by p t buf x \<Longrightarrow> p \<le> q \<Longrightarrow> keeps p buf buf' \<Longrightarrow> ends_by q t buf' x"
  by (cases x) (fastforce simp: ends_by_def keeps_def)+

lemma ends_by_own: "ends_by p t buf (Some (b, i)) \<Longrightarrow> b = t"
  by (simp add: ends_by_def)

text \<open>Every call of an undisturbed thread is defined and gives the next word.\<close>

lemma call_reading:
  assumes "reading k t line" and "length (calls k t) < 4"
  shows "\<exists>k' x. call t k = Some k' \<and> calls k' = (calls k)(t := calls k t @ [x]) \<and> reading k' t line
    \<and> (\<forall>u. u \<noteq> t \<longrightarrow> bufs k' u = bufs k u)"
proof (cases "calls k t = []")
  case True
  have "text_at (bufs k t) 0 line" using assms(1) True by (simp add: reading_def)
  from first_call_ok [OF this True] obtain x k' p r where f: "call t k = Some k'" "calls k' = (calls k)(t := [x])"
    "static k' = Some (t, p)" "text_at (bufs k' t) p r" "tokens r = tl (tokens line)" "ends_by p t (bufs k' t) x"
    "string_at k' x = nth_token 0 (tokens line)" "\<forall>b. b \<noteq> t \<longrightarrow> bufs k' b = bufs k b"
    by blast
  have "reading k' t line"
    using f(2-7) ends_by_own [of p t "bufs k' t"] by (auto simp: reading_def between_def drop_Suc)
  with f True show ?thesis by auto
next
  case False
  then have bt: "between k t" using assms(2) by (simp add: between_def)
  then obtain p r where p: "static k = Some (t, p)" "text_at (bufs k t) p r"
    "tokens r = drop (length (calls k t)) (tokens line)" "\<forall>x \<in> set (calls k t). ends_by p t (bufs k t) x"
    using assms(1) by (auto simp: reading_def)
  obtain x s1 where st: "strtok None k = Some (x, s1)" and ok: "call_ok k t p r x s1"
    using strtok_ok [OF p(1,2)] by blast
  obtain p1 r1 where q: "static s1 = Some (t, p1)" "p \<le> p1" "text_at (bufs s1 t) p1 r1" "tokens r1 = tl (tokens r)"
    "ends_by p1 t (bufs s1 t) x" and o: "string_at s1 x = nth_token 0 (tokens r)" "calls s1 = calls k"
    "\<forall>b'. b' \<noteq> t \<longrightarrow> bufs s1 b' = bufs k b'" "keeps p (bufs k t) (bufs s1 t)"
    using ok unfolding call_ok_def by blast
  define k' where "k' = s1\<lparr>calls := (calls s1)(t := calls k t @ [x])\<rparr>"
  have k': "calls k' t = calls k t @ [x]" "bufs k' = bufs s1" "static k' = Some (t, p1)" "string_at k' = string_at s1"
    using q(1) by (simp_all add: k'_def string_at_def fun_eq_iff)
  have "call t k = Some k'" using st False o(2) by (simp add: call_def k'_def)
  moreover have "map (string_at k') (calls k' t) = map (\<lambda>i. nth_token i (tokens line)) [0..<length (calls k' t)]"
  proof -
    have "map (string_at k') (calls k t) = map (string_at k) (calls k t)"
      using p(4) keeps_string [OF _ o(4)] unfolding k'(4) by (intro map_cong) auto
    moreover have "string_at k' x = nth_token (length (calls k t)) (tokens line)"
      using o(1) unfolding k'(4) p(3) by (simp add: nth_token_drop)
    ultimately show ?thesis using assms(1) unfolding k'(1) reading_def by (simp del: map_eq_conv)
  qed
  moreover have "\<forall>y \<in> set (calls k' t). ends_by p1 t (bufs k' t) y"
    using p(4) q(5) ends_by_mono [OF _ q(2) o(4)] by (auto simp: k')
  moreover have "tokens r1 = drop (length (calls k' t)) (tokens line)"
    using q(4) p(3) by (simp add: k' tl_drop drop_Suc)
  moreover have "\<forall>b i. Some (b, i) \<in> set (calls k' t) \<longrightarrow> b = t"
    using assms(1) ends_by_own q(5) by (auto simp: reading_def k')
  ultimately have "reading k' t line"
    using assms(2) q(3) k' unfolding reading_def by (intro conjI impI exI [of _ p1] exI [of _ r1]) simp_all
  then show ?thesis
    using \<open>call t k = Some k'\<close> o(2,3) by (intro exI [of _ k'] exI [of _ x]) (simp add: k'_def)
qed

text \<open>After the fourth one the thread knows its request.\<close>

lemma reading_request:
  assumes "reading k t line" and "length (calls k t) = 4"
  shows "request_of t k = dispatch t line"
proof -
  obtain a b c d where "calls k t = [a, b, c, d]"
    using assms(2) by (auto simp: numeral_eq_Suc length_Suc_conv)
  with assms(1) show ?thesis
    by (simp add: reading_def request_of_def dispatch_def Let_def numeral_eq_Suc)
qed

lemma padded: "0 < n \<Longrightarrow> \<exists>cs. buf @ replicate n NUL = cstr buf @ NUL # cs"
proof (induction buf)
  case Nil
  then show ?case by (cases n) (simp_all add: cstr_def)
next
  case (Cons c buf)
  then show ?case by (cases "c = NUL") (auto simp: cstr_def)
qed

lemma reading_stored:
  assumes "length buf < BUF_SIZE" and "calls k t = []"
  shows "reading (store_line t buf k) t (cstr buf)"
proof -
  have "text_at (buf @ replicate (BUF_SIZE - length buf) NUL) 0 (cstr buf)"
    using padded [of "BUF_SIZE - length buf" buf] assms(1) by (simp add: text_at_def)
  with assms(2) show ?thesis by (simp add: reading_def store_line_def between_def)
qed

section \<open>The real threads and the threads that read in one step\<close>

text \<open>How far a thread of the network \<open>c\<close> of real threads is, and what the other network \<open>d\<close> makes of it: it waits
  for its request, has received it, is reading it, or has handed it to a handler or closed.\<close>

definition waits :: "process net \<Rightarrow> network \<Rightarrow> tid \<Rightarrow> bool" where
  "waits c d t \<longleftrightarrow> thread c t = client_thread_strtok t \<and> thread d t = client_thread t \<and> calls (tokz c) t = []"

definition received :: "process net \<Rightarrow> network \<Rightarrow> tid \<Rightarrow> char list \<Rightarrow> bool" where
  "received c d t buf \<longleftrightarrow> thread c t = act (\<lambda>(s, k). (s, store_line t buf k)) (take_words t 4)
     \<and> thread d t = dispatch t (cstr buf) \<and> length buf < BUF_SIZE \<and> calls (tokz c) t = []"

definition reads :: "process net \<Rightarrow> network \<Rightarrow> tid \<Rightarrow> string \<Rightarrow> bool" where
  "reads c d t line \<longleftrightarrow> thread c t = take_words t (4 - length (calls (tokz c) t)) \<and> thread d t = dispatch t line
     \<and> reading (tokz c) t line"

definition handed :: "process net \<Rightarrow> network \<Rightarrow> tid \<Rightarrow> bool" where
  "handed c d t \<longleftrightarrow> thread c t = lift (thread d t) \<and> \<not> between (tokz c) t"

definition stage :: "process net \<Rightarrow> network \<Rightarrow> tid \<Rightarrow> bool" where
  "stage c d t \<longleftrightarrow> waits c d t \<or> (\<exists>buf. received c d t buf) \<or> (\<exists>line. reads c d t line) \<or> handed c d t"

definition same_streams :: "process net \<Rightarrow> network \<Rightarrow> bool" where
  "same_streams c d \<longleftrightarrow> fst (srv c) = srv d \<and> peer c = peer d \<and> machine c = machine d
     \<and> to_srv c = to_srv d \<and> to_cli c = to_cli d"

definition matches :: "process net \<Rightarrow> network \<Rightarrow> bool" where
  "matches c d \<longleftrightarrow> same_streams c d \<and> (\<forall>t. stage c d t)"

text \<open>A step of one thread does not touch what the others are reading.\<close>

definition unread :: "tid \<Rightarrow> tokenizer \<Rightarrow> tokenizer \<Rightarrow> bool" where
  "unread t k k' \<longleftrightarrow> (\<forall>u. u \<noteq> t \<longrightarrow> calls k' u = calls k u \<and> bufs k' u = bufs k u
     \<and> (static k' = static k \<or> \<not> between k u))"

lemma unread_refl [simp]: "unread t k k"
  by (simp add: unread_def)

lemma reading_kept:
  assumes "unread t k k'" and "u \<noteq> t" and "reading k u line"
  shows "reading k' u line"
proof -
  have u: "calls k' u = calls k u" "bufs k' u = bufs k u" "static k' = static k \<or> \<not> between k u"
    using assms(1,2) by (simp_all add: unread_def)
  have "map (string_at k') (calls k u) = map (string_at k) (calls k u)"
    by (rule strings_same [OF u(2)]) (use assms(3) in \<open>simp add: reading_def\<close>)
  moreover have "between k' u = between k u" using u(1) by (simp add: between_def)
  ultimately show ?thesis using assms(3) u unfolding reading_def by auto
qed

lemma stage_kept:
  assumes "unread t (tokz c) (tokz c')" and "u \<noteq> t" and "thread c' u = thread c u" and "thread d' u = thread d u"
    and "stage c d u"
  shows "stage c' d' u"
proof -
  have calls: "calls (tokz c') u = calls (tokz c) u" using assms(1,2) by (simp add: unread_def)
  then have "between (tokz c') u = between (tokz c) u" by (simp add: between_def)
  then show ?thesis
    using assms(3-5) calls reading_kept [OF assms(1,2)]
    unfolding stage_def waits_def received_def reads_def handed_def by auto
qed

lemma matches_update:
  assumes "matches c d" and "same_streams c' d'" and "unread t (tokz c) (tokz c')" and "stage c' d' t"
    and "\<And>u. u \<noteq> t \<Longrightarrow> thread c' u = thread c u" and "\<And>u. u \<noteq> t \<Longrightarrow> thread d' u = thread d u"
  shows "matches c' d'"
proof -
  have "stage c' d' u" for u
    using assms stage_kept [OF assms(3)] by (cases "u = t") (auto simp: matches_def)
  with assms(2) show ?thesis by (simp add: matches_def)
qed

lemma closed_stage: "stage c d t \<Longrightarrow> thread c t = Close \<Longrightarrow> thread d t = Close \<and> handed c d t"
proof -
  have "take_words t n \<noteq> Close" "Close \<noteq> take_words t n" for n by (cases n; simp add: query_def)+
  moreover have "lift p = Close \<Longrightarrow> p = Close" "Close = lift p \<Longrightarrow> p = Close" for p by (cases p; simp)+
  ultimately show "stage c d t \<Longrightarrow> thread c t = Close \<Longrightarrow> thread d t = Close \<and> handed c d t"
    by (auto simp: stage_def waits_def received_def reads_def handed_def client_thread_strtok_def act_def)
qed

section \<open>Steps of the real threads\<close>

lemma waits_step:
  assumes "matches c d" and "waits c d t" and "srv_step c t = Some c'"
  shows "\<exists>d'. srv_step d t = Some d' \<and> matches c' d' \<and> tokz c' = tokz c"
proof -
  have w: "thread c t = client_thread_strtok t" "thread d t = client_thread t" "calls (tokz c) t = []"
    and m: "fst (srv c) = srv d" "peer c = peer d" "machine c = machine d" "to_srv c = to_srv d" "to_cli c = to_cli d"
    using assms(1,2) by (simp_all add: waits_def matches_def same_streams_def)
  show ?thesis
  proof (cases "to_srv d t = []")
    case False
    let ?b = "take (BUF_SIZE - 1) (to_srv d t)"
    have b: "?b \<noteq> []" "length ?b < BUF_SIZE" using False by (simp_all add: BUF_SIZE_def)
    let ?c = "c\<lparr>thread := (thread c)(t := act (\<lambda>(s, k). (s, store_line t ?b k)) (take_words t 4)),
      to_srv := (to_srv c)(t := drop (BUF_SIZE - 1) (to_srv c t))\<rparr>"
    let ?d = "d\<lparr>thread := (thread d)(t := dispatch t (cstr ?b)), to_srv := (to_srv d)(t := drop (BUF_SIZE - 1) (to_srv d t))\<rparr>"
    have "c' = ?c" "srv_step d t = Some ?d"
      using assms(3) w m False b(1) by (simp_all add: srv_step_def client_thread_strtok_def client_thread_def)
    moreover have "received ?c ?d t ?b" using b(2) w(3) by (simp add: received_def)
    then have "matches ?c ?d"
      using m by (intro matches_update [OF assms(1), of _ _ t]) (auto simp: same_streams_def stage_def)
    ultimately show ?thesis by simp
  next
    case True
    let ?c = "c\<lparr>thread := (thread c)(t := Close)\<rparr>" and ?d = "d\<lparr>thread := (thread d)(t := Close)\<rparr>"
    have "c' = ?c" "srv_step d t = Some ?d"
      using assms(3) w m True by (auto simp: srv_step_def client_thread_strtok_def client_thread_def split: prog.splits)
    moreover have "handed ?c ?d t" using w(3) by (simp add: handed_def between_def)
    then have "matches ?c ?d"
      using m by (intro matches_update [OF assms(1), of _ _ t]) (auto simp: same_streams_def stage_def)
    ultimately show ?thesis by simp
  qed
qed

lemma received_step:
  assumes "matches c d" and "received c d t buf"
  shows "\<exists>c'. srv_step c t = Some c' \<and> matches c' d \<and> reads c' d t (cstr buf) \<and> calls (tokz c') = calls (tokz c)
    \<and> (\<forall>u. u \<noteq> t \<longrightarrow> thread c' u = thread c u)"
proof -
  have r: "thread c t = act (\<lambda>(s, k). (s, store_line t buf k)) (take_words t 4)" "thread d t = dispatch t (cstr buf)"
    "length buf < BUF_SIZE" "calls (tokz c) t = []"
    using assms(2) by (simp_all add: received_def)
  let ?k = "store_line t buf (tokz c)"
  let ?c = "c\<lparr>srv := (fst (srv c), ?k), thread := (thread c)(t := take_words t 4)\<rparr>"
  have k: "calls ?k = calls (tokz c)" "unread t (tokz c) ?k" by (simp_all add: store_line_def unread_def)
  have "srv_step c t = Some ?c" using r(1) by (simp add: srv_step_def act_def split_beta)
  moreover have "reads ?c d t (cstr buf)"
    using reading_stored [OF r(3,4)] r(2,4) k(1) by (simp add: reads_def)
  moreover from this have "matches ?c d"
    using k(2) assms(1) by (intro matches_update [OF assms(1), of _ _ t]) (auto simp: same_streams_def matches_def stage_def)
  ultimately show ?thesis using k(1) by (intro exI [of _ ?c]) simp
qed

lemma reads_step:
  assumes "matches c d" and "reads c d t line" and "length (calls (tokz c) t) < 4" and "quiet_for t (tokz c)"
  shows "\<exists>c' x. srv_step c t = Some c' \<and> matches c' d \<and> reads c' d t line
    \<and> calls (tokz c') = (calls (tokz c))(t := calls (tokz c) t @ [x]) \<and> (\<forall>u. u \<noteq> t \<longrightarrow> thread c' u = thread c u)"
proof -
  have r: "thread c t = take_words t (4 - length (calls (tokz c) t))" "thread d t = dispatch t line" "reading (tokz c) t line"
    using assms(2) by (simp_all add: reads_def)
  obtain k' x where k: "call t (tokz c) = Some k'" "calls k' = (calls (tokz c))(t := calls (tokz c) t @ [x])"
    "reading k' t line" "\<forall>u. u \<noteq> t \<longrightarrow> bufs k' u = bufs (tokz c) u"
    using call_reading [OF r(3) assms(3)] by blast
  define n where "n = 3 - length (calls (tokz c) t)"
  have n: "4 - length (calls (tokz c) t) = Suc n" "4 - length (calls k' t) = n" using assms(3) k(2) by (simp_all add: n_def)
  let ?c = "c\<lparr>srv := (fst (srv c), k'), thread := (thread c)(t := take_words t n)\<rparr>"
  have "unread t (tokz c) k'" using k(2,4) assms(4) by (simp add: unread_def quiet_for_def)
  moreover have "srv_step c t = Some ?c"
    using r(1) k(1) unfolding n(1) by (simp add: srv_step_def split_beta)
  moreover have "reads ?c d t line" using r(2) k(3) n(2) by (simp add: reads_def)
  moreover from this have "matches ?c d"
    using \<open>unread t (tokz c) k'\<close> assms(1)
    by (intro matches_update [OF assms(1), of _ _ t]) (auto simp: same_streams_def matches_def stage_def)
  ultimately show ?thesis using k(2) by (intro exI [of _ ?c] exI [of _ x]) simp
qed

lemma reads_done:
  assumes "matches c d" and "reads c d t line" and "length (calls (tokz c) t) = 4"
  shows "\<exists>c'. srv_step c t = Some c' \<and> matches c' d \<and> handed c' d t \<and> tokz c' = tokz c
    \<and> (\<forall>u. u \<noteq> t \<longrightarrow> thread c' u = thread c u)"
proof -
  have r: "thread c t = take_words t 0" "thread d t = dispatch t line" "reading (tokz c) t line"
    using assms(2,3) by (simp_all add: reads_def)
  let ?c = "c\<lparr>thread := (thread c)(t := lift (thread d t))\<rparr>"
  have "srv_step c t = Some ?c"
    using r reading_request [OF r(3) assms(3)] by (simp add: srv_step_def query_def split_beta)
  moreover have h: "handed ?c d t" using assms(3) by (simp add: handed_def between_def)
  moreover from h have "matches ?c d"
    using assms(1) by (intro matches_update [OF assms(1), of _ _ t]) (auto simp: same_streams_def matches_def stage_def)
  ultimately show ?thesis by (intro exI [of _ ?c]) simp
qed

text \<open>A handler does the same in both networks.\<close>

abbreviation goes_along :: "process net \<Rightarrow> process net option \<Rightarrow> network option \<Rightarrow> bool" where
  "goes_along c \<equiv> rel_option (\<lambda>c' d'. matches c' d' \<and> tokz c' = tokz c)"

lemma handed_step:
  assumes "matches c d" and "handed c d t"
  shows "goes_along c (srv_step c t) (srv_step d t)"
proof -
  have h: "thread c t = lift (thread d t)" "\<not> between (tokz c) t"
    and m: "fst (srv c) = srv d" "peer c = peer d" "machine c = machine d" "to_srv c = to_srv d" "to_cli c = to_cli d"
    using assms by (simp_all add: handed_def matches_def same_streams_def)
  have go: "matches c' d'" if "same_streams c' d'" "tokz c' = tokz c" "thread c' = (thread c)(t := lift p)"
    "thread d' = (thread d)(t := p)" for c' d' p
    using that h(2) by (intro matches_update [OF assms(1), of _ _ t]) (auto simp: stage_def handed_def)
  show ?thesis
  proof (cases "thread d t")
    case Close
    with h(1) show ?thesis by (simp add: srv_step_def)
  next
    case (Send x p)
    with h(1) m show ?thesis by (auto simp: srv_step_def same_streams_def intro!: go)
  next
    case (Recv n r)
    with h(1) m show ?thesis by (auto simp: srv_step_def same_streams_def split: prog.splits intro!: go)
  next
    case (Act f)
    with h(1) m show ?thesis
      by (cases "f (srv d)") (auto simp: srv_step_def same_streams_def split_beta intro!: go)
  qed
qed

text \<open>Neither does a client see a difference, but that in \<open>d\<close> a thread with an empty request closes the
  connection before it has read the request.\<close>

lemma matches_client:
  assumes "matches c d" and "same_streams c' d'" and "srv c' = srv c" and "thread c' = thread c" and "thread d' = thread d"
  shows "matches c' d'"
  using assms by (simp add: matches_def stage_def waits_def received_def reads_def handed_def)

lemma client_step:
  assumes "matches c d"
  shows "\<lbrakk>cli_step c t = Some c'; thread c t = Close \<longrightarrow> thread d t = Close\<rbrakk> \<Longrightarrow>
      \<exists>d'. cli_step d t = Some d' \<and> matches c' d' \<and> tokz c' = tokz c"
    and "\<lbrakk>cli_step d t = Some d'; thread d t = Close \<longrightarrow> thread c t = Close\<rbrakk> \<Longrightarrow>
      \<exists>c'. cli_step c t = Some c' \<and> matches c' d' \<and> tokz c' = tokz c"
proof -
  have m: "fst (srv c) = srv d" "peer c = peer d" "machine c = machine d" "to_srv c = to_srv d" "to_cli c = to_cli d"
    using assms by (simp_all add: matches_def same_streams_def)
  note go = matches_client [OF assms]
  show "\<exists>d'. cli_step d t = Some d' \<and> matches c' d' \<and> tokz c' = tokz c"
    if "cli_step c t = Some c'" "thread c t = Close \<longrightarrow> thread d t = Close"
  proof (cases "peer d t")
    case (Recv n k)
    with that m show ?thesis
      by (cases "thread c t") (auto simp: cli_step_def same_streams_def split: if_splits intro!: go)
  qed (use that m in \<open>auto simp: cli_step_def same_streams_def intro!: go\<close>)
  show "\<exists>c'. cli_step c t = Some c' \<and> matches c' d' \<and> tokz c' = tokz c"
    if "cli_step d t = Some d'" "thread d t = Close \<longrightarrow> thread c t = Close"
  proof (cases "peer d t")
    case (Recv n k)
    with that m show ?thesis
      by (cases "thread d t") (auto simp: cli_step_def same_streams_def split: if_splits intro!: go)
  qed (use that m in \<open>auto simp: cli_step_def same_streams_def intro!: go\<close>)
qed

section \<open>Every calm run is one with the request read in one step\<close>

lemma calm_stage:
  assumes "matches c d" and "stage c d t" and "srv_step c t = Some c'"
    and "calls (tokz c') t \<noteq> calls (tokz c) t \<longrightarrow> quiet_for t (tokz c)"
  shows "\<exists>d'. reachable d d' \<and> matches c' d'"
proof -
  have one: "reachable d d'" if "srv_step d t = Some d'" for d'
    using that reachable.step [OF reachable.refl] step.server by blast
  from assms(2) consider "waits c d t" | buf where "received c d t buf" | line where "reads c d t line" | "handed c d t"
    unfolding stage_def by blast
  then show ?thesis
  proof cases
    case 1
    then show ?thesis using waits_step [OF assms(1) _ assms(3)] one by blast
  next
    case 2
    then show ?thesis using received_step [OF assms(1)] assms(3) reachable.refl by fastforce
  next
    case (3 line)
    then have le: "length (calls (tokz c) t) \<le> 4" by (simp add: reads_def reading_def)
    show ?thesis
    proof (cases "length (calls (tokz c) t) = 4")
      case True
      then show ?thesis using reads_done [OF assms(1) 3] assms(3) reachable.refl by fastforce
    next
      case False
      then have lt: "length (calls (tokz c) t) < 4" using le by simp
      obtain n where "thread c t = take_words t (Suc n)" using 3 lt by (metis Suc_diff_Suc reads_def)
      then obtain k' where k': "call t (tokz c) = Some k'" "tokz c' = k'"
        using assms(3) by (auto simp: srv_step_def split_beta)
      have "calls k' t \<noteq> calls (tokz c) t"
        using call_reading [of "tokz c" t line] 3 lt k'(1) by (auto simp: reads_def)
      then have "quiet_for t (tokz c)" using assms(4) k'(2) by simp
      then show ?thesis using reads_step [OF assms(1) 3 lt] assms(3) reachable.refl by fastforce
    qed
  next
    case 4
    then have "goes_along c (srv_step c t) (srv_step d t)" by (rule handed_step [OF assms(1)])
    with assms(3) one show ?thesis by (auto simp: option_rel_Some1)
  qed
qed

lemma calm_matches:
  assumes "calm c c'" and "matches c d"
  shows "\<exists>d'. reachable d d' \<and> matches c' d'"
  using assms(1)
proof cases
  case calm
  from calm(1) show ?thesis
  proof cases
    case (server t)
    then show ?thesis using calm_stage [OF assms(2) _ server] assms(2) calm(2) by (auto simp: matches_def)
  next
    case (client t)
    have "thread c t = Close \<longrightarrow> thread d t = Close" using closed_stage assms(2) by (auto simp: matches_def)
    with client_step(1) [OF assms(2) client] show ?thesis
      using reachable.step [OF reachable.refl] step.client by blast
  qed
qed

lemma calms_match:
  assumes "calms c c'" and "matches c d"
  shows "\<exists>d'. reachable d d' \<and> matches c' d'"
  using assms
proof (induction rule: rtranclp_induct)
  case base
  then show ?case using reachable.refl by blast
next
  case (step c1 c2)
  then obtain d1 where "reachable d d1" "matches c1 d1" by blast
  with calm_matches [OF step.hyps(2)] net_trans show ?case by blast
qed

section \<open>Every run with the request read in one step is a calm one\<close>

definition quiet :: "process net \<Rightarrow> bool" where
  "quiet c \<longleftrightarrow> (\<forall>t. \<not> between (tokz c) t)"

definition settled :: "process net \<Rightarrow> network \<Rightarrow> tid \<Rightarrow> bool" where
  "settled c d t \<longleftrightarrow> waits c d t \<or> handed c d t"

lemma quiet_settle:
  assumes "quiet_for t (tokz c)" and "settled c' d t" and "\<forall>u. u \<noteq> t \<longrightarrow> calls (tokz c') u = calls (tokz c) u"
  shows "quiet c'"
proof -
  have "\<not> between (tokz c') u" for u
    using assms by (cases "u = t") (auto simp: settled_def waits_def handed_def quiet_for_def between_def)
  then show ?thesis by (simp add: quiet_def)
qed

lemma settled_kept: "settled c d u \<Longrightarrow> thread c' u = thread c u \<Longrightarrow> calls (tokz c') u = calls (tokz c) u \<Longrightarrow> settled c' d u"
  by (simp add: settled_def waits_def handed_def between_def)

lemma calm_same: "srv_step c t = Some c' \<Longrightarrow> calls (tokz c') = calls (tokz c) \<Longrightarrow> calm c c'"
  by (rule calm.calm [OF step.server]) simp_all

text \<open>A thread whose turn it is reads its request to the end.\<close>

lemma read_on:
  assumes "matches c d" and "reads c d t line" and "quiet_for t (tokz c)"
  shows "\<exists>c'. calms c c' \<and> matches c' d \<and> handed c' d t
    \<and> (\<forall>u. u \<noteq> t \<longrightarrow> thread c' u = thread c u \<and> calls (tokz c') u = calls (tokz c) u)"
  using assms
proof (induction "4 - length (calls (tokz c) t)" arbitrary: c)
  case 0
  then have "length (calls (tokz c) t) = 4" by (simp add: reads_def reading_def)
  from reads_done [OF "0.prems"(1,2) this] obtain c' where
    c': "srv_step c t = Some c'" "matches c' d" "handed c' d t" "tokz c' = tokz c" "\<forall>u. u \<noteq> t \<longrightarrow> thread c' u = thread c u"
    by blast
  have "calm c c'" using c'(1,4) by (intro calm_same) simp_all
  with c'(2-5) show ?case by (intro exI [of _ c']) simp
next
  case (Suc n)
  then have "length (calls (tokz c) t) < 4" by simp
  from reads_step [OF Suc.prems(1,2) this Suc.prems(3)] obtain c1 x where
    c1: "srv_step c t = Some c1" "matches c1 d" "reads c1 d t line"
    "calls (tokz c1) = (calls (tokz c))(t := calls (tokz c) t @ [x])" "\<forall>u. u \<noteq> t \<longrightarrow> thread c1 u = thread c u"
    by blast
  have "calm c c1"
    by (rule calm.calm [OF step.server [OF c1(1)]]) (use c1(4) Suc.prems(3) in \<open>auto split: if_splits\<close>)
  moreover have "quiet_for t (tokz c1)" using c1(4) Suc.prems(3) by (simp add: quiet_for_def between_def)
  moreover have "n = 4 - length (calls (tokz c1) t)" using c1(4) Suc.hyps(2) by simp
  ultimately obtain c' where "calms c1 c'" "matches c' d" "handed c' d t"
    "\<forall>u. u \<noteq> t \<longrightarrow> thread c' u = thread c1 u \<and> calls (tokz c') u = calls (tokz c1) u"
    using Suc.hyps(1) [of c1] c1(2,3) by blast
  with \<open>calm c c1\<close> c1(4,5) show ?case
    by (intro exI [of _ c']) (simp add: converse_rtranclp_into_rtranclp)
qed

lemma settle:
  assumes "matches c d" and "quiet_for t (tokz c)"
  shows "\<exists>c'. calms c c' \<and> matches c' d \<and> settled c' d t \<and> quiet c'
    \<and> (\<forall>u. u \<noteq> t \<longrightarrow> thread c' u = thread c u \<and> calls (tokz c') u = calls (tokz c) u)"
proof -
  have "\<exists>c'. calms c c' \<and> matches c' d \<and> settled c' d t
    \<and> (\<forall>u. u \<noteq> t \<longrightarrow> thread c' u = thread c u \<and> calls (tokz c') u = calls (tokz c) u)"
  proof -
    have "stage c d t" using assms(1) by (simp add: matches_def)
    then consider "settled c d t" | buf where "received c d t buf" | line where "reads c d t line"
      unfolding stage_def settled_def by blast
    then show ?thesis
    proof cases
      case 1
      with assms(1) show ?thesis by (intro exI [of _ c]) simp
    next
      case (2 buf)
      from received_step [OF assms(1) 2] obtain c1 where c1: "srv_step c t = Some c1" "matches c1 d"
        "reads c1 d t (cstr buf)" "calls (tokz c1) = calls (tokz c)" "\<forall>u. u \<noteq> t \<longrightarrow> thread c1 u = thread c u"
        by blast
      have "quiet_for t (tokz c1)" using assms(2) c1(4) by (simp add: quiet_for_def between_def)
      from read_on [OF c1(2,3) this] obtain c' where "calms c1 c'" "matches c' d" "handed c' d t"
        "\<forall>u. u \<noteq> t \<longrightarrow> thread c' u = thread c1 u \<and> calls (tokz c') u = calls (tokz c1) u"
        by blast
      with calm_same [OF c1(1,4)] c1(4,5) show ?thesis
        by (intro exI [of _ c']) (simp add: settled_def converse_rtranclp_into_rtranclp)
    next
      case (3 line)
      from read_on [OF assms(1) 3 assms(2)] show ?thesis by (auto simp: settled_def)
    qed
  qed
  then show ?thesis using quiet_settle [OF assms(2)] by blast
qed

text \<open>At most one thread is between its calls in a calm run.\<close>

lemma one_between:
  assumes "matches c d" and "between (tokz c) t"
  shows "quiet_for t (tokz c)"
proof -
  have "\<exists>p. static (tokz c) = Some (u, p)" if b: "between (tokz c) u" for u
  proof -
    have "stage c d u" using assms(1) by (simp add: matches_def)
    then obtain line where "reads c d u line"
      using b by (auto simp: stage_def waits_def received_def handed_def between_def)
    with b show ?thesis by (auto simp: reads_def reading_def)
  qed
  with assms(2) show ?thesis unfolding quiet_for_def by (metis option.inject prod.inject)
qed

lemma calm_down:
  assumes "matches c d"
  shows "\<exists>c'. calms c c' \<and> matches c' d \<and> quiet c'"
proof (cases "quiet c")
  case False
  then obtain t where "between (tokz c) t" by (auto simp: quiet_def)
  with settle [OF assms one_between [OF assms]] show ?thesis by blast
qed (use assms in blast)

lemma settle_all:
  assumes "finite T" and "matches c d" and "quiet c"
  shows "\<exists>c'. calms c c' \<and> matches c' d \<and> quiet c' \<and> (\<forall>t \<in> T. settled c' d t)"
  using assms(1)
proof induction
  case empty
  with assms(2,3) show ?case by blast
next
  case (insert t T)
  then obtain c1 where c1: "calms c c1" "matches c1 d" "quiet c1" "\<forall>t \<in> T. settled c1 d t" by blast
  have "quiet_for t (tokz c1)" using c1(3) by (simp add: quiet_def quiet_for_def)
  from settle [OF c1(2) this] obtain c' where c': "calms c1 c'" "matches c' d" "settled c' d t" "quiet c'"
    "\<forall>u. u \<noteq> t \<longrightarrow> thread c' u = thread c1 u \<and> calls (tokz c') u = calls (tokz c1) u"
    by blast
  have "settled c' d u" if "u \<in> insert t T" for u
    using that c'(3,5) c1(4) settled_kept [of c1 d u c'] by (cases "u = t") auto
  with c1(1) c' show ?case by (intro exI [of _ c']) (auto intro: rtranclp_trans)
qed

text \<open>A settled thread and its client can do the same in both networks.\<close>

lemma recv_blocks:
  "thread c t = Recv n r \<Longrightarrow> srv_step c t = None \<longleftrightarrow> to_srv c t = [] \<and> peer c t \<noteq> Close"
  by (cases "peer c t") (simp_all add: srv_step_def)

lemma waits_enabled:
  assumes "matches c d" and "waits c d t"
  shows "srv_step c t = None \<longleftrightarrow> srv_step d t = None"
proof -
  have w: "thread c t = client_thread_strtok t" "thread d t = client_thread t"
    and m: "peer c t = peer d t" "to_srv c t = to_srv d t"
    using assms by (simp_all add: waits_def matches_def same_streams_def)
  show ?thesis
    using recv_blocks [OF w(1) [unfolded client_thread_strtok_def]] recv_blocks [OF w(2) [unfolded client_thread_def]]
    unfolding m by blast
qed

lemma settled_close:
  assumes "settled c d t"
  shows "thread c t = Close \<longleftrightarrow> thread d t = Close"
  using assms unfolding settled_def
proof
  assume "waits c d t"
  then have "thread c t \<noteq> Close" "thread d t \<noteq> Close"
    by (simp_all add: waits_def client_thread_strtok_def client_thread_def)
  then show ?thesis by blast
next
  assume "handed c d t"
  then have "thread c t = lift (thread d t)" by (simp add: handed_def)
  then show ?thesis by (cases "thread d t") simp_all
qed

lemma settled_step:
  assumes "matches c d" and "settled c d t"
  shows "goes_along c (srv_step c t) (srv_step d t)"
  using assms(2) unfolding settled_def
proof
  assume w: "waits c d t"
  show ?thesis
  proof (cases "srv_step c t")
    case None
    then show ?thesis using waits_enabled [OF assms(1) w] by simp
  next
    case (Some c')
    then show ?thesis using waits_step [OF assms(1) w] by auto
  qed
qed (rule handed_step [OF assms(1)])

lemma settled_ended:
  assumes "matches c d" and "settled c d t"
  shows "ended t c \<longleftrightarrow> ended t d"
proof -
  have "srv_step c t = None \<longleftrightarrow> srv_step d t = None" using settled_step [OF assms] by (cases "srv_step c t"; cases "srv_step d t") auto
  moreover have "cli_step c t = None \<longleftrightarrow> cli_step d t = None"
    using client_step [OF assms(1), of t] settled_close [OF assms(2)]
    by (cases "cli_step c t"; cases "cli_step d t") auto
  ultimately show ?thesis by (simp add: ended_def)
qed

lemma ended_settled:
  assumes "matches c d" and "ended t c"
  shows "settled c d t"
proof -
  have n: "srv_step c t = None" using assms(2) by (simp add: ended_def)
  have "\<not> received c d t buf" for buf using received_step [OF assms(1)] n by fastforce
  moreover have "\<not> reads c d t line" for line
  proof
    assume r: "reads c d t line"
    show False
    proof (cases "length (calls (tokz c) t) = 4")
      case True
      then show False using reads_done [OF assms(1) r] n by auto
    next
      case False
      with r have lt: "length (calls (tokz c) t) < 4" by (auto simp: reads_def reading_def)
      then obtain m where "thread c t = take_words t (Suc m)" using r by (metis Suc_diff_Suc reads_def)
      moreover obtain k' where "call t (tokz c) = Some k'" using call_reading [of "tokz c" t line] r lt by (auto simp: reads_def)
      ultimately show False using n by (simp add: srv_step_def split_beta)
    qed
  qed
  ultimately show ?thesis using assms(1) by (auto simp: matches_def stage_def settled_def)
qed

lemma step_matches:
  assumes "step d d'" and "matches c d" and "quiet c"
  shows "\<exists>c'. calms c c' \<and> matches c' d' \<and> quiet c'"
proof -
  have along: "calms c c' \<and> matches c' d' \<and> quiet c'"
    if "calms c c1" "quiet c1" "step c1 c'" "matches c' d'" "tokz c' = tokz c1" for c1 c'
  proof -
    have "calm c1 c'" by (rule calm.calm [OF that(3)]) (simp add: that(5))
    then show ?thesis using that by (simp add: quiet_def rtranclp.rtrancl_into_rtrancl)
  qed
  have q: "quiet_for t (tokz c)" for t using assms(3) by (simp add: quiet_def quiet_for_def)
  from assms(1) show ?thesis
  proof cases
    case (server t)
    obtain c1 where c1: "calms c c1" "matches c1 d" "settled c1 d t" "quiet c1"
      using settle [OF assms(2) q] by blast
    obtain c' where "srv_step c1 t = Some c'" "matches c' d'" "tokz c' = tokz c1"
      using settled_step [OF c1(2,3)] unfolding server by (auto simp: option_rel_Some2)
    then show ?thesis using along [OF c1(1,4) step.server] by blast
  next
    case (client t)
    obtain c1 where c1: "calms c c1" "matches c1 d" "settled c1 d t" "quiet c1"
      using settle [OF assms(2) q] by blast
    obtain c' where "cli_step c1 t = Some c'" "matches c' d'" "tokz c' = tokz c1"
      using client_step(2) [OF c1(2) client] settled_close [OF c1(3)] by blast
    then show ?thesis using along [OF c1(1,4) step.client] by blast
  qed
qed

lemma reachable_match:
  assumes "reachable d d'" and "matches c d"
  shows "\<exists>c'. calms c c' \<and> matches c' d' \<and> quiet c'"
  using assms(1)
proof induction
  case refl
  show ?case by (rule calm_down [OF assms(2)])
next
  case (step d1 d2)
  then obtain c1 where c1: "calms c c1" "matches c1 d1" "quiet c1" by blast
  from step_matches [OF step.hyps(2) c1(2,3)] obtain c' where "calms c1 c'" "matches c' d2" "quiet c'" by blast
  with c1(1) show ?case by (meson rtranclp_trans)
qed

text \<open>At the start.\<close>

lemma matches_connect: "\<forall>t. calls k t = [] \<Longrightarrow> matches (connect_strtok (s, k) args cs) (connect s args cs)"
  by (simp add: matches_def same_streams_def stage_def waits_def connect_strtok_def connect_def)

section \<open>Properties\<close>

text \<open>A process that has served no request yet.\<close>

definition new_tokenizer :: tokenizer where
  "new_tokenizer = \<lparr>static = None, bufs = (\<lambda>_. replicate BUF_SIZE NUL), calls = (\<lambda>_. [])\<rparr>"

lemma new_calls: "\<forall>t. calls new_tokenizer t = []"
  by (simp add: new_tokenizer_def)

text \<open>C29: The threads of the server that read their requests with the shared \<open>strtok\<close>
  refine those that read them in one step: every run, of any clients, in which no thread calls
  \<open>strtok\<close> while another is between its four calls reaches the same state of the
  server, the clients and the streams as a run with the request read in one step, and every such
  run is matched by one of the real threads, with the same connections ended.\<close>

theorem requests_refine:
  assumes "\<forall>t. calls k t = []"
  shows "(\<forall>c. calms (connect_strtok (s, k) args cs) c \<longrightarrow>
        (\<exists>d. reachable (connect s args cs) d \<and> same_streams c d \<and> (\<forall>t. ended t c \<longrightarrow> ended t d)))
    \<and> (\<forall>d T. reachable (connect s args cs) d \<and> finite T \<longrightarrow>
        (\<exists>c. calms (connect_strtok (s, k) args cs) c \<and> same_streams c d \<and> (\<forall>t \<in> T. ended t c \<longleftrightarrow> ended t d)))"
proof (intro conjI allI impI)
  note start = matches_connect [OF assms, of s args cs]
  show "\<exists>d. reachable (connect s args cs) d \<and> same_streams c d \<and> (\<forall>t. ended t c \<longrightarrow> ended t d)"
    if r: "calms (connect_strtok (s, k) args cs) c" for c
  proof -
    obtain d where d: "reachable (connect s args cs) d" "matches c d" using calms_match [OF r start] by blast
    have "ended t d" if "ended t c" for t
      using that settled_ended [OF d(2) ended_settled [OF d(2) that]] by simp
    with d show ?thesis by (auto simp: matches_def)
  qed
  show "\<exists>c. calms (connect_strtok (s, k) args cs) c \<and> same_streams c d \<and> (\<forall>t \<in> T. ended t c \<longleftrightarrow> ended t d)"
    if dT: "reachable (connect s args cs) d \<and> finite T" for d T
  proof -
    obtain c1 where c1: "calms (connect_strtok (s, k) args cs) c1" "matches c1 d" "quiet c1"
      using reachable_match [OF _ start] dT by blast
    obtain c where c: "calms c1 c" "matches c d" "\<forall>t \<in> T. settled c d t" using settle_all [OF _ c1(2,3)] dT by blast
    have "\<forall>t \<in> T. ended t c \<longleftrightarrow> ended t d" using settled_ended [OF c(2)] c(3) by blast
    moreover have "calms (connect_strtok (s, k) args cs) c" using c1(1) c(1) by (rule rtranclp_trans)
    ultimately show ?thesis using c(2) by (auto simp: matches_def)
  qed
qed

text \<open>The real threads serve an upload.\<close>

theorem requests_refine_witness:
  "\<exists>c. calms (connect_strtok (sample_server, new_tokenizer) (only 3 [''WRITE'', ''a.txt'', ''b.txt'']) (\<lambda>_. sample_client)) c
     \<and> contents (fst (srv c)) 7 = ''hello''"
proof -
  obtain d where d: "reachable (connect sample_server (only 3 [''WRITE'', ''a.txt'', ''b.txt'']) (\<lambda>_. sample_client)) d"
    "contents (srv d) 7 = ''hello''"
    using sample_uploaded by blast
  then show ?thesis
    using requests_refine [OF new_calls, of sample_server "only 3 [''WRITE'', ''a.txt'', ''b.txt'']" "\<lambda>_. sample_client"]
    unfolding same_streams_def by (metis finite.emptyI)
qed

text \<open>C22: Uploads, downloads and removals of any number of clients at the same time are serializable,
  with the real threads of the server and their shared \<open>strtok\<close>, in every
  interleaving in which no thread calls \<open>strtok\<close> while another is between its four
  calls, if no path of one is the path of another (two downloads may share it), uploads are with
  READ_WRITE and of files that are not empty, and a send arrives as a whole: each connection can
  come to rest from every state reached, and finitely many of them all can; a client that has
  ended is left with what it gets alone; the answers of the permission table do not change; and
  when all have ended, no lock is left and the files of the server, as a map from paths to
  contents, are those after serving the requests one after the other, in any order.\<close>

theorem mixed_requests_strtok:
  assumes jobs: "\<forall>t \<in> T. job_tid (j t) = t \<and> job_srv (j t) = s \<and> request_ok (kind t) (j t)"
    and apart: "\<forall>t \<in> T. \<forall>u \<in> T. t \<noteq> u \<longrightarrow> remote_file (j t) \<noteq> remote_file (j u) \<or> kind t = GET \<and> kind u = GET"
    and sound: "sound_names s" and free: "no_locks s" and new: "\<forall>t. calls k t = []"
    and run: "calms (connect_strtok (s, k) (\<lambda>t. if t \<in> T then request_args (kind t) (j t) else []) (\<lambda>t. job_client (j t))) c"
  shows "(\<forall>t \<in> T. \<exists>c'. calms c c' \<and> ended t c') \<and> (finite T \<longrightarrow> (\<exists>c'. calms c c' \<and> (\<forall>t \<in> T. ended t c')))
    \<and> (\<forall>t \<in> T. ended t c \<longrightarrow> thread c t = Close \<and> peer c t = Close \<and> machine c t \<in> outcomes (kind t) (j t))
    \<and> (\<forall>q. get_file_permission (tab (fst (srv c))) q = get_file_permission (tab s) q)
    \<and> ((\<forall>t \<in> T. ended t c) \<longrightarrow> no_locks (fst (srv c))
        \<and> (\<forall>ts. distinct ts \<and> set ts = T \<longrightarrow>
             stored_files (fst (srv c)) = fold (\<lambda>t. effect (kind t) (j t)) ts (stored_files s)))"
proof -
  let ?d0 = "requests T kind j s"
  obtain d where d: "reachable ?d0 d" "matches c d" using calms_match [OF run matches_connect [OF new]] by blast
  note m = mixed_requests [OF jobs apart sound free d(1)]
  have same: "fst (srv c) = srv d" "peer c = peer d" "machine c = machine d" using d(2) by (simp_all add: matches_def same_streams_def)
  have ended: "ended t d" if "ended t c" for t
    using settled_ended [OF d(2) ended_settled [OF d(2) that]] that by simp
  have all: "\<exists>c'. calms c c' \<and> (\<forall>t \<in> U. ended t c')" if U: "finite U" and e: "\<exists>d'. reachable d d' \<and> (\<forall>t \<in> U. ended t d')" for U
  proof -
    obtain d' where d': "reachable d d'" "\<forall>t \<in> U. ended t d'" using e by blast
    obtain c1 where c1: "calms c c1" "matches c1 d'" "quiet c1" using reachable_match [OF d'(1) d(2)] by blast
    obtain c' where c': "calms c1 c'" "matches c' d'" "\<forall>t \<in> U. settled c' d' t" using settle_all [OF U c1(2,3)] by blast
    have "\<forall>t \<in> U. ended t c'" using settled_ended [OF c'(2)] c'(3) d'(2) by blast
    with rtranclp_trans [OF c1(1) c'(1)] show ?thesis by blast
  qed
  have "\<exists>c'. calms c c' \<and> ended t c'" if "t \<in> T" for t
    using all [of "{t}"] m that by (elim conjE) (metis empty_iff finite.emptyI finite_insert insert_iff)
  moreover have "thread c t = Close \<and> peer c t = Close \<and> machine c t \<in> outcomes (kind t) (j t)" if "t \<in> T" "ended t c" for t
    using m that ended settled_close [OF ended_settled [OF d(2) that(2)]] same(2,3) by auto
  ultimately show ?thesis using all [of T] m ended unfolding same(1) by (elim conjE) (intro conjI; simp?; blast)
qed

text \<open>The example of \<open>Rfs_Isolation\<close> with the real threads.\<close>

theorem mixed_requests_strtok_witness:
  "\<exists>c. calms (connect_strtok (busy_server, new_tokenizer) (\<lambda>t. if t \<in> {3, 4} then [''GET'', ''b.txt'', ''a.txt'']
         else if t = 5 then [''WRITE'', ''a.txt'', ''c.txt''] else if t = 6 then [''RM'', ''d.txt''] else []) (\<lambda>_. sample_client)) c
     \<and> no_locks (fst (srv c)) \<and> peer c 5 = Close
     \<and> stored_files (fst (srv c)) = [[''server_data'', ''b.txt''] \<mapsto> ''hello'', [''server_data'', ''c.txt''] \<mapsto> ''hello'']"
    (is "\<exists>c. calms ?c0 c \<and> _ c")
proof -
  have "\<forall>t \<in> {3, 4, 5, 6}. job_tid (busy_job t) = t \<and> job_srv (busy_job t) = busy_server \<and> request_ok (busy_kind t) (busy_job t)"
    using busy_ok by (simp add: busy_fields)
  note th = mixed_requests_strtok [OF this busy_apart busy_sound busy_free new_calls, unfolded busy_args busy_fields(5)]
  obtain c where c: "calms ?c0 c" "\<forall>t \<in> {3, 4, 5, 6}. ended t c" using th [OF rtranclp.rtrancl_refl] by blast
  have "distinct [3, 4, 5, 6 :: tid] \<and> set [3, 4, 5, 6] = {3, 4, 5, 6 :: tid}" by simp
  with th [OF c(1)] c(2)
  have "stored_files (fst (srv c)) = fold (\<lambda>t. effect (busy_kind t) (busy_job t)) [3, 4, 5, 6] (stored_files busy_server)" by blast
  then have "stored_files (fst (srv c)) = [[''server_data'', ''b.txt''] \<mapsto> ''hello'', [''server_data'', ''c.txt''] \<mapsto> ''hello'']"
    unfolding busy_files .
  moreover have "no_locks (fst (srv c))" "peer c 5 = Close" using th [OF c(1)] c(2) by simp_all
  ultimately show ?thesis using c(1) by blast
qed

end
