(* ===== verification/Rfs_Exclusion.thy ===== *)
theory Rfs_Exclusion
  imports Rfs_Requests Rfs_Mix
begin

text \<open>
  The locks of the running server, with the threads that read their requests by \<open>strtok\<close>. Reading a request
  takes no lock, whatever the threads do to each other's words; so the discipline of \<open>Rfs_Locks\<close> is kept in
  every interleaving, also in those in which the requests are mixed up.
\<close>

section \<open>The discipline of the real threads\<close>

lemma disciplined_lift: "disciplined t h p \<Longrightarrow> disciplined_via fst t h (lift p)"
proof (induction rule: disciplined_via.induct)
  case (d_act f h)
  show ?case
    unfolding lift.simps
  proof (rule disciplined_via.d_act)
    fix sk sk' q
    assume "map_option (\<lambda>sp. ((fst sp, snd sk), snd sp)) (map_option (map_prod id lift) (f (fst sk))) = Some (sk', q)"
    then obtain s' p where "f (fst sk) = Some (s', p)" "sk' = (s', snd sk)" "q = lift p" by auto
    with d_act.IH show "\<exists>h'. allowed t h (fst sk) h' (fst sk') \<and> disciplined_via fst t h' q" by fastforce
  qed
qed (simp_all add: disciplined_via.intros)

lemma lift_disciplined: "disciplined_via fst t h q \<Longrightarrow> q = lift p \<Longrightarrow> disciplined t h p"
proof (induction arbitrary: p rule: disciplined_via.induct)
  case d_close
  then show ?case by (cases p) (simp_all add: disciplined_via.intros)
next
  case (d_send h q m)
  then show ?case by (cases p) (simp_all add: disciplined_via.intros)
next
  case (d_recv h k n)
  then show ?case by (cases p) (auto intro!: disciplined_via.d_recv)
next
  case (d_act f h)
  then obtain g where p: "p = Act g"
    and f: "f = (\<lambda>sk. map_option (\<lambda>sp. ((fst sp, snd sk), snd sp)) (map_option (map_prod id lift) (g (fst sk))))"
    by (cases p) auto
  show ?case
    unfolding p
  proof (rule disciplined_via.d_act)
    fix s s' p'
    assume "g s = Some (s', p')"
    then have "f (s, undefined) = Some ((s', undefined), lift p')" by (simp add: f)
    from d_act.IH [OF this] show "\<exists>h'. allowed t h s h' s' \<and> disciplined t h' p'" by auto
  qed
qed

lemma d_same_server:
  "(\<And>sk sk' q. f sk = Some (sk', q) \<Longrightarrow> fst sk' = fst sk \<and> disciplined_via fst t h q) \<Longrightarrow> disciplined_via fst t h (Act f)"
  by (rule disciplined_via.d_act) (auto intro!: exI [of _ h] allowed.quiet simp: same_locks_def)

lemma d_take_words: "disciplined_via fst t Free (take_words t n)"
proof (induction n)
  case 0
  have "disciplined_via fst t Free (lift (request_of t k))" for k
    by (rule disciplined_lift) (auto simp: request_of_def intro: d_run_command)
  then show ?case by (auto simp: query_def intro!: d_same_server)
next
  case (Suc n)
  then show ?case by (auto intro!: d_same_server)
qed

lemma d_client_thread_strtok: "disciplined_via fst t Free (client_thread_strtok t)"
  unfolding client_thread_strtok_def act_def
  by (rule disciplined_via.d_recv) (auto intro!: d_same_server disciplined_via.d_close d_take_words)

lemma lock_inv_connect_strtok: "no_locks s \<Longrightarrow> lock_inv_via fst (connect_strtok (s, k) args cs)"
  unfolding lock_inv_via_def connect_strtok_def no_locks_def lock_state_def
  by (intro exI [of _ "\<lambda>_. Free"]) (simp add: d_client_thread_strtok)

lemma calms_reachable: "calms c c' \<Longrightarrow> reachable c c'"
  by (induction rule: rtranclp.induct) (auto intro: reachable.intros elim: calm.cases)

section \<open>Mutual exclusion\<close>

text \<open>A thread that has its request is at a point of the handler where a file is changed, or read.\<close>

definition changing :: "process net \<Rightarrow> tid \<Rightarrow> inode \<Rightarrow> bool" where
  "changing c t i \<longleftrightarrow> (\<exists>p. thread c t = lift p \<and> at_change t i p)"

definition reading_file :: "process net \<Rightarrow> tid \<Rightarrow> inode \<Rightarrow> bool" where
  "reading_file c t i \<longleftrightarrow> (\<exists>p. thread c t = lift p \<and> at_read t i p)"

definition holds_lock :: "process net \<Rightarrow> tid \<Rightarrow> inode \<Rightarrow> bool" where
  "holds_lock c t i \<longleftrightarrow> writer (fst (srv c)) i = Some t \<or> t \<in> readers (fst (srv c)) i"

text \<open>C18: In every state that any number of clients and threads of the server can reach, with the
  shared \<open>strtok\<close> and in any interleaving: while a thread is about to receive or
  write the data of a file, or to remove it, under the descriptor it has locked, it is the
  writer of the lock, and no other thread is at such a point or about to read that file; a
  thread that is about to read a file holds a lock on it; a file locked exclusively has no
  readers, a thread holds at most one lock, and a thread that has ended holds none.\<close>

theorem locks_exclude:
  assumes "no_locks s" and "reachable (connect_strtok (s, k) args cs) c"
  shows "(\<forall>i t u. changing c t i \<and> (changing c u i \<or> reading_file c u i) \<longrightarrow> u = t)
    \<and> (\<forall>i t. changing c t i \<longrightarrow> writer (fst (srv c)) i = Some t)
    \<and> (\<forall>i t. reading_file c t i \<longrightarrow> holds_lock c t i)
    \<and> (\<forall>i. writer (fst (srv c)) i \<noteq> None \<longrightarrow> readers (fst (srv c)) i = {})
    \<and> (\<forall>i j t. holds_lock c t i \<and> holds_lock c t j \<longrightarrow> i = j)
    \<and> (\<forall>i t. thread c t = Close \<longrightarrow> \<not> holds_lock c t i)"
proof -
  have "lock_inv_via fst c" using lock_inv_reachable [OF assms(2) lock_inv_connect_strtok [OF assms(1)]] .
  then obtain hs where ls: "lock_state (fst (srv c)) hs" and d: "\<And>t. disciplined_via fst t (hs t) (thread c t)"
    by (auto simp: lock_inv_via_def)
  have w: "writer (fst (srv c)) i = Some t \<longleftrightarrow> hs t = Exclusive i" and r: "t \<in> readers (fst (srv c)) i \<longleftrightarrow> hs t = Shared i"
    and e: "writer (fst (srv c)) i \<noteq> None \<longrightarrow> readers (fst (srv c)) i = {}" for i t
    using ls unfolding lock_state_def by blast+
  have change: "writer (fst (srv c)) i = Some t" if "changing c t i" for i t
    using that lift_disciplined [OF d] needs_change unfolding changing_def w by blast
  have reads: "holds_lock c t i" if "reading_file c t i" for i t
    using that lift_disciplined [OF d] needs_read unfolding reading_file_def at_read_def holds_lock_def w r by blast
  have "u = t" if "changing c t i" "changing c u i \<or> reading_file c u i" for i t u
    using change [OF that(1)] that(2) change [of u i] reads [of u i] e [of i] by (auto simp: holds_lock_def)
  moreover have "i = j" if "holds_lock c t i" "holds_lock c t j" for i j t
    using that by (auto simp: holds_lock_def w r)
  moreover have "\<not> holds_lock c t i" if "thread c t = Close" for i t
    using d [of t] unfolding that holds_lock_def w r by cases auto
  ultimately show ?thesis using change reads e by blast
qed

text \<open>Two uploads to the same file: the first has the lock and is about to receive the data, the second
  waits.\<close>

theorem locks_exclude_witness:
  "\<exists>c. reachable (connect_strtok (mix_server, new_tokenizer) (\<lambda>_. [''WRITE'', ''a.txt'', ''b.txt'']) (\<lambda>t. job_client (mix_job t ''sun''))) c
    \<and> thread c 1 = lift (receive_file 1 7) \<and> writer (fst (srv c)) 7 = Some 1 \<and> readers (fst (srv c)) 7 = {}
    \<and> thread c 2 = lift (with_lock_ex 2 (file_of (full_path ''b.txt'')) 7 (receive_file 2 7)) \<and> srv_step c 2 = None
    \<and> (\<forall>u. changing c u 7 \<or> reading_file c u 7 \<longrightarrow> u = 1)"
proof -
  let ?args = "\<lambda>_. [''WRITE'', ''a.txt'', ''b.txt'']" and ?cs = "\<lambda>t. job_client (mix_job t ''sun'')"
  let ?f = "file_of (full_path ''b.txt'')"
  have none: "no_locks mix_server" by (simp add: no_locks_def mix_server_def sample_server_def)
  obtain d where d: "reachable (connect mix_server ?args ?cs) d" "thread d 1 = receive_file 1 7"
    "writer (srv d) 7 = Some 1" "readers (srv d) 7 = {}" "thread d 2 = with_lock_ex 2 ?f 7 (receive_file 2 7)" "srv_step d 2 = None"
    using one_waits by blast
  obtain c1 where c1: "calms (connect_strtok (mix_server, new_tokenizer) ?args ?cs) c1" "matches c1 d" "quiet c1"
    using reachable_match [OF d(1) matches_connect [OF new_calls]] by blast
  obtain c where c: "calms c1 c" "matches c d" "\<forall>t \<in> {1, 2}. settled c d t" 
    using settle_all [OF finite_insert [THEN iffD2, OF finite_insert [THEN iffD2, OF finite.emptyI]] c1(2,3)] by blast
  have r: "reachable (connect_strtok (mix_server, new_tokenizer) ?args ?cs) c"
    using c1(1) c(1) by (meson rtranclp_trans calms_reachable)
  have "receive_file 1 7 \<noteq> client_thread 1" "with_lock_ex 2 ?f 7 (receive_file 2 7) \<noteq> client_thread 2"
    by (simp_all add: receive_file_def client_thread_def with_lock_ex_def BUF_SIZE_def)
  then have "\<not> waits c d 1" "\<not> waits c d 2" by (simp_all only: waits_def d(2,5) simp_thms)
  with c(3) have "handed c d 1" "handed c d 2" by (simp_all only: settled_def insert_iff ball_simps simp_thms)
  then have th: "thread c 1 = lift (receive_file 1 7)" "thread c 2 = lift (with_lock_ex 2 ?f 7 (receive_file 2 7))"
    by (simp_all only: handed_def d(2,5))
  have "fst (srv c) = srv d" using c(2) by (simp add: matches_def same_streams_def)
  moreover have "srv_step c 2 = None" using settled_step [OF c(2), of 2] c(3) d(6) by (cases "srv_step c 2") auto
  moreover have "changing c 1 7" using th(1) by (auto simp: changing_def at_change_def)
  then have "\<forall>u. changing c u 7 \<or> reading_file c u 7 \<longrightarrow> u = 1" using locks_exclude [OF none r] by blast
  ultimately show ?thesis using r th d(3,4) by (intro exI [of _ c]) simp
qed

end
