(* ===== verification/Week6_Queue.thy ===== *)
theory Week6_Queue
  imports Linked_Shape Fifo_Interface
begin

text \<open>
  \<open>week6/queue.h\<close>, \<open>week6/queue.c\<close>: a singly linked queue of strings. Every element owns a node and a
  copy of its string; the queue struct itself belongs to the caller and is passed by reference, so it
  is an argument and a result. A failing \<open>malloc\<close> ends the process with code 1.
\<close>

record Node =
  data :: ptr
  "next" :: ptr

record Queue =
  front :: ptr
  rear :: ptr
  qsize :: int

record heap =
  nodes :: "Node store"
  texts :: "string store"

section \<open>Operations\<close>

definition initQueue :: "Queue \<Rightarrow> Queue" where
  "initQueue q = q\<lparr>front := Null, rear := Null, qsize := 0\<rparr>"

definition enqueue :: "heap \<Rightarrow> Queue \<Rightarrow> string \<Rightarrow> (Queue \<times> heap) outcome c" where
  "enqueue h q str =
     (case malloc (nodes h) of
        (Null, ns) \<Rightarrow> Some (Exit 1)
      | (newNode, ns) \<Rightarrow> do {
          ns \<leftarrow> assign ns newNode (\<lambda>n. n\<lparr>next := Null\<rparr>);
          let (d, ts) = malloc (texts h);
          ns \<leftarrow> assign ns newNode (\<lambda>n. n\<lparr>data := d\<rparr>);
          (if d = Null then Some (Exit 1)
           else do {
             ts \<leftarrow> assign ts d (\<lambda>_. str);
             (q, ns) \<leftarrow>
               (if rear q = Null then Some (q\<lparr>front := newNode, rear := newNode\<rparr>, ns)
                else do {
                  ns \<leftarrow> assign ns (rear q) (\<lambda>n. n\<lparr>next := newNode\<rparr>);
                  Some (q\<lparr>rear := newNode\<rparr>, ns)
                });
             n \<leftarrow> c_incr (qsize q);
             Some (Cont (q\<lparr>qsize := n\<rparr>, h\<lparr>nodes := ns, texts := ts\<rparr>))
           })
        })"

definition dequeue :: "heap \<Rightarrow> Queue \<Rightarrow> (ptr \<times> Queue \<times> heap) c" where
  "dequeue h q =
     (if front q = Null then Some (Null, q, h)
      else do {
        let temp = front q;
        n \<leftarrow> load (nodes h) temp;
        let q = q\<lparr>front := next n\<rparr>;
        let q = (if front q = Null then q\<lparr>rear := Null\<rparr> else q);
        ns \<leftarrow> free (nodes h) temp;
        k \<leftarrow> c_decr (qsize q);
        Some (data n, q\<lparr>qsize := k\<rparr>, h\<lparr>nodes := ns\<rparr>)
      })"

definition isEmptyQueue :: "Queue \<Rightarrow> bool" where
  "isEmptyQueue q \<longleftrightarrow> qsize q = 0"

definition sizeQueue :: "Queue \<Rightarrow> int" where
  "sizeQueue q = qsize q"

partial_function (option) freeQueue :: "heap \<Rightarrow> Queue \<Rightarrow> (Queue \<times> heap) c" where
  "freeQueue h q =
     (if isEmptyQueue q then Some (q, h)
      else do {
        (d, q, h) \<leftarrow> dequeue h q;
        ts \<leftarrow> (if d \<noteq> Null then free (texts h) d else Some (texts h));
        freeQueue (h\<lparr>texts := ts\<rparr>) q
      })"

declare freeQueue.simps [code]

section \<open>The strings a queue holds\<close>

text \<open>\<open>sseg h as q\<close>: the nodes at the addresses \<open>as\<close> are linked in that order and end in \<open>q\<close>.\<close>

fun sseg :: "(nat \<Rightarrow> Node option) \<Rightarrow> nat list \<Rightarrow> ptr \<Rightarrow> bool" where
  "sseg h [] q = True"
| "sseg h (a # as) q \<longleftrightarrow> (\<exists>n. h a = Some n \<and> next n = first_ptr as q) \<and> sseg h as q"

lemma sseg_append: "sseg h (as @ bs) q \<longleftrightarrow> sseg h as (first_ptr bs q) \<and> sseg h bs q"
  by (induction as) auto

lemma sseg_frame [simp]: "a \<notin> set as \<Longrightarrow> sseg (h(a := v)) as q = sseg h as q"
  by (induction as) auto

lemma sseg_snoc:
  "sseg h (as @ [l]) q \<Longrightarrow> distinct (as @ [l]) \<Longrightarrow> h l = Some n \<Longrightarrow> a \<notin> set (as @ [l]) \<Longrightarrow> next m = r \<Longrightarrow>
   sseg (h(a := Some m, l := Some (n\<lparr>next := Addr a\<rparr>))) (as @ [l, a]) r"
  by (simp add: sseg_append)

text \<open>The entries are pairs of the address of the node and of the string it owns; the heap holds
  nothing else, and memory does not run out.\<close>

definition entries_rep :: "Queue \<times> heap \<Rightarrow> (nat \<times> nat) list \<Rightarrow> string list \<Rightarrow> bool" where
  "entries_rep = (\<lambda>(q, h) es xs.
     front q = first_ptr (map fst es) Null \<and> rear q = last_ptr Null (map fst es) \<and> qsize q = int (length es)
     \<and> sseg (cells (nodes h)) (map fst es) Null \<and> distinct (map fst es) \<and> distinct (map snd es)
     \<and> live (nodes h) = set (map fst es) \<and> live (texts h) = set (map snd es)
     \<and> (\<forall>(a, t) \<in> set es. \<exists>n. cells (nodes h) a = Some n \<and> data n = Addr t)
     \<and> map (\<lambda>e. cells (texts h) (snd e)) es = map Some xs
     \<and> wf_store (nodes h) \<and> wf_store (texts h))"

definition heap_ok :: "heap \<Rightarrow> bool" where
  "heap_ok h \<longleftrightarrow> (\<forall>n. alloc (nodes h) n \<noteq> None) \<and> (\<forall>n. alloc (texts h) n \<noteq> None)"

definition strings_rep :: "Queue \<times> heap \<Rightarrow> string list \<Rightarrow> bool" where
  "strings_rep s xs \<longleftrightarrow> (\<exists>es. entries_rep s es xs) \<and> heap_ok (snd s) \<and> int (length xs) \<le> INT_MAX"

lemma entries_length: "entries_rep s es xs \<Longrightarrow> length es = length xs"
  unfolding entries_rep_def by (metis (mono_tags, lifting) length_map split_conv surj_pair)

lemma init_rep:
  "live (nodes h) = {} \<Longrightarrow> live (texts h) = {} \<Longrightarrow> wf_store (nodes h) \<Longrightarrow> wf_store (texts h) \<Longrightarrow> heap_ok h \<Longrightarrow>
   strings_rep (initQueue q, h) []"
  by (auto simp: strings_rep_def entries_rep_def initQueue_def)

lemma entries_facts:
  assumes "entries_rep (q, h) es xs"
  shows "front q = first_ptr (map fst es) Null" "rear q = last_ptr Null (map fst es)" "qsize q = int (length es)"
    "sseg (cells (nodes h)) (map fst es) Null" "distinct (map fst es)" "distinct (map snd es)"
    "live (nodes h) = set (map fst es)" "live (texts h) = set (map snd es)"
    "\<forall>(a, t) \<in> set es. \<exists>n. cells (nodes h) a = Some n \<and> data n = Addr t"
    "map (\<lambda>e. cells (texts h) (snd e)) es = map Some xs" "wf_store (nodes h)" "wf_store (texts h)"
  using assms by (simp_all add: entries_rep_def)

lemma entries_fresh:
  assumes "entries_rep (q, h) es xs"
  shows "next_addr (nodes h) \<notin> set (map fst es)" "next_addr (texts h) \<notin> set (map snd es)"
  using entries_facts(7,8,11,12) [OF assms] fresh_cell [of "nodes h" "next_addr (nodes h)"]
    fresh_cell [of "texts h" "next_addr (texts h)"] by (auto simp: live_def)

lemma new_text:
  fixes str :: string
  assumes "entries_rep (q, h) es xs"
  defines "t \<equiv> next_addr (texts h)"
  defines "ts \<equiv> (texts h)\<lparr>cells := (cells (texts h))(t := Some str), next_addr := Suc t\<rparr>"
  shows "map (\<lambda>e. cells ts (snd e)) (es @ [(a, t)]) = map Some (xs @ [str])"
    "live ts = set (map snd (es @ [(a, t)]))" "wf_store ts"
proof -
  note r = entries_facts [OF assms(1)] and fresh = entries_fresh [OF assms(1), folded t_def]
  have "cells ts (snd e) = cells (texts h) (snd e)" if "e \<in> set es" for e
  proof -
    have "snd e \<noteq> t" using that fresh(2) by (metis imageI image_set)
    then show ?thesis by (simp add: ts_def)
  qed
  then have "map (\<lambda>e. cells ts (snd e)) es = map Some xs" using r(10) by (simp cong: map_cong)
  then show "map (\<lambda>e. cells ts (snd e)) (es @ [(a, t)]) = map Some (xs @ [str])"
    "live ts = set (map snd (es @ [(a, t)]))" "wf_store ts"
    using r fresh by (auto simp: ts_def t_def live_simps live_simps_next wf_store_alloc)
qed

text \<open>Linking the new node behind the last one.\<close>

lemma new_node:
  fixes l t :: nat and n m :: Node
  assumes "entries_rep (q, h) (es' @ [(l, k)]) xs" and "cells (nodes h) l = Some n" and "data n = Addr k"
    and "data m = Addr t" and "next m = Null"
  defines "es \<equiv> es' @ [(l, k)]" and "a \<equiv> next_addr (nodes h)"
  defines "ns \<equiv> (nodes h)\<lparr>cells := (cells (nodes h))(a := Some m, l := Some (n\<lparr>next := Addr a\<rparr>)), next_addr := Suc a\<rparr>"
  shows "sseg (cells ns) (map fst (es @ [(a, t)])) Null" and "live ns = set (map fst (es @ [(a, t)]))"
    and "wf_store ns" and "\<forall>(b, u) \<in> set (es @ [(a, t)]). \<exists>n. cells ns b = Some n \<and> data n = Addr u"
proof -
  note r = entries_facts [OF assms(1)] and fresh = entries_fresh [OF assms(1), folded a_def es_def]
  have la: "l \<noteq> a" using fresh(1) by (auto simp: es_def)
  show "sseg (cells ns) (map fst (es @ [(a, t)])) Null"
    using sseg_snoc [of "cells (nodes h)" "map fst es'" l Null n a m Null] r(4,5) assms(2,5) fresh(1)
    by (simp add: ns_def es_def)
  show "live ns = set (map fst (es @ [(a, t)]))"
    using r(7) by (auto simp: ns_def es_def live_simps live_simps_next)
  show "wf_store ns"
    using r(11) live_bound [OF r(11) assms(2)] by (auto simp: ns_def a_def wf_store_def less_SucI)
  have "\<exists>n. cells ns b = Some n \<and> data n = Addr u" if bu: "(b, u) \<in> set es" for b u
  proof (cases "b = l")
    case True
    then have "u = k" using bu r(5) by (auto simp: es_def image_iff)
    with True assms(3) show ?thesis by (simp add: ns_def)
  next
    case False
    have "b \<noteq> a" using bu fresh(1) by force
    with False r(9) bu show ?thesis by (auto simp: ns_def es_def)
  qed
  with la assms(4) show "\<forall>(b, u) \<in> set (es @ [(a, t)]). \<exists>n. cells ns b = Some n \<and> data n = Addr u"
    by (auto simp: ns_def)
qed

lemma enqueue_entries:
  assumes "entries_rep (q, h) es xs" and "heap_ok h" and "int (length xs) < INT_MAX"
  shows "\<exists>q' h'. enqueue h q str = Some (Cont (q', h')) \<and> heap_ok h'
    \<and> entries_rep (q', h') (es @ [(next_addr (nodes h), next_addr (texts h))]) (xs @ [str])"
proof -
  let ?a = "next_addr (nodes h)" and ?t = "next_addr (texts h)"
  obtain j1 j2 where j: "alloc (nodes h) ?a = Some j1" "alloc (texts h) ?t = Some j2"
    using assms(2) unfolding heap_ok_def by (metis option.exhaust)
  note r = entries_facts [OF assms(1)] and fresh = entries_fresh [OF assms(1)]
    and ts = new_text(1,2) [OF assms(1), where str = str and a = ?a] new_text(3) [OF assms(1), where str = str]
  have len: "c_incr (qsize q) = Some (int (Suc (length es)))"
    using assms(3) entries_length [OF assms(1)] r(3) c_incr_Some [of "int (length es)"] by simp
  let ?m = "j1\<lparr>next := Null, data := Addr ?t\<rparr>"
  let ?ts = "(texts h)\<lparr>cells := (cells (texts h))(?t := Some str), next_addr := Suc ?t\<rparr>"
  show ?thesis
  proof (cases es rule: rev_cases)
    case Nil
    let ?ns = "(nodes h)\<lparr>cells := (cells (nodes h))(?a := Some ?m), next_addr := Suc ?a\<rparr>"
    let ?q = "q\<lparr>front := Addr ?a, rear := Addr ?a, qsize := 1\<rparr>"
    have "enqueue h q str = Some (Cont (?q, h\<lparr>nodes := ?ns, texts := ?ts\<rparr>))"
      using j r(2) Nil len by (simp add: enqueue_def malloc_ok)
    moreover have "live ?ns = {?a}" "wf_store ?ns"
      using r(7,11) Nil by (auto simp: live_simps live_simps_next wf_store_alloc)
    with ts r Nil have "entries_rep (?q, h\<lparr>nodes := ?ns, texts := ?ts\<rparr>) (es @ [(?a, ?t)]) (xs @ [str])"
      by (simp add: entries_rep_def)
    ultimately show ?thesis using assms(2) by (auto simp: heap_ok_def)
  next
    case (snoc es' e)
    obtain l k where e: "e = (l, k)" by (cases e)
    obtain n where n: "cells (nodes h) l = Some n" "data n = Addr k" using r(9) snoc e by auto
    have la: "l \<noteq> ?a" using fresh(1) snoc e by auto
    let ?ns = "(nodes h)\<lparr>cells := (cells (nodes h))(?a := Some ?m, l := Some (n\<lparr>next := Addr ?a\<rparr>)), next_addr := Suc ?a\<rparr>"
    let ?q = "q\<lparr>rear := Addr ?a, qsize := int (Suc (length es))\<rparr>"
    have "enqueue h q str = Some (Cont (?q, h\<lparr>nodes := ?ns, texts := ?ts\<rparr>))"
      using j r(2) snoc e len n la by (simp add: enqueue_def malloc_ok)
    moreover have "entries_rep (?q, h\<lparr>nodes := ?ns, texts := ?ts\<rparr>) (es @ [(?a, ?t)]) (xs @ [str])"
      using new_node [of q h es' l k xs n ?m ?t] assms(1) n ts r(1,3,5,6) fresh snoc e
      by (simp add: entries_rep_def)
    ultimately show ?thesis using assms(2) by (auto simp: heap_ok_def)
  qed
qed

lemma dequeue_entries:
  assumes "entries_rep (q, h) ((a, t) # es) (x # xs)" and "int (length xs) < INT_MAX"
  shows "\<exists>q' h'. dequeue h q = Some (Addr t, q', h') \<and> cells (texts h') t = Some x \<and> alloc (nodes h') = alloc (nodes h)
    \<and> texts h' = texts h
    \<and> entries_rep (q', h'\<lparr>texts := (texts h)\<lparr>cells := (cells (texts h))(t := None)\<rparr>\<rparr>) es xs"
proof -
  let ?es = "(a, t) # es"
  have r: "front q = Addr a" "rear q = last_ptr (Addr a) (map fst es)" "qsize q = int (Suc (length es))"
    "sseg (cells (nodes h)) (map fst ?es) Null" "distinct (map fst ?es)" "distinct (map snd ?es)"
    "live (nodes h) = set (map fst ?es)" "live (texts h) = set (map snd ?es)"
    "\<forall>(a, t) \<in> set ?es. \<exists>n. cells (nodes h) a = Some n \<and> data n = Addr t"
    "cells (texts h) t = Some x" "map (\<lambda>e. cells (texts h) (snd e)) es = map Some xs"
    "wf_store (nodes h)" "wf_store (texts h)"
    using assms(1) by (simp_all add: entries_rep_def)
  obtain n where n: "cells (nodes h) a = Some n" "next n = first_ptr (map fst es) Null" "data n = Addr t"
    using r(4,9) by auto
  have len: "c_decr (qsize q) = Some (int (length es))"
    using assms(2) entries_length [OF assms(1)] r(3) c_decr_Some [of "int (Suc (length es))"] by simp
  let ?q = "q\<lparr>front := first_ptr (map fst es) Null, rear := last_ptr Null (map fst es), qsize := int (length es)\<rparr>"
  let ?ns = "(nodes h)\<lparr>cells := (cells (nodes h))(a := None)\<rparr>"
  let ?ts = "(texts h)\<lparr>cells := (cells (texts h))(t := None)\<rparr>"
  have "dequeue h q = Some (Addr t, ?q, h\<lparr>nodes := ?ns\<rparr>)"
    using r(1,2) n len by (cases es) (auto simp: dequeue_def)
  moreover have "entries_rep (?q, (h\<lparr>nodes := ?ns, texts := ?ts\<rparr>)) es xs"
  proof -
    have same: "cells ?ts (snd e) = cells (texts h) (snd e)" "cells ?ns (fst e) = cells (nodes h) (fst e)"
      if "e \<in> set es" for e
    proof -
      have "snd e \<in> set (map snd es)" "fst e \<in> set (map fst es)" using that by auto
      with r(5,6) have "snd e \<noteq> t" "fst e \<noteq> a" by auto
      then show "cells ?ts (snd e) = cells (texts h) (snd e)" "cells ?ns (fst e) = cells (nodes h) (fst e)"
        by auto
    qed
    have "map (\<lambda>e. cells ?ts (snd e)) es = map Some xs" using same(1) r(11) by (simp cong: map_cong)
    moreover have "\<forall>(a, t) \<in> set es. \<exists>n. cells ?ns a = Some n \<and> data n = Addr t"
      using same(2) r(9) by fastforce
    moreover have "live ?ns = set (map fst es)" "live ?ts = set (map snd es)"
      using r(5-8) by (auto simp: live_simps live_simps_next)
    moreover have "wf_store ?ns" "wf_store ?ts" using r(12,13) by (auto simp: wf_store_def)
    moreover have "sseg (cells ?ns) (map fst es) Null" using r(4,5) by simp
    ultimately show ?thesis using r(5,6) by (simp add: entries_rep_def)
  qed
  ultimately show ?thesis using r(10) by (intro exI [of _ ?q] exI [of _ "h\<lparr>nodes := ?ns\<rparr>"]) simp
qed

lemma dequeue_empty:
  assumes "entries_rep (q, h) es []"
  shows "dequeue h q = Some (Null, q, h)"
proof -
  have "es = []" using entries_length [OF assms] by simp
  with assms show ?thesis by (simp add: entries_rep_def dequeue_def)
qed

lemma entries_size:
  assumes "entries_rep (q, h) es xs"
  shows "qsize q = int (length xs)"
proof -
  have "qsize q = int (length es)" using assms by (simp add: entries_rep_def)
  with entries_length [OF assms] show ?thesis by simp
qed

lemma isEmpty_rep: "strings_rep (q, h) xs \<Longrightarrow> isEmptyQueue q \<longleftrightarrow> xs = []"
  by (auto simp: strings_rep_def isEmptyQueue_def entries_size)

lemma strings_size: "strings_rep (q, h) xs \<Longrightarrow> sizeQueue q = int (length xs)"
  by (auto simp: strings_rep_def sizeQueue_def entries_size)

lemma enqueue_rep:
  assumes "strings_rep (q, h) xs" and "int (length xs) < INT_MAX"
  shows "\<exists>q' h'. enqueue h q str = Some (Cont (q', h')) \<and> strings_rep (q', h') (xs @ [str])"
proof -
  obtain es where "entries_rep (q, h) es xs" "heap_ok h" using assms(1) by (auto simp: strings_rep_def)
  from enqueue_entries [OF this assms(2), of str] assms(2) show ?thesis
    unfolding strings_rep_def by fastforce
qed

text \<open>What the client does with an element: it reads the string and frees it.\<close>

definition take_string :: "Queue \<times> heap \<Rightarrow> (string option \<times> Queue \<times> heap) c" where
  "take_string = (\<lambda>(q, h). do {
     (d, q, h) \<leftarrow> dequeue h q;
     (if d = Null then Some (None, q, h)
      else do {
        str \<leftarrow> load (texts h) d;
        ts \<leftarrow> free (texts h) d;
        Some (Some str, q, h\<lparr>texts := ts\<rparr>)
      })
   })"

definition put_string :: "string \<Rightarrow> Queue \<times> heap \<Rightarrow> (Queue \<times> heap) c" where
  "put_string str = (\<lambda>(q, h). do { r \<leftarrow> enqueue h q str; (case r of Exit n \<Rightarrow> None | Cont s \<Rightarrow> Some s) })"

lemma dequeue_rep:
  assumes "strings_rep (q, h) (x # xs)"
  shows "\<exists>t q' h'. dequeue h q = Some (Addr t, q', h') \<and> cells (texts h') t = Some x
    \<and> strings_rep (q', h'\<lparr>texts := (texts h')\<lparr>cells := (cells (texts h'))(t := None)\<rparr>\<rparr>) xs"
proof -
  obtain es where es: "entries_rep (q, h) es (x # xs)" "heap_ok h" and len: "int (length (x # xs)) \<le> INT_MAX"
    using assms by (auto simp: strings_rep_def)
  then obtain a t es' where "es = (a, t) # es'"
    using entries_length [OF es(1)] by (cases es) auto
  with dequeue_entries [of q h a t es' x xs] es len show ?thesis
    unfolding strings_rep_def heap_ok_def by fastforce
qed

lemma take_string_rep:
  assumes "strings_rep s (x # xs)"
  shows "\<exists>s'. take_string s = Some (Some x, s') \<and> strings_rep s' xs"
proof -
  obtain q h where s: "s = (q, h)" by (cases s)
  then obtain t q' h' where "dequeue h q = Some (Addr t, q', h')" "cells (texts h') t = Some x"
    "strings_rep (q', h'\<lparr>texts := (texts h')\<lparr>cells := (cells (texts h'))(t := None)\<rparr>\<rparr>) xs"
    using dequeue_rep assms by blast
  with s show ?thesis by (auto simp: take_string_def)
qed

interpretation string_queue: unbounded_fifo strings_rep put_string take_string "\<lambda>_. True" "\<lambda>_. True" "2147483647"
proof unfold_locales
  show "\<exists>s'. put_string v s = Some s' \<and> strings_rep s' (xs @ [v])"
    if "strings_rep s xs" "length xs < 2147483647" for s xs v
    using that enqueue_rep [of "fst s" "snd s" xs v] by (cases s) (auto simp: put_string_def)
  show "\<exists>s'. take_string s = Some (Some x, s') \<and> strings_rep s' xs" if "strings_rep s (x # xs)" for s x xs
    using that by (rule take_string_rep)
  show "\<exists>s'. take_string s = Some (None, s') \<and> strings_rep s' []" if "strings_rep s []" for s
    using that dequeue_empty by (cases s) (fastforce simp: strings_rep_def take_string_def)
qed simp_all

text \<open>\<open>freeQueue\<close> gives everything back.\<close>

lemma freeQueue_rep:
  assumes "strings_rep (q, h) xs"
  shows "\<exists>q' h'. freeQueue h q = Some (q', h') \<and> strings_rep (q', h') []
    \<and> live (nodes h') = {} \<and> live (texts h') = {}"
  using assms
proof (induction xs arbitrary: q h)
  case Nil
  then have "entries_rep (q, h) [] []" using entries_length by (fastforce simp: strings_rep_def)
  with Nil show ?case
    by (subst freeQueue.simps) (simp add: isEmpty_rep [OF Nil] entries_rep_def)
next
  case (Cons x xs)
  from dequeue_rep [OF Cons.prems] obtain t q1 h1 where d: "dequeue h q = Some (Addr t, q1, h1)"
    "cells (texts h1) t = Some x"
    "strings_rep (q1, h1\<lparr>texts := (texts h1)\<lparr>cells := (cells (texts h1))(t := None)\<rparr>\<rparr>) xs"
    by blast
  with Cons.IH [OF d(3)] isEmpty_rep [OF Cons.prems] show ?case by (subst freeQueue.simps) simp
qed

lemma enqueue_exit:
  "alloc (nodes h) (next_addr (nodes h)) = None \<or> alloc (texts h) (next_addr (texts h)) = None \<Longrightarrow>
   enqueue h q str = Some (Exit 1)"
  by (cases "alloc (nodes h) (next_addr (nodes h))") (auto simp: enqueue_def malloc_ok malloc_fail)

section \<open>Properties\<close>

definition blank_heap :: heap where
  "blank_heap = \<lparr>nodes = empty_store (\<lambda>_. Some \<lparr>data = Null, next = Null\<rparr>), texts = empty_store (\<lambda>_. Some [])\<rparr>"

lemma blank_rep: "strings_rep (initQueue q, blank_heap) []"
  by (rule init_rep) (simp_all add: blank_heap_def heap_ok_def live_def, simp_all add: empty_store_def)

text \<open>C17: The linked queue of strings implements the abstract queue while memory lasts: every
  sequence of enqueues and of dequeues followed by a free is defined, stores every string, gives
  exactly the answers of the abstract queue and leaves what that leaves, the size is right, and
  \<open>freeQueue\<close> gives back all nodes and strings.\<close>

theorem string_queue_fifo:
  assumes "strings_rep (q, h) []" and "length (puts ops) \<le> 2147483647"
  shows "\<exists>outs q' h' ys. run_ops put_string take_string (\<lambda>_. True) ops (q, h) = Some (puts ops, outs, q', h')
    \<and> strings_rep (q', h') ys \<and> sizeQueue q' = int (length ys)
    \<and> (outs, ys) = spec_run \<infinity> ops [] \<and> puts ops = delivered_values outs @ ys
    \<and> (\<exists>q'' h''. freeQueue h' q' = Some (q'', h'') \<and> live (nodes h'') = {} \<and> live (texts h'') = {})"
proof -
  obtain outs q' h' ys where "run_ops put_string take_string (\<lambda>_. True) ops (q, h) = Some (puts ops, outs, q', h')"
    "strings_rep (q', h') ys" "(outs, ys) = spec_run \<infinity> ops []" "puts ops = delivered_values outs @ ys"
    using string_queue.run_stores_all [OF assms(1), of ops] assms(2) by (cases "spec_run \<infinity> ops []") auto
  with strings_size freeQueue_rep show ?thesis by fast
qed

theorem string_queue_fifo_witness:
  "\<exists>q' h'. run_ops put_string take_string (\<lambda>_. True) [Put ''a'', Put ''b'', Get, Put ''c'']
      (initQueue \<lparr>front = Null, rear = Null, qsize = 7\<rparr>, blank_heap) = Some ([''a'', ''b'', ''c''], [Some ''a''], q', h')
    \<and> strings_rep (q', h') [''b'', ''c''] \<and> sizeQueue q' = 2
    \<and> (\<exists>q'' h''. freeQueue h' q' = Some (q'', h'') \<and> live (nodes h'') = {} \<and> live (texts h'') = {})"
  using string_queue_fifo [OF blank_rep, of "[Put ''a'', Put ''b'', Get, Put ''c'']"] by auto

end
