(* ===== verification/C_Files.thy ===== *)
theory C_Files
  imports C_Strings
begin

text \<open>
  Reading text files. A stream is the list of the bytes still to be read. \<open>fgets\<close> takes at most one
  byte less than the size of the buffer and stops after a newline; it returns \<open>NULL\<close> (here \<open>None\<close>) at
  the end of the file.
\<close>

fun line_of :: "nat \<Rightarrow> string \<Rightarrow> string \<times> string" where
  "line_of 0 cs = ([], cs)"
| "line_of n [] = ([], [])"
| "line_of (Suc n) (c # cs) =
     (if c = NEWLINE then ([c], cs) else (case line_of n cs of (l, rest) \<Rightarrow> (c # l, rest)))"

definition fgets :: "nat \<Rightarrow> string \<Rightarrow> (string \<times> string) option" where
  "fgets sz cs = (if cs = [] then None else Some (line_of (sz - 1) cs))"

lemma line_of_append: "line_of n cs = (l, rest) \<Longrightarrow> l @ rest = cs"
  by (induction n cs arbitrary: l rule: line_of.induct) (auto split: if_splits prod.splits)

lemma line_of_length: "line_of n cs = (l, rest) \<Longrightarrow> length l \<le> n"
  by (induction n cs arbitrary: l rule: line_of.induct) (auto split: if_splits prod.splits)

lemma line_of_nonempty: "line_of (Suc n) (c # cs) = (l, rest) \<Longrightarrow> l \<noteq> []"
  by (auto split: if_splits prod.splits)

lemma fgets_Some:
  assumes "fgets sz cs = Some (l, rest)" and "1 < sz"
  shows "l @ rest = cs" and "l \<noteq> []" and "length l < sz" and "length rest < length cs"
proof -
  have cs: "cs \<noteq> []" and lr: "line_of (sz - 1) cs = (l, rest)"
    using assms(1) by (auto simp: fgets_def split: if_splits)
  then show app: "l @ rest = cs" and "length l < sz"
    using line_of_append line_of_length assms(2) by (fastforce+)
  obtain n where "sz - 1 = Suc n" using assms(2) by (metis Suc_diff_Suc diff_Suc_1 One_nat_def)
  with cs lr show "l \<noteq> []" using line_of_nonempty by (metis list.exhaust)
  with app show "length rest < length cs" by auto
qed

lemma fgets_None [simp]: "fgets sz [] = None"
  by (simp add: fgets_def)

lemma fgets_eq_None: "fgets sz cs = None \<longleftrightarrow> cs = []"
  by (simp add: fgets_def)

text \<open>A line that fits the buffer is read as it is.\<close>

lemma line_of_line:
  assumes "NEWLINE \<notin> set w" and "length w < n"
  shows "line_of n (w @ NEWLINE # rest) = (w @ [NEWLINE], rest)"
  using assms
proof (induction w arbitrary: n)
  case Nil
  then show ?case by (cases n) simp_all
next
  case (Cons c w)
  then show ?case by (cases n) auto
qed

lemma fgets_line: "NEWLINE \<notin> set w \<Longrightarrow> Suc (length w) < sz \<Longrightarrow> fgets sz (w @ NEWLINE # rest) = Some (w @ [NEWLINE], rest)"
  by (simp add: fgets_def line_of_line)

end
