(* ===== verification/Cipher.thy ===== *)
theory Cipher
  imports C_Files
begin

text \<open>
  \<open>week3/cipher.c\<close> (and its copy in \<open>week6\<close>): a file is read in pieces of at most 255 bytes, every
  letter is moved by three places, and the result goes to the standard output.
\<close>

section \<open>The program\<close>

definition isalpha :: "char \<Rightarrow> bool" where
  "isalpha c \<longleftrightarrow> 65 \<le> code c \<and> code c \<le> 90 \<or> 97 \<le> code c \<and> code c \<le> 122"

definition base_of :: "char \<Rightarrow> nat" where
  "base_of c = (if 97 \<le> code c \<and> code c \<le> 122 then 97 else 65)"

definition shift :: "char \<Rightarrow> char" where
  "shift c = (if isalpha c then char_of (base_of c + (code c - base_of c + 3) mod 26) else c)"

text \<open>The loop over the buffer, up to the terminating NUL.\<close>

fun shift_buffer :: "char list \<Rightarrow> char list" where
  "shift_buffer [] = []"
| "shift_buffer (c # cs) = (if c = NUL then c # cs else shift c # shift_buffer cs)"

function encrypt :: "string \<Rightarrow> string" where
  "encrypt cs =
     (case fgets 256 cs of
        None \<Rightarrow> []
      | Some (l, rest) \<Rightarrow> cstr (shift_buffer (l @ [NUL])) @ encrypt rest)"
  by pat_completeness auto
termination
  by (relation "measure length") (auto dest: fgets_Some(4))

declare encrypt.simps [simp del]

text \<open>The exit code and what is printed on the standard output.\<close>

definition cipher :: "string list \<Rightarrow> (string \<Rightarrow> string option) \<Rightarrow> int \<times> string" where
  "cipher argv fs =
     (if length argv < 2 then (1, [])
      else case fs (argv ! 1) of
             None \<Rightarrow> (1, [])
           | Some cs \<Rightarrow> (0, encrypt cs))"

section \<open>Every character on its own\<close>

lemma code_shift:
  assumes "isalpha c"
  shows "code (shift c) = base_of c + (code c - base_of c + 3) mod 26"
proof -
  have "(code c - base_of c + 3) mod 26 < 26" by simp
  then have "base_of c + (code c - base_of c + 3) mod 26 < 256" unfolding base_of_def by (auto split: if_split)
  then show ?thesis using assms by (simp add: shift_def)
qed

lemma base_range: "isalpha c \<Longrightarrow> base_of c \<le> code c \<and> code c < base_of c + 26"
  by (auto simp: isalpha_def base_of_def)

lemma base_rest: "isalpha c \<Longrightarrow> (code c - base_of c) mod 26 = code c - base_of c"
  using base_range [of c] by (intro mod_less) linarith

lemma base_of_cases: "base_of c = 65 \<or> base_of c = 97"
  by (simp add: base_of_def)

lemma alpha_from: "code d = b + k \<Longrightarrow> k < 26 \<Longrightarrow> b = 65 \<or> b = 97 \<Longrightarrow> isalpha d \<and> base_of d = b"
  by (auto simp: isalpha_def base_of_def)

lemma shift_alpha: "isalpha c \<Longrightarrow> isalpha (shift c) \<and> base_of (shift c) = base_of c"
  using alpha_from [OF code_shift _ base_of_cases] by simp

lemma shift_NUL: "shift c = NUL \<longleftrightarrow> c = NUL"
proof (cases "isalpha c")
  case True
  have "shift c \<noteq> NUL" using base_range [of "shift c"] shift_alpha [OF True] base_of_cases [of "shift c"] by auto
  moreover have "c \<noteq> NUL" using True by (auto simp: isalpha_def)
  ultimately show ?thesis by simp
qed (simp add: shift_def)

lemma no_nul_shift: "no_nul (map shift cs) \<longleftrightarrow> no_nul cs"
  by (induction cs) (auto simp: shift_NUL)

lemma shift_buffer_line: "no_nul l \<Longrightarrow> shift_buffer (l @ [NUL]) = map shift l @ [NUL]"
  by (induction l) auto

text \<open>How the file is cut into pieces does not matter.\<close>

lemma encrypt_map: "no_nul cs \<Longrightarrow> encrypt cs = map shift cs"
proof (induction cs rule: encrypt.induct)
  case (1 cs)
  show ?case
  proof (cases "fgets 256 cs")
    case None
    then show ?thesis by (subst encrypt.simps) (simp add: fgets_eq_None)
  next
    case (Some lr)
    obtain l rest where lr: "lr = (l, rest)" by (cases lr)
    have cs: "l @ rest = cs" using fgets_Some(1) Some lr by simp
    then have nn: "no_nul l" "no_nul rest" using "1.prems" by (auto simp: no_nul_simps(3))
    have "encrypt rest = map shift rest" using "1.IH" [OF Some lr [symmetric] nn(2)] .
    moreover have "cstr (shift_buffer (l @ [NUL])) = map shift l"
      using nn(1) by (simp add: shift_buffer_line no_nul_shift)
    ultimately show ?thesis using Some lr cs by (subst encrypt.simps) auto
  qed
qed

text \<open>Repeated shifts.\<close>

lemma code_shifts:
  assumes "isalpha c"
  shows "isalpha ((shift ^^ n) c) \<and> base_of ((shift ^^ n) c) = base_of c
    \<and> code ((shift ^^ n) c) = base_of c + (code c - base_of c + 3 * n) mod 26"
proof (induction n)
  case 0
  show ?case using base_range [OF assms] base_rest [OF assms] assms by simp
next
  case (Suc n)
  have "(base_of c + (code c - base_of c + 3 * n) mod 26 - base_of c + 3) mod 26 = (code c - base_of c + 3 * Suc n) mod 26"
    by (simp add: mod_simps algebra_simps)
  with Suc show ?case using code_shift [of "(shift ^^ n) c"] shift_alpha [of "(shift ^^ n) c"] by auto
qed

lemma shift_26: "(shift ^^ 26) c = c"
proof (cases "isalpha c")
  case True
  have "code ((shift ^^ 26) c) = base_of c + (code c - base_of c + 3 * 26) mod 26"
    using code_shifts [OF True] by blast
  also have "(code c - base_of c + 3 * 26) mod 26 = code c - base_of c"
    using base_rest [OF True] by (simp add: mod_add_eq [of "code c - base_of c" 26 78, symmetric])
  finally have "code ((shift ^^ 26) c) = code c" using base_range [OF True] by simp
  then show ?thesis by (metis char_of_char)
next
  case False
  then have "(shift ^^ n) c = c" for n by (induction n) (simp_all add: shift_def)
  then show ?thesis by blast
qed

lemma encrypt_power: "no_nul cs \<Longrightarrow> (encrypt ^^ n) cs = map (shift ^^ n) cs"
proof (induction n)
  case (Suc n)
  have "(shift ^^ n) c = NUL \<longleftrightarrow> c = NUL" for c by (induction n) (simp_all add: shift_NUL)
  then have "no_nul (map (shift ^^ n) cs)" using Suc.prems unfolding no_nul_def set_map by (metis imageE)
  with Suc show ?case by (simp add: encrypt_map)
qed simp

text \<open>Reading in pieces of at most 255 characters does not matter: what the program prints for a
  file without NUL characters is the whole file with every letter shifted by three.\<close>

theorem cipher_shifts_letters:
  assumes "1 < length argv" and "fs (argv ! 1) = Some cs" and "no_nul cs"
  shows "cipher argv fs = (0, map shift cs)"
  using assms by (simp add: cipher_def encrypt_map)

theorem cipher_shifts_letters_witness:
  "cipher [''cipher'', ''f''] [''f'' \<mapsto> ''Xyz 1''] = (0, ''Abc 1'')"
proof -
  have "cipher [''cipher'', ''f''] [''f'' \<mapsto> ''Xyz 1''] = (0, map shift ''Xyz 1'')"
    by (rule cipher_shifts_letters) simp_all
  also have "map shift ''Xyz 1'' = ''Abc 1''" by code_simp
  finally show ?thesis .
qed

text \<open>Encrypting is injective, and 26 times the identity.\<close>

theorem cipher_26_times:
  assumes "no_nul cs"
  shows "(encrypt ^^ 26) cs = cs \<and> length (encrypt cs) = length cs
    \<and> (\<forall>ds. no_nul ds \<and> encrypt ds = encrypt cs \<longrightarrow> ds = cs)"
proof (intro conjI allI impI)
  have id: "map (shift ^^ 26) ds = ds" for ds using map_idI [of ds "shift ^^ 26"] shift_26 by blast
  show all: "(encrypt ^^ 26) cs = cs" using encrypt_power [OF assms] id by simp
  show "length (encrypt cs) = length cs" using assms by (simp add: encrypt_map)
  fix ds
  assume ds: "no_nul ds \<and> encrypt ds = encrypt cs"
  have "(encrypt ^^ 26) ds = (encrypt ^^ 26) cs"
    using ds by (simp only: funpow_Suc_right numeral_eq_Suc pred_numeral_simps comp_apply)
  moreover have "(encrypt ^^ 26) ds = ds" using encrypt_power [of ds] ds id by simp
  ultimately show "ds = cs" using all by simp
qed

theorem cipher_26_times_witness: "(encrypt ^^ 26) ''Hello, World'' = ''Hello, World''"
  using cipher_26_times [of "''Hello, World''"] by simp

end
