(* ===== verification/C_Words.thy ===== *)
theory C_Words
  imports C_Prelude "HOL-Library.Word"
begin

text \<open>
  Unsigned integers of fixed width, and their conversion to \<open>int\<close>: the low 32 bits as two's complement.
\<close>

unbundle bit_operations_syntax

type_synonym u32 = "32 word"
type_synonym u64 = "64 word"

definition to_int :: "u64 \<Rightarrow> int" where
  "to_int w = sint (ucast w :: u32)"

lemma sint_int: "in_int x \<Longrightarrow> sint (word_of_int x :: u32) = x"
  unfolding sint_sbintrunc' by (simp add: signed_take_bit_int_eq_self in_int_def)

lemma to_int_small: "in_int (uint w) \<Longrightarrow> to_int w = uint w"
proof -
  assume "in_int (uint w)"
  moreover have "(ucast w :: u32) = word_of_int (uint w)" by simp
  ultimately show ?thesis unfolding to_int_def using sint_int [of "uint w"] by (simp only:)
qed

lemma and_31_bits: "uint ((x :: u64) AND 2147483647) \<le> INT_MAX"
proof -
  have "x AND 2147483647 \<le> (2147483647 :: u64)" by (rule word_and_le1)
  then show ?thesis by (simp add: word_le_def)
qed

end
