(* ===== verification/Multi_process.thy ===== *)
theory Multi_process
  imports Week6_Queue Cipher C_Buffers C_Words
begin

text \<open>
  \<open>week6/multi_process.c\<close>: random strings are written to a file, read back into the queue of strings, and
  written in chunks of 100 to files that a child process encrypts with the program \<open>cipher\<close>. The state is
  the state of the generator, the queue on its heap and the files; which files can be opened for writing
  and whether \<open>fork\<close> and \<open>execlp\<close> work are parameters.
\<close>

section \<open>Random strings\<close>

definition lcg_rand :: "u64 \<Rightarrow> u64" where
  "lcg_rand state = (1103515245 * state + 12345) AND 0x7fffffff"

definition lcg_rand_range :: "int \<Rightarrow> int \<Rightarrow> u64 \<Rightarrow> (int \<times> u64) c" where
  "lcg_rand_range minVal maxVal state = do {
     let state = lcg_rand state;
     range \<leftarrow> c_int (maxVal - minVal);
     range \<leftarrow> c_int (range + 1);
     r \<leftarrow> (if range = 0 then None else Some (to_int (state mod word_of_int range)));
     r \<leftarrow> c_int (r + minVal);
     Some (r, state)
   }"

fun random_chars :: "char list \<Rightarrow> nat list \<Rightarrow> u64 \<Rightarrow> (char list \<times> u64) c" where
  "random_chars buffer [] state = Some (buffer, state)"
| "random_chars buffer (i # is) state = do {
     (r, state) \<leftarrow> lcg_rand_range 97 122 state;
     buffer \<leftarrow> put buffer i (char_of (nat r));
     random_chars buffer is state
   }"

definition generateRandomString :: "char list \<Rightarrow> int \<Rightarrow> int \<Rightarrow> u64 \<Rightarrow> (char list \<times> u64) c" where
  "generateRandomString buffer minLen maxLen state = do {
     (n, state) \<leftarrow> lcg_rand_range minLen maxLen state;
     (buffer, state) \<leftarrow> random_chars buffer [0..<nat n] state;
     buffer \<leftarrow> (if n < 0 then None else put buffer (nat n) NUL);
     Some (buffer, state)
   }"

section \<open>Files and the queue\<close>

type_synonym files = "string \<Rightarrow> string option"

record system =
  can_open :: "string \<Rightarrow> bool"
  fork_works :: bool
  exec_works :: bool

text \<open>The lines for the given number of strings; \<open>temp n\<close> is what the local buffer contains at first.\<close>

fun random_lines :: "(nat \<Rightarrow> char list) \<Rightarrow> nat \<Rightarrow> u64 \<Rightarrow> (string \<times> u64) c" where
  "random_lines temp 0 state = Some ([], state)"
| "random_lines temp (Suc n) state = do {
     (buffer, state) \<leftarrow> generateRandomString (temp n) 5 10 state;
     (out, state) \<leftarrow> random_lines temp n state;
     Some (cstr buffer @ [NEWLINE] @ out, state)
   }"

definition generateStringsFile :: "system \<Rightarrow> (nat \<Rightarrow> char list) \<Rightarrow> string \<Rightarrow> files \<Rightarrow> u64 \<Rightarrow> (files \<times> u64) outcome c" where
  "generateStringsFile sys temp filename fs state =
     (if \<not> can_open sys filename then Some (Exit 1)
      else do {
        (out, state) \<leftarrow> random_lines temp 10000 state;
        Some (Cont (fs(filename \<mapsto> out), state))
      })"

definition strip_newline :: "string \<Rightarrow> string" where
  "strip_newline line = (if line \<noteq> [] \<and> last line = NEWLINE then butlast line else line)"

function enqueue_lines :: "heap \<Rightarrow> Queue \<Rightarrow> string \<Rightarrow> (Queue \<times> heap) outcome c" where
  "enqueue_lines h q cs =
     (case fgets 256 cs of
        None \<Rightarrow> Some (Cont (q, h))
      | Some (line, rest) \<Rightarrow>
          continue (enqueue h q (strip_newline (cstr line))) (\<lambda>(q, h). enqueue_lines h q rest))"
  by pat_completeness auto
termination
  by (relation "measure (\<lambda>(h, q, cs). length cs)") (auto dest: fgets_Some(4))

declare enqueue_lines.simps [simp del]

definition loadStringsIntoQueue :: "string \<Rightarrow> files \<Rightarrow> heap \<Rightarrow> Queue \<Rightarrow> (Queue \<times> heap) outcome c" where
  "loadStringsIntoQueue filename fs h q =
     (case fs filename of
        None \<Rightarrow> Some (Exit 1)
      | Some cs \<Rightarrow> enqueue_lines h q cs)"

text \<open>At most the given number of strings: the text written, how many they are, the queue left.\<close>

fun write_strings :: "heap \<Rightarrow> Queue \<Rightarrow> nat \<Rightarrow> (string \<times> nat \<times> Queue \<times> heap) c" where
  "write_strings h q 0 = Some ([], 0, q, h)"
| "write_strings h q (Suc n) =
     (if isEmptyQueue q then Some ([], 0, q, h)
      else do {
        (str, q, h) \<leftarrow> dequeue h q;
        s \<leftarrow> load (texts h) str;
        ts \<leftarrow> free (texts h) str;
        (out, k, q, h) \<leftarrow> write_strings (h\<lparr>texts := ts\<rparr>) q n;
        Some (s @ [NEWLINE] @ out, Suc k, q, h)
      })"

definition writeChunkToFile :: "system \<Rightarrow> heap \<Rightarrow> Queue \<Rightarrow> nat \<Rightarrow> string \<Rightarrow> files \<Rightarrow> (nat \<times> files \<times> Queue \<times> heap) c" where
  "writeChunkToFile sys h q count chunkFile fs =
     (if \<not> can_open sys chunkFile then Some (0, fs, q, h)
      else do {
        (out, written, q, h) \<leftarrow> write_strings h q count;
        Some (written, fs(chunkFile \<mapsto> out), q, h)
      })"

definition chunk_name :: "nat \<Rightarrow> string" where
  "chunk_name i = ''chunk_'' @ dec_nat i @ ''.txt''"

definition output_name :: "nat \<Rightarrow> string" where
  "output_name i = ''cipher_output_'' @ dec_nat i @ ''.txt''"

text \<open>The child: its standard output is a new file, in which the encrypted chunk ends up.\<close>

definition child :: "system \<Rightarrow> nat \<Rightarrow> files \<Rightarrow> files" where
  "child sys i fs =
     (if \<not> can_open sys (output_name i) then fs
      else
        let fs = fs(output_name i \<mapsto> [])
        in if \<not> exec_works sys then fs
           else fs(output_name i \<mapsto> snd (cipher [''cipher'', chunk_name i] fs)))"

partial_function (option) process_from :: "system \<Rightarrow> nat \<Rightarrow> nat \<Rightarrow> heap \<Rightarrow> Queue \<Rightarrow> files \<Rightarrow> (nat \<times> files \<times> Queue \<times> heap) outcome c" where
  "process_from sys chunkSize chunkIndex h q fs =
     (if isEmptyQueue q then Some (Cont (chunkIndex, fs, q, h))
      else do {
        (actualCount, fs, q, h) \<leftarrow> writeChunkToFile sys h q chunkSize (chunk_name chunkIndex) fs;
        (if actualCount = 0 then Some (Cont (chunkIndex, fs, q, h))
         else if \<not> fork_works sys then Some (Exit 1)
         else process_from sys chunkSize (chunkIndex + 1) h q (child sys chunkIndex fs))
      })"

definition processInChunks :: "system \<Rightarrow> heap \<Rightarrow> Queue \<Rightarrow> nat \<Rightarrow> files \<Rightarrow> (nat \<times> files \<times> Queue \<times> heap) outcome c" where
  "processInChunks sys h q chunkSize fs = process_from sys chunkSize 0 h q fs"

text \<open>The exit code, with the files and the heap if the program returns from \<open>main\<close>.\<close>

definition multi_main :: "system \<Rightarrow> string list \<Rightarrow> u64 \<Rightarrow> (nat \<Rightarrow> char list) \<Rightarrow> heap \<Rightarrow> Queue \<Rightarrow> files \<Rightarrow> (int \<times> files \<times> heap) outcome c" where
  "multi_main sys argv time temp h q fs =
     (if length argv < 2 then Some (Cont (1, fs, h))
      else if argv ! 1 = ''generate''
      then continue (generateStringsFile sys temp ''strings.txt'' fs time) (\<lambda>(fs, state). Some (Cont (0, fs, h)))
      else if argv ! 1 = ''encrypt''
      then
        continue (loadStringsIntoQueue ''strings.txt'' fs h (initQueue q)) (\<lambda>(q, h).
        continue (processInChunks sys h q 100 fs) (\<lambda>(n, fs, q, h). do {
          (q, h) \<leftarrow> freeQueue h q;
          Some (Cont (0, fs, h))
        }))
      else Some (Cont (1, fs, h)))"

section \<open>The generated file\<close>

lemma lcg_rand_range_value:
  assumes "in_int lo" and "in_int hi" and "lo \<le> hi" and "hi - lo < INT_MAX"
  shows "\<exists>r. lcg_rand_range lo hi state = Some (r, lcg_rand state) \<and> lo \<le> r \<and> r \<le> hi"
proof -
  define d where "d = hi - lo + 1"
  define s where "s = lcg_rand state"
  have d: "0 < d" "d \<le> INT_MAX" using assms by (auto simp: d_def)
  have ud: "uint (word_of_int d :: u64) = d" using d by (simp add: uint_word_of_int)
  then have um: "uint (s mod word_of_int d) = uint s mod d" by (simp add: uint_mod)
  have r: "0 \<le> uint s mod d" "uint s mod d < d" using d by simp_all
  then have "in_int (uint (s mod word_of_int d))" using d unfolding um in_int_def by linarith
  then have ti: "to_int (s mod word_of_int d) = uint s mod d" using to_int_small um by metis
  have b: "lo \<le> uint s mod d + lo" "uint s mod d + lo \<le> hi" using r d_def by linarith+
  then have "c_int (uint s mod d + lo) = Some (uint s mod d + lo)" using assms(1,2) by (intro c_int_Some) (simp add: in_int_def)
  moreover have "c_int (hi - lo) = Some (hi - lo)" "c_int (hi - lo + 1) = Some d" "d \<noteq> 0"
    using assms d by (simp_all add: in_int_def d_def)
  ultimately have "lcg_rand_range lo hi state = Some (uint s mod d + lo, s)"
    unfolding lcg_rand_range_def Let_def s_def [symmetric] by (simp add: ti)
  with b show ?thesis unfolding s_def by blast
qed

definition is_small :: "char \<Rightarrow> bool" where
  "is_small c \<longleftrightarrow> 97 \<le> code c \<and> code c \<le> 122"

lemma random_chars_ok:
  assumes "length pre + n \<le> length buffer"
  shows "take (length pre) buffer = pre \<Longrightarrow> \<exists>s buffer' state'. random_chars buffer [length pre..<length pre + n] state = Some (buffer', state')
    \<and> length s = n \<and> (\<forall>c \<in> set s. is_small c) \<and> take (length pre + n) buffer' = pre @ s \<and> length buffer' = length buffer"
  using assms
proof (induction n arbitrary: pre buffer state)
  case 0
  then show ?case by simp
next
  case (Suc n)
  obtain r where r: "lcg_rand_range 97 122 state = Some (r, lcg_rand state)" "97 \<le> r" "r \<le> 122"
    using lcg_rand_range_value [of 97 122 state] by (auto simp: in_int_def)
  define ch where "ch = (char_of (nat r) :: char)"
  have "code ch = nat r" unfolding ch_def of_char_of using r by (intro mod_less) simp
  then have ch: "is_small ch" using r by (simp add: is_small_def nat_le_iff le_nat_iff)
  let ?b = "buffer[length pre := ch]"
  have "put buffer (length pre) ch = Some ?b" using Suc.prems(2) by (simp add: put_def)
  moreover have "[length pre..<length pre + Suc n] = length pre # [length (pre @ [ch])..<length (pre @ [ch]) + n]"
    by (subst upt_conv_Cons) simp_all
  moreover have "take (length (pre @ [ch])) ?b = pre @ [ch]"
    using Suc.prems by (simp add: take_Suc_conv_app_nth)
  with Suc.IH [of "pre @ [ch]" ?b "lcg_rand state"] Suc.prems(2)
  obtain s buffer' state' where IH: "random_chars ?b [length (pre @ [ch])..<length (pre @ [ch]) + n] (lcg_rand state) = Some (buffer', state')"
    "length s = n" "\<forall>c \<in> set s. is_small c" "take (length (pre @ [ch]) + n) buffer' = (pre @ [ch]) @ s" "length buffer' = length ?b"
    by auto
  ultimately have "random_chars buffer [length pre..<length pre + Suc n] state = Some (buffer', state')"
    using r(1) by (simp only: random_chars.simps ch_def [symmetric] bind.bind_lunit prod.case)
  with IH ch show ?case by (intro exI [of _ "ch # s"] exI [of _ buffer'] exI [of _ state']) simp
qed

lemma random_string_ok:
  assumes "length buffer = 32"
  shows "\<exists>s buffer' state'. generateRandomString buffer 5 10 state = Some (buffer', state') \<and> cstr buffer' = s
    \<and> 5 \<le> length s \<and> length s \<le> 10 \<and> (\<forall>c \<in> set s. is_small c)"
proof -
  obtain r where r: "lcg_rand_range 5 10 state = Some (r, lcg_rand state)" "5 \<le> r" "r \<le> 10"
    using lcg_rand_range_value [of 5 10 state] by (auto simp: in_int_def)
  have le: "length ([]::string) + nat r \<le> length buffer" using r assms by simp
  obtain s b state' where b0: "random_chars buffer [length ([]::string)..<length ([]::string) + nat r] (lcg_rand state) = Some (b, state')"
    "length s = nat r" "\<forall>c \<in> set s. is_small c" "take (length ([]::string) + nat r) b = [] @ s" "length b = length buffer"
    using random_chars_ok [OF le] take_0 list.size(3) by metis
  then have b: "random_chars buffer [0..<nat r] (lcg_rand state) = Some (b, state')" "length s = nat r"
    "\<forall>c \<in> set s. is_small c" "take (nat r) b = s" "length b = 32"
    using assms by simp_all
  have lt: "nat r < length b" using r b(5) by simp
  have "b[nat r := NUL] = s @ NUL # drop (Suc (nat r)) b" using lt b(4) by (simp add: upd_conv_take_nth_drop)
  moreover have "no_nul s" using b(3) by (auto simp: no_nul_def is_small_def)
  ultimately have cs: "cstr (b[nat r := NUL]) = s" by simp
  have "generateRandomString buffer 5 10 state = Some (b[nat r := NUL], state')"
    using r b(1) lt by (simp add: generateRandomString_def put_def)
  moreover have "5 \<le> length s" "length s \<le> 10" using b(2) r by (simp_all add: nat_le_iff le_nat_iff)
  ultimately show ?thesis using b(3) cs by blast
qed

definition unlines :: "string list \<Rightarrow> string" where
  "unlines ls = concat (map (\<lambda>l. l @ [NEWLINE]) ls)"

definition is_random_line :: "string \<Rightarrow> bool" where
  "is_random_line l \<longleftrightarrow> 5 \<le> length l \<and> length l \<le> 10 \<and> (\<forall>c \<in> set l. is_small c)"

lemma random_lines_ok:
  assumes "\<forall>n. length (temp n) = 32"
  shows "\<exists>ls state'. random_lines temp n state = Some (unlines ls, state') \<and> length ls = n \<and> (\<forall>l \<in> set ls. is_random_line l)"
proof (induction n arbitrary: state)
  case 0
  show ?case by (auto simp: unlines_def)
next
  case (Suc n)
  obtain l b state1 where l: "generateRandomString (temp n) 5 10 state = Some (b, state1)" "cstr b = l" "is_random_line l"
    using random_string_ok [of "temp n" state] assms by (auto simp: is_random_line_def)
  obtain ls state2 where ls: "random_lines temp n state1 = Some (unlines ls, state2)" "length ls = n" "\<forall>l \<in> set ls. is_random_line l"
    using Suc.IH by blast
  with l show ?case by (intro exI [of _ "l # ls"] exI [of _ state2]) (simp add: unlines_def)
qed

text \<open>The command \<open>generate\<close>: ten thousand lines of five to ten small letters.\<close>

theorem multi_generate:
  assumes "\<forall>n. length (temp n) = 32" and "can_open sys ''strings.txt''"
  shows "\<exists>ls. multi_main sys [prog, ''generate''] time temp h q fs = Some (Cont (0, fs(''strings.txt'' \<mapsto> unlines ls), h))
    \<and> length ls = 10000 \<and> (\<forall>l \<in> set ls. is_random_line l)"
proof -
  obtain ls state' where "random_lines temp 10000 time = Some (unlines ls, state')" "length ls = 10000" "\<forall>l \<in> set ls. is_random_line l"
    using random_lines_ok [OF assms(1)] by blast
  with assms(2) show ?thesis by (intro exI [of _ ls]) (simp add: multi_main_def generateStringsFile_def)
qed

definition some_queue :: Queue where
  "some_queue = \<lparr>front = Null, rear = Null, qsize = 7\<rparr>"

definition working :: system where
  "working = \<lparr>can_open = \<lambda>_. True, fork_works = True, exec_works = True\<rparr>"

theorem multi_generate_witness:
  "\<exists>ls. multi_main working [''multi_process'', ''generate''] 1738000000 (\<lambda>_. replicate 32 NUL) blank_heap some_queue Map.empty
      = Some (Cont (0, Map.empty(''strings.txt'' \<mapsto> unlines ls), blank_heap))
    \<and> length ls = 10000 \<and> (\<forall>l \<in> set ls. is_random_line l)"
  by (rule multi_generate) (simp_all add: working_def)

section \<open>Loading\<close>

definition is_line :: "string \<Rightarrow> bool" where
  "is_line l \<longleftrightarrow> no_nul l \<and> NEWLINE \<notin> set l \<and> length l < 255"

lemma enqueue_lines_ok:
  "strings_rep (q, h) xs \<Longrightarrow> \<forall>l \<in> set ls. is_line l \<Longrightarrow> int (length xs + length ls) \<le> INT_MAX \<Longrightarrow>
   \<exists>q' h'. enqueue_lines h q (unlines ls) = Some (Cont (q', h')) \<and> strings_rep (q', h') (xs @ ls)"
proof (induction ls arbitrary: xs q h)
  case Nil
  then show ?case by (subst enqueue_lines.simps) (auto simp: unlines_def)
next
  case (Cons l ls)
  have l: "is_line l" "\<forall>l \<in> set ls. is_line l" using Cons.prems(2) by auto
  obtain q1 h1 where e: "enqueue h q l = Some (Cont (q1, h1))" "strings_rep (q1, h1) (xs @ [l])"
    using enqueue_rep [OF Cons.prems(1), of l] Cons.prems(3) by auto
  have fg: "fgets 256 (unlines (l # ls)) = Some (l @ [NEWLINE], unlines ls)"
    using l(1) fgets_line [of l 256 "unlines ls"] by (simp add: is_line_def unlines_def)
  have "strip_newline (cstr (l @ [NEWLINE])) = l" using l(1) by (simp add: is_line_def strip_newline_def)
  moreover obtain q2 h2 where "enqueue_lines h1 q1 (unlines ls) = Some (Cont (q2, h2))" "strings_rep (q2, h2) ((xs @ [l]) @ ls)"
    using Cons.IH [OF e(2) l(2)] Cons.prems(3) by auto
  ultimately show ?case using fg e(1) by (subst enqueue_lines.simps) simp
qed

section \<open>Chunks\<close>

lemma write_strings_ok:
  "strings_rep (q, h) xs \<Longrightarrow>
   \<exists>q' h'. write_strings h q n = Some (unlines (take n xs), length (take n xs), q', h') \<and> strings_rep (q', h') (drop n xs)"
proof (induction n arbitrary: xs q h)
  case 0
  then show ?case by (simp add: unlines_def)
next
  case (Suc n)
  show ?case
  proof (cases xs)
    case Nil
    with Suc.prems isEmpty_rep [OF Suc.prems] show ?thesis by (simp add: unlines_def)
  next
    case (Cons x ys)
    obtain t q1 h1 where d: "dequeue h q = Some (Addr t, q1, h1)" "cells (texts h1) t = Some x"
      "strings_rep (q1, h1\<lparr>texts := (texts h1)\<lparr>cells := (cells (texts h1))(t := None)\<rparr>\<rparr>) ys"
      using dequeue_rep Suc.prems Cons by blast
    obtain q2 h2 where "write_strings (h1\<lparr>texts := (texts h1)\<lparr>cells := (cells (texts h1))(t := None)\<rparr>\<rparr>) q1 n
        = Some (unlines (take n ys), length (take n ys), q2, h2)" "strings_rep (q2, h2) (drop n ys)"
      using Suc.IH [OF d(3)] by blast
    with d isEmpty_rep [OF Suc.prems] Cons show ?thesis by (simp add: unlines_def)
  qed
qed

text \<open>The files the loop leaves.\<close>

function chunk_files :: "nat \<Rightarrow> string list \<Rightarrow> files \<Rightarrow> files" where
  "chunk_files i xs fs =
     (if xs = [] then fs
      else chunk_files (Suc i) (drop 100 xs)
        (fs(chunk_name i \<mapsto> unlines (take 100 xs), output_name i \<mapsto> map shift (unlines (take 100 xs)))))"
  by pat_completeness auto
termination
  by (relation "measure (\<lambda>(i, xs, fs). length xs)") auto

declare chunk_files.simps [simp del]

definition all_works :: "system \<Rightarrow> bool" where
  "all_works sys \<longleftrightarrow> (\<forall>f. can_open sys f) \<and> fork_works sys \<and> exec_works sys"

lemma chunk_not_output: "chunk_name i \<noteq> output_name k"
  by (simp add: chunk_name_def output_name_def)

lemma no_nul_unlines: "\<forall>l \<in> set ls. is_line l \<Longrightarrow> no_nul (unlines ls)"
  by (induction ls) (auto simp: unlines_def is_line_def)

lemma child_ok:
  assumes "all_works sys" and "no_nul t"
  shows "child sys i (fs(chunk_name i \<mapsto> t)) = fs(chunk_name i \<mapsto> t, output_name i \<mapsto> map shift t)"
proof -
  have "cipher [''cipher'', chunk_name i] (fs(chunk_name i \<mapsto> t, output_name i \<mapsto> [])) = (0, map shift t)"
    using assms(2) chunk_not_output [of i i] by (simp add: cipher_def encrypt_map)
  then show ?thesis using assms(1) by (simp add: child_def all_works_def Let_def)
qed

lemma process_from_ok:
  assumes "all_works sys"
  shows "strings_rep (q, h) xs \<Longrightarrow> \<forall>l \<in> set xs. is_line l \<Longrightarrow>
    \<exists>n q' h'. process_from sys 100 i h q fs = Some (Cont (n, chunk_files i xs fs, q', h')) \<and> strings_rep (q', h') []"
proof (induction xs arbitrary: i h q fs rule: length_induct)
  case (1 xs)
  note isE = isEmpty_rep [OF "1.prems"(1)]
  show ?case
  proof (cases "xs = []")
    case True
    with isE "1.prems" show ?thesis by (subst process_from.simps) (simp add: chunk_files.simps)
  next
    case False
    obtain q1 h1 where w: "write_strings h q 100 = Some (unlines (take 100 xs), length (take 100 xs), q1, h1)"
      "strings_rep (q1, h1) (drop 100 xs)"
      using write_strings_ok [OF "1.prems"(1)] by blast
    define m where "m = length (take 100 xs)"
    have wc: "writeChunkToFile sys h q 100 (chunk_name i) fs
        = Some (m, fs(chunk_name i \<mapsto> unlines (take 100 xs)), q1, h1)"
      using w(1) assms by (simp add: writeChunkToFile_def all_works_def m_def)
    have nz: "m \<noteq> 0" using False by (simp add: m_def)
    have lines: "\<forall>l \<in> set (take 100 xs). is_line l" "\<forall>l \<in> set (drop 100 xs). is_line l"
      using "1.prems"(2) by (auto dest: in_set_takeD in_set_dropD)
    let ?fs = "fs(chunk_name i \<mapsto> unlines (take 100 xs), output_name i \<mapsto> map shift (unlines (take 100 xs)))"
    have ch: "child sys i (fs(chunk_name i \<mapsto> unlines (take 100 xs))) = ?fs"
      by (rule child_ok [OF assms no_nul_unlines [OF lines(1)]])
    have "length (drop 100 xs) < length xs" using False by simp
    then obtain n q2 h2 where "process_from sys 100 (i + 1) h1 q1 ?fs = Some (Cont (n, chunk_files (i + 1) (drop 100 xs) ?fs, q2, h2))"
      "strings_rep (q2, h2) []"
      using "1.IH" w(2) lines(2) by blast
    moreover have "chunk_files i xs fs = chunk_files (i + 1) (drop 100 xs) ?fs"
      using False by (subst chunk_files.simps) simp
    moreover have "fork_works sys" using assms by (simp add: all_works_def)
    ultimately show ?thesis using isE False wc nz ch by (subst process_from.simps) simp
  qed
qed

text \<open>File by file.\<close>

lemma name_inject [simp]: "chunk_name i = chunk_name k \<longleftrightarrow> i = k" "output_name i = output_name k \<longleftrightarrow> i = k"
  by (simp_all add: chunk_name_def output_name_def)

lemma chunk_files_other:
  "\<forall>k. 100 * k < length xs \<longrightarrow> f \<noteq> chunk_name (i + k) \<and> f \<noteq> output_name (i + k) \<Longrightarrow> chunk_files i xs fs f = fs f"
proof (induction i xs fs rule: chunk_files.induct)
  case (1 i xs fs)
  show ?case
  proof (cases "xs = []")
    case True
    then show ?thesis by (subst chunk_files.simps) simp
  next
    case False
    define fs1 where "fs1 = fs(chunk_name i \<mapsto> unlines (take 100 xs), output_name i \<mapsto> map shift (unlines (take 100 xs)))"
    have "fs1 f = fs f" using "1.prems" [rule_format, of 0] False by (simp add: fs1_def)
    moreover have "\<forall>k. 100 * k < length (drop 100 xs) \<longrightarrow> f \<noteq> chunk_name (Suc i + k) \<and> f \<noteq> output_name (Suc i + k)"
    proof (intro allI impI)
      fix k
      assume "100 * k < length (drop 100 xs)"
      then show "f \<noteq> chunk_name (Suc i + k) \<and> f \<noteq> output_name (Suc i + k)"
        using "1.prems" [rule_format, of "Suc k"] by simp
    qed
    note "1.IH" [OF False this, folded fs1_def]
    moreover have "chunk_files i xs fs = chunk_files (Suc i) (drop 100 xs) fs1"
      unfolding fs1_def using False by (subst chunk_files.simps) simp
    ultimately show ?thesis by simp
  qed
qed

lemma chunk_files_nth:
  "100 * k < length xs \<Longrightarrow>
   chunk_files i xs fs (chunk_name (i + k)) = Some (unlines (take 100 (drop (100 * k) xs)))
   \<and> chunk_files i xs fs (output_name (i + k)) = Some (map shift (unlines (take 100 (drop (100 * k) xs))))"
proof (induction k arbitrary: i xs fs)
  case 0
  then have "chunk_files i xs fs = chunk_files (Suc i) (drop 100 xs)
      (fs(chunk_name i \<mapsto> unlines (take 100 xs), output_name i \<mapsto> map shift (unlines (take 100 xs))))"
    by (subst chunk_files.simps) auto
  moreover have "\<forall>k. chunk_name i \<noteq> chunk_name (Suc i + k) \<and> chunk_name i \<noteq> output_name (Suc i + k)"
    "\<forall>k. output_name i \<noteq> chunk_name (Suc i + k) \<and> output_name i \<noteq> output_name (Suc i + k)"
    using chunk_not_output by (auto dest: sym)
  ultimately show ?case using chunk_not_output [of i i] by (simp add: chunk_files_other)
next
  case (Suc k)
  define fs1 where "fs1 = fs(chunk_name i \<mapsto> unlines (take 100 xs), output_name i \<mapsto> map shift (unlines (take 100 xs)))"
  have "xs \<noteq> []" using Suc.prems by auto
  then have "chunk_files i xs fs = chunk_files (Suc i) (drop 100 xs) fs1"
    unfolding fs1_def by (subst chunk_files.simps) simp
  moreover have "100 * k < length (drop 100 xs)" using Suc.prems by simp
  note Suc.IH [OF this, of "Suc i" fs1]
  moreover have "drop (100 * Suc k) xs = drop (100 * k) (drop 100 xs)" "i + Suc k = Suc i + k" by (simp_all add: add.commute)
  ultimately show ?case by (simp only:)
qed

text \<open>C31: Encryption in chunks ends and is complete: when all files can be opened,
  \<open>fork\<close> and \<open>execlp\<close> work, and every line of strings.txt has fewer
  than 255 characters, no NUL and a newline at its end, the program returns with 0, the k-th
  chunk file, for as many k as there are begun hundreds of lines, holds the lines from 100 k on,
  at most a hundred, the k-th output file the same text with every letter shifted by three, no
  other file (and no further chunk file) is created or changed, and nothing is left allocated.\<close>

theorem multi_encrypt:
  assumes "all_works sys" and "strings_rep (initQueue q, h) []"
    and "fs ''strings.txt'' = Some (unlines ls)" and "\<forall>l \<in> set ls. is_line l" and "int (length ls) \<le> INT_MAX"
  shows "\<exists>fs' h'. multi_main sys [prog, ''encrypt''] time temp h q fs = Some (Cont (0, fs', h'))
    \<and> (\<forall>k. 100 * k < length ls \<longrightarrow>
          fs' (chunk_name k) = Some (unlines (take 100 (drop (100 * k) ls)))
        \<and> fs' (output_name k) = Some (map shift (unlines (take 100 (drop (100 * k) ls)))))
    \<and> (\<forall>f. (\<forall>k. 100 * k < length ls \<longrightarrow> f \<noteq> chunk_name k \<and> f \<noteq> output_name k) \<longrightarrow> fs' f = fs f)
    \<and> live (nodes h') = {} \<and> live (texts h') = {}"
proof -
  obtain q1 h1 where l: "enqueue_lines h (initQueue q) (unlines ls) = Some (Cont (q1, h1))" "strings_rep (q1, h1) ls"
    using enqueue_lines_ok [OF assms(2,4)] assms(5) by auto
  obtain n q2 h2 where p: "process_from sys 100 0 h1 q1 fs = Some (Cont (n, chunk_files 0 ls fs, q2, h2))" "strings_rep (q2, h2) []"
    using process_from_ok [OF assms(1) l(2) assms(4)] by blast
  obtain q3 h3 where "freeQueue h2 q2 = Some (q3, h3)" "live (nodes h3) = {}" "live (texts h3) = {}"
    using freeQueue_rep [OF p(2)] by blast
  then show ?thesis
    using l(1) p(1) assms(3) chunk_files_nth [of _ ls 0 fs] chunk_files_other [of ls _ 0 fs]
    by (intro exI [of _ "chunk_files 0 ls fs"] exI [of _ h3])
      (simp add: multi_main_def loadStringsIntoQueue_def processInChunks_def)
qed

lemma chunk_name_0: "chunk_name 0 = ''chunk_0.txt''" "output_name 0 = ''cipher_output_0.txt''"
  unfolding chunk_name_def output_name_def by code_simp+

lemma names_differ: "''strings.txt'' \<noteq> chunk_name k" "''strings.txt'' \<noteq> output_name k"
  by (simp_all add: chunk_name_def output_name_def)

theorem multi_encrypt_witness:
  "\<exists>fs' h'. multi_main working [''multi_process'', ''encrypt''] 1 (\<lambda>_. []) blank_heap some_queue [''strings.txt'' \<mapsto> unlines [''abx'', ''no'']]
      = Some (Cont (0, fs', h'))
    \<and> fs' ''chunk_0.txt'' = Some (unlines [''abx'', ''no''])
    \<and> fs' ''cipher_output_0.txt'' = Some (unlines [''dea'', ''qr''])
    \<and> fs' ''strings.txt'' = Some (unlines [''abx'', ''no'']) \<and> fs' (chunk_name 1) = None
    \<and> live (nodes h') = {} \<and> live (texts h') = {}"
proof -
  let ?ls = "[''abx'', ''no'']"
  let ?fs = "[''strings.txt'' \<mapsto> unlines ?ls] :: files"
  have ls: "\<forall>l \<in> set ?ls. is_line l" "int (length ?ls) \<le> INT_MAX" by (simp_all add: is_line_def no_nul_def)
  have w: "all_works working" by (simp add: all_works_def working_def)
  have sh: "map shift (unlines ?ls) = unlines [''dea'', ''qr'']" unfolding unlines_def by code_simp
  have f: "?fs ''strings.txt'' = Some (unlines ?ls)" by simp
  note run = multi_encrypt [of working some_queue blank_heap ?fs ?ls "''multi_process''" 1 "\<lambda>_. []", OF w blank_rep f ls]
  obtain fs' h' where m: "multi_main working [''multi_process'', ''encrypt''] 1 (\<lambda>_. []) blank_heap some_queue ?fs = Some (Cont (0, fs', h'))"
    "\<forall>k. 100 * k < length ?ls \<longrightarrow> fs' (chunk_name k) = Some (unlines (take 100 (drop (100 * k) ?ls)))
        \<and> fs' (output_name k) = Some (map shift (unlines (take 100 (drop (100 * k) ?ls))))"
    "\<forall>f. (\<forall>k. 100 * k < length ?ls \<longrightarrow> f \<noteq> chunk_name k \<and> f \<noteq> output_name k) \<longrightarrow> fs' f = ?fs f"
    "live (nodes h') = {}" "live (texts h') = {}"
    using run by (elim exE conjE that)
  have "fs' (chunk_name 0) = Some (unlines ?ls)" "fs' (output_name 0) = Some (map shift (unlines ?ls))"
    using m(2) [rule_format, of 0] by simp_all
  moreover have "fs' ''strings.txt'' = ?fs ''strings.txt''" using m(3) names_differ by blast
  moreover have "fs' (chunk_name 1) = ?fs (chunk_name 1)" using chunk_not_output m(3) by auto
  then have "fs' (chunk_name 1) = None" using names_differ [of 1] by simp
  ultimately show ?thesis using m(1,4,5) f sh chunk_name_0 by (intro exI [of _ fs'] exI [of _ h']) (simp only: simp_thms)
qed

end
