(* ===== verification/Polybius.thy ===== *)
theory Polybius
  imports Cipher C_Buffers C_Words
begin

text \<open>
  \<open>week3/polybius.c\<close>, \<open>week3/polybius.h\<close> (and their copies in \<open>week6\<close>): the Polybius square. Results are
  written into a buffer that the functions allocate; a write outside of it, an index outside of the
  5 by 5 table and an overflow of the \<open>int\<close> positions are undefined. The sizes of the buffers are
  computed in \<open>size_t\<close> and \<open>int\<close> as the code does.
\<close>

section \<open>The program\<close>

record PolybiusTable_t =
  grid :: "char list list"

definition standardTable :: PolybiusTable_t where
  "standardTable = \<lparr>grid = [''ABCDE'', ''FGHIK'', ''LMNOP'', ''QRSTU'', ''VWXYZ'']\<rparr>"

text \<open>\<open>toupper\<close> of a \<open>char\<close>: its argument must be representable as \<open>unsigned char\<close> or be \<open>EOF\<close>, which
  the negative characters other than 255 (that is -1) are not.\<close>

definition toupper :: "char \<Rightarrow> char" where
  "toupper c = (if 97 \<le> code c \<and> code c \<le> 122 then char_of (code c - 32) else c)"

definition c_toupper :: "char \<Rightarrow> char c" where
  "c_toupper c = (if code c < 128 \<or> code c = 255 then Some (toupper c) else None)"

text \<open>The loop over the columns stops at the first match; the loop over the rows goes on.\<close>

fun encode_cols :: "PolybiusTable_t \<Rightarrow> char \<Rightarrow> nat \<Rightarrow> nat list \<Rightarrow> char list \<Rightarrow> int \<Rightarrow> (char list \<times> int) c" where
  "encode_cols tb ch row [] buf pos = Some (buf, pos)"
| "encode_cols tb ch row (col # cols) buf pos =
     (if grid tb ! row ! col = ch
      then do {
        buf \<leftarrow> put_at buf pos (char_of (49 + row));
        pos \<leftarrow> c_incr pos;
        buf \<leftarrow> put_at buf pos (char_of (49 + col));
        pos \<leftarrow> c_incr pos;
        Some (buf, pos)
      }
      else encode_cols tb ch row cols buf pos)"

fun encode_rows :: "PolybiusTable_t \<Rightarrow> char \<Rightarrow> nat list \<Rightarrow> char list \<Rightarrow> int \<Rightarrow> (char list \<times> int) c" where
  "encode_rows tb ch [] buf pos = Some (buf, pos)"
| "encode_rows tb ch (row # rows) buf pos = do {
     (buf, pos) \<leftarrow> encode_cols tb ch row [0..<5] buf pos;
     encode_rows tb ch rows buf pos
   }"

text \<open>The loop over \<open>plaintext[i]\<close>; the list holds the characters from \<open>i\<close> on.\<close>

fun encode_chars :: "PolybiusTable_t \<Rightarrow> string \<Rightarrow> int \<Rightarrow> char list \<Rightarrow> int \<Rightarrow> (char list \<times> int) c" where
  "encode_chars tb [] i buf pos = Some (buf, pos)"
| "encode_chars tb (c # cs) i buf pos = do {
     ch \<leftarrow> c_toupper c;
     let ch = (if ch = CHR ''J'' then CHR ''I'' else ch);
     (buf, pos) \<leftarrow> encode_rows tb ch [0..<5] buf pos;
     i \<leftarrow> c_incr i;
     encode_chars tb cs i buf pos
   }"

text \<open>The result of \<open>malloc\<close>, which is not examined, is a buffer with indeterminate contents.\<close>

definition pbEncode :: "(nat \<Rightarrow> char list option) \<Rightarrow> string \<Rightarrow> PolybiusTable_t \<Rightarrow> char list c" where
  "pbEncode malloc plaintext tb = do {
     encoded \<leftarrow> malloc ((length plaintext * 2 + 1) mod 2 ^ 64);
     (encoded, pos) \<leftarrow> encode_chars tb plaintext 0 encoded 0;
     put_at encoded pos NUL
   }"

definition cell_at :: "PolybiusTable_t \<Rightarrow> int \<Rightarrow> int \<Rightarrow> char c" where
  "cell_at tb row col = (if 0 \<le> row \<and> row < 5 \<and> 0 \<le> col \<and> col < 5 then Some (grid tb ! nat row ! nat col) else None)"

text \<open>The loop over pairs of characters; \<open>i + 1\<close> is computed for the test of the second one.\<close>

fun decode_pairs :: "PolybiusTable_t \<Rightarrow> string \<Rightarrow> int \<Rightarrow> char list \<Rightarrow> int \<Rightarrow> (char list \<times> int) c" where
  "decode_pairs tb [] i buf pos = Some (buf, pos)"
| "decode_pairs tb [a] i buf pos = do { _ \<leftarrow> c_incr i; Some (buf, pos) }"
| "decode_pairs tb (a # b # cs) i buf pos = do {
     _ \<leftarrow> c_incr i;
     ch \<leftarrow> cell_at tb (int (code a) - 49) (int (code b) - 49);
     buf \<leftarrow> put_at buf pos ch;
     pos \<leftarrow> c_incr pos;
     i \<leftarrow> c_int (i + 2);
     decode_pairs tb cs i buf pos
   }"

definition pbDecode :: "(nat \<Rightarrow> char list option) \<Rightarrow> string \<Rightarrow> PolybiusTable_t \<Rightarrow> char list c" where
  "pbDecode malloc ciphertext tb = do {
     let len = to_int (word_of_nat (length ciphertext div 2) :: u64);
     n \<leftarrow> c_incr len;
     decoded \<leftarrow> malloc (nat (n mod 2 ^ 64));
     (decoded, pos) \<leftarrow> decode_pairs tb ciphertext 0 decoded 0;
     put_at decoded pos NUL
   }"

section \<open>What is written\<close>

text \<open>The letter a character is looked up as, and the digits for a letter, row by row.\<close>

definition letter_of :: "char \<Rightarrow> char" where
  "letter_of c = (let ch = toupper c in if ch = CHR ''J'' then CHR ''I'' else ch)"

fun col_code :: "PolybiusTable_t \<Rightarrow> char \<Rightarrow> nat \<Rightarrow> nat list \<Rightarrow> string" where
  "col_code tb ch row [] = []"
| "col_code tb ch row (col # cols) =
     (if grid tb ! row ! col = ch then [char_of (49 + row), char_of (49 + col)] else col_code tb ch row cols)"

definition code_of :: "PolybiusTable_t \<Rightarrow> char \<Rightarrow> string" where
  "code_of tb ch = concat (map (\<lambda>row. col_code tb ch row [0..<5]) [0..<5])"

lemma length_col_code: "length (col_code tb ch row cols) \<le> 2"
  by (induction cols) auto

lemma c_incr_nat: "n < m \<Longrightarrow> int m \<le> INT_MAX \<Longrightarrow> c_incr (int n) = Some (int (Suc n))"
  by simp

lemma encode_cols_write:
  "pos + length (col_code tb ch row cols) \<le> length buf \<Longrightarrow> int (length buf) \<le> INT_MAX \<Longrightarrow>
   encode_cols tb ch row cols buf (int pos) =
     Some (write_at buf pos (col_code tb ch row cols), int (pos + length (col_code tb ch row cols)))"
proof (induction cols)
  case (Cons col cols)
  show ?case
  proof (cases "grid tb ! row ! col = ch")
    case True
    with Cons.prems have "pos < length buf" "Suc pos < length buf" by simp_all
    note inc = this [THEN c_incr_nat, OF Cons.prems(2)]
    from Cons.prems(1) True show ?thesis
      using write_at_append [of pos "[char_of (49 + row)]" "[char_of (49 + col)]" buf] inc
      by (simp add: put_write_at del: c_incr_Some of_nat_Suc)
  qed (use Cons in simp)
qed simp

lemma encode_rows_write:
  "pos + length (concat (map (\<lambda>row. col_code tb ch row [0..<5]) rows)) \<le> length buf \<Longrightarrow>
   int (length buf) \<le> INT_MAX \<Longrightarrow>
   encode_rows tb ch rows buf (int pos) =
     Some (write_at buf pos (concat (map (\<lambda>row. col_code tb ch row [0..<5]) rows)),
       int (pos + length (concat (map (\<lambda>row. col_code tb ch row [0..<5]) rows))))"
proof (induction rows arbitrary: buf pos)
  case (Cons row rows)
  let ?s = "col_code tb ch row [0..<5]" and ?t = "concat (map (\<lambda>row. col_code tb ch row [0..<5]) rows)"
  have "encode_cols tb ch row [0..<5] buf (int pos) = Some (write_at buf pos ?s, int (pos + length ?s))"
    using Cons.prems by (intro encode_cols_write) simp_all
  then show ?case
    using Cons.IH [of "pos + length ?s" "write_at buf pos ?s"] Cons.prems write_at_append [of pos ?s ?t buf]
    by (simp del: length_concat of_nat_add add: add.assoc)
qed simp

lemma encode_chars_write:
  "pos + length (concat (map (\<lambda>c. code_of tb (letter_of c)) cs)) \<le> length buf \<Longrightarrow>
   int (length buf) \<le> INT_MAX \<Longrightarrow> int (i + length cs) \<le> INT_MAX \<Longrightarrow> \<forall>c \<in> set cs. code c < 128 \<Longrightarrow>
   encode_chars tb cs (int i) buf (int pos) =
     Some (write_at buf pos (concat (map (\<lambda>c. code_of tb (letter_of c)) cs)),
       int (pos + length (concat (map (\<lambda>c. code_of tb (letter_of c)) cs))))"
proof (induction cs arbitrary: buf pos i)
  case (Cons c cs)
  let ?s = "code_of tb (letter_of c)" and ?t = "concat (map (\<lambda>c. code_of tb (letter_of c)) cs)"
  have "encode_rows tb (letter_of c) [0..<5] buf (int pos) = Some (write_at buf pos ?s, int (pos + length ?s))"
    unfolding code_of_def using Cons.prems by (intro encode_rows_write) (simp_all add: code_of_def)
  moreover have "c_incr (int i) = Some (int (Suc i))" using Cons.prems(3) by (intro c_incr_nat [of i "Suc i"]) simp_all
  moreover have "c_toupper c = Some (toupper c)" using Cons.prems(4) by (simp add: c_toupper_def)
  ultimately have "encode_chars tb (c # cs) (int i) buf (int pos)
      = encode_chars tb cs (int (Suc i)) (write_at buf pos ?s) (int (pos + length ?s))"
    by (simp add: letter_of_def Let_def del: of_nat_Suc of_nat_add)
  also have "\<dots> = Some (write_at (write_at buf pos ?s) (pos + length ?s) ?t, int (pos + length ?s + length ?t))"
    using Cons.prems by (intro Cons.IH) simp_all
  finally show ?case
    using Cons.prems(1) write_at_append [of pos ?s ?t buf] by (simp del: length_concat of_nat_add add: add.assoc)
qed simp

text \<open>Decoding gives one character for every pair.\<close>

fun plain_of :: "PolybiusTable_t \<Rightarrow> string \<Rightarrow> string c" where
  "plain_of tb (a # b # cs) = do {
     ch \<leftarrow> cell_at tb (int (code a) - 49) (int (code b) - 49);
     p \<leftarrow> plain_of tb cs;
     Some (ch # p)
   }"
| "plain_of tb cs = Some []"

lemma plain_length: "plain_of tb cs = Some p \<Longrightarrow> length p = length cs div 2"
  by (induction tb cs arbitrary: p rule: plain_of.induct) (auto elim!: bind_Some_E)

lemma decode_pairs_write:
  "pos + length cs div 2 \<le> length buf \<Longrightarrow> int (length buf) \<le> INT_MAX \<Longrightarrow> int (i + length cs) \<le> INT_MAX \<Longrightarrow>
   decode_pairs tb cs (int i) buf (int pos) =
     map_option (\<lambda>p. (write_at buf pos p, int (pos + length p))) (plain_of tb cs)"
proof (induction cs arbitrary: i buf pos rule: induct_list012)
  case 1
  then show ?case by simp
next
  case (2 a)
  then show ?case by simp
next
  case (3 a b cs)
  show ?case
  proof (cases "cell_at tb (int (code a) - 49) (int (code b) - 49)")
    case (Some ch)
    have "put buf pos ch = Some (write_at buf pos [ch])" using "3.prems" by (intro put_write_at) simp
    moreover have "c_incr (int pos) = Some (int (Suc pos))" "c_incr (int i) = Some (int (Suc i))"
      "c_int (int i + 2) = Some (int (i + 2))"
      using "3.prems" by (simp_all add: in_int_def)
    ultimately have "decode_pairs tb (a # b # cs) (int i) buf (int pos)
        = decode_pairs tb cs (int (i + 2)) (write_at buf pos [ch]) (int (Suc pos))"
      using Some by (simp del: of_nat_Suc of_nat_add)
    also have "\<dots> = map_option (\<lambda>p. (write_at (write_at buf pos [ch]) (Suc pos) p, int (Suc pos + length p))) (plain_of tb cs)"
      using "3.prems" by (intro "3.IH"(1)) simp_all
    finally show ?thesis
      using Some "3.prems"(1) write_at_append [of pos "[ch]" _ buf] plain_length [of tb cs]
      by (cases "plain_of tb cs") auto
  next
    case None
    have "c_incr (int i) \<noteq> None" using "3.prems"(3) by simp
    with None show ?thesis by auto
  qed
qed

text \<open>The size of the result.\<close>

lemma to_int_nat: "int n \<le> INT_MAX \<Longrightarrow> to_int (word_of_nat n :: u64) = int n"
proof -
  assume n: "int n \<le> INT_MAX"
  have "uint (word_of_int (int n) :: u64) = int n" using n by (simp add: uint_word_of_int del: of_int_of_nat_eq)
  then have "uint (word_of_nat n :: u64) = int n" by simp
  with n show ?thesis using to_int_small [of "word_of_nat n"] by (simp add: in_int_def)
qed

lemma pbDecode_eq:
  assumes "int (length cs) \<le> INT_MAX" and "malloc (length cs div 2 + 1) = Some buf" and "length buf = length cs div 2 + 1"
  shows "pbDecode malloc cs tb =
    (case plain_of tb cs of None \<Rightarrow> None | Some p \<Rightarrow> put (write_at buf 0 p) (length p) NUL)"
proof -
  let ?n = "length cs div 2"
  have n: "int ?n < INT_MAX" using assms(1) by linarith
  have "to_int (word_of_nat ?n :: u64) = int ?n" using n by (intro to_int_nat) simp
  moreover have "c_incr (int ?n) = Some (int (?n + 1))" using n by (simp del: of_nat_div)
  moreover have "nat (int (?n + 1) mod 2 ^ 64) = ?n + 1"
    using n by (subst mod_pos_pos_trivial) (simp_all del: of_nat_div of_nat_Suc)
  moreover have "decode_pairs tb cs (int 0) buf (int 0) = map_option (\<lambda>p. (write_at buf 0 p, int (0 + length p))) (plain_of tb cs)"
    using assms n by (intro decode_pairs_write) simp_all
  ultimately show ?thesis
    using assms(2) by (cases "plain_of tb cs") (simp_all add: pbDecode_def del: of_nat_div of_nat_Suc)
qed

section \<open>Round trip\<close>

lemma plain_col_code:
  assumes "row < 5" and "set cols \<subseteq> {..<5}"
  shows "plain_of tb (col_code tb ch row cols @ s) =
    map_option (\<lambda>p. replicate (length (col_code tb ch row cols) div 2) ch @ p) (plain_of tb s)"
  using assms(2)
proof (induction cols)
  case Nil
  then show ?case by (cases "plain_of tb s") simp_all
next
  case (Cons col cols)
  have "code (char_of (49 + row)) = 49 + row" "code (char_of (49 + col)) = 49 + col"
    using assms(1) Cons.prems by simp_all
  then show ?case using Cons assms(1)
    by (cases "grid tb ! row ! col = ch") (simp_all add: cell_at_def, cases "plain_of tb s", simp_all)
qed

lemma plain_code_of:
  "plain_of tb (code_of tb ch @ s) = map_option (\<lambda>p. replicate (length (code_of tb ch) div 2) ch @ p) (plain_of tb s)"
proof -
  have even: "even (length (col_code tb ch row cols))" for row cols by (induction cols) auto
  have evens: "even (length (concat (map (\<lambda>row. col_code tb ch row [0..<5]) rows)))" for rows
    using even by (induction rows) auto
  have "set rows \<subseteq> {..<5} \<Longrightarrow> plain_of tb (concat (map (\<lambda>row. col_code tb ch row [0..<5]) rows) @ s) =
    map_option (\<lambda>p. replicate (length (concat (map (\<lambda>row. col_code tb ch row [0..<5]) rows)) div 2) ch @ p) (plain_of tb s)" for rows
  proof (induction rows)
    case Nil
    then show ?case by (cases "plain_of tb s") simp_all
  next
    case (Cons row rows)
    let ?c = "col_code tb ch row [0..<5]" and ?r = "concat (map (\<lambda>row. col_code tb ch row [0..<5]) rows)"
    have "(length ?c + length ?r) div 2 = length ?c div 2 + length ?r div 2"
      using even [of row "[0..<5]"] evens [of rows] by (auto elim!: evenE)
    then have "replicate (length ?c div 2) ch @ replicate (length ?r div 2) ch = replicate ((length ?c + length ?r) div 2) ch"
      by (simp add: replicate_add)
    then have rep: "replicate (length ?c div 2) ch @ replicate (length ?r div 2) ch @ p = replicate ((length ?c + length ?r) div 2) ch @ p" for p
      by (metis append.assoc)
    have "plain_of tb (?c @ ?r @ s) = map_option (\<lambda>p. replicate (length ?c div 2) ch @ p) (plain_of tb (?r @ s))"
      using Cons.prems by (intro plain_col_code) auto
    also have "\<dots> = map_option (\<lambda>p. replicate ((length ?c + length ?r) div 2) ch @ p) (plain_of tb s)"
      using Cons by (cases "plain_of tb s") (simp_all del: length_concat add: rep)
    finally show ?case by (simp del: length_concat)
  qed
  from this [of "[0..<5]"] show ?thesis unfolding code_of_def by (simp add: subset_eq)
qed

lemma plain_codes:
  "plain_of tb (concat (map (\<lambda>c. code_of tb (letter_of c)) cs)) =
   Some (concat (map (\<lambda>c. replicate (length (code_of tb (letter_of c)) div 2) (letter_of c)) cs))"
  by (induction cs) (simp_all add: plain_code_of)

text \<open>The rows that contain a character, and the rows of the standard table as ranges of codes.\<close>

lemma length_col_code_iff:
  "length (col_code tb ch row cols) = (if \<exists>col \<in> set cols. grid tb ! row ! col = ch then 2 else 0)"
  by (induction cols) auto

lemma char_eq_code: "n < 256 \<Longrightarrow> c = char_of n \<longleftrightarrow> code c = n"
  by (metis char_of_char of_char_of mod_less)

lemma standard_rows:
  "(\<exists>col \<in> set [0..<5]. grid standardTable ! 0 ! col = ch) \<longleftrightarrow> code ch \<in> {65..69}"
  "(\<exists>col \<in> set [0..<5]. grid standardTable ! 1 ! col = ch) \<longleftrightarrow> code ch \<in> {70..73} \<union> {75}"
  "(\<exists>col \<in> set [0..<5]. grid standardTable ! 2 ! col = ch) \<longleftrightarrow> code ch \<in> {76..80}"
  "(\<exists>col \<in> set [0..<5]. grid standardTable ! 3 ! col = ch) \<longleftrightarrow> code ch \<in> {81..85}"
  "(\<exists>col \<in> set [0..<5]. grid standardTable ! 4 ! col = ch) \<longleftrightarrow> code ch \<in> {86..90}"
proof -
  note code = char_eq_code [of _ ch]
  have five: "set [0..<5] = {0, 1, 2, 3, 4::nat}" by code_simp
  have row: "(\<exists>col \<in> set [0..<5]. xs ! col = ch) \<longleftrightarrow> ch \<in> {xs ! 0, xs ! 1, xs ! 2, xs ! 3, xs ! 4}" for xs :: "char list"
    unfolding five by auto
  have letters: "''ABCDE'' = map char_of [65, 66, 67, 68, 69::nat]" "''FGHIK'' = map char_of [70, 71, 72, 73, 75::nat]"
    "''LMNOP'' = map char_of [76, 77, 78, 79, 80::nat]" "''QRSTU'' = map char_of [81, 82, 83, 84, 85::nat]"
    "''VWXYZ'' = map char_of [86, 87, 88, 89, 90::nat]"
    by code_simp+
  show "(\<exists>col \<in> set [0..<5]. grid standardTable ! 0 ! col = ch) \<longleftrightarrow> code ch \<in> {65..69}"
    unfolding row by (simp add: standardTable_def letters code) auto
  show "(\<exists>col \<in> set [0..<5]. grid standardTable ! 1 ! col = ch) \<longleftrightarrow> code ch \<in> {70..73} \<union> {75}"
    unfolding row by (simp add: standardTable_def letters code) auto
  show "(\<exists>col \<in> set [0..<5]. grid standardTable ! 2 ! col = ch) \<longleftrightarrow> code ch \<in> {76..80}"
    unfolding row by (simp add: standardTable_def letters code) auto
  show "(\<exists>col \<in> set [0..<5]. grid standardTable ! 3 ! col = ch) \<longleftrightarrow> code ch \<in> {81..85}"
    unfolding row by (simp add: standardTable_def letters code) auto
  show "(\<exists>col \<in> set [0..<5]. grid standardTable ! 4 ! col = ch) \<longleftrightarrow> code ch \<in> {86..90}"
    unfolding row by (simp add: standardTable_def letters code) auto
qed

lemma standard_code_length:
  "length (code_of standardTable ch) = (if 65 \<le> code ch \<and> code ch \<le> 90 \<and> code ch \<noteq> 74 then 2 else 0)"
proof -
  have rows: "[0..<5] = [0, 1, 2, 3, 4::nat]" by (simp add: upt_rec)
  have "length (code_of standardTable ch) =
      (\<Sum>row \<leftarrow> [0, 1, 2, 3, 4]. if \<exists>col \<in> set [0..<5]. grid standardTable ! row ! col = ch then 2 else 0)"
    unfolding code_of_def length_concat map_map comp_def length_col_code_iff rows by simp
  also have "\<dots> = (if 65 \<le> code ch \<and> code ch \<le> 90 \<and> code ch \<noteq> 74 then 2 else 0)"
    unfolding list.map sum_list.Cons sum_list.Nil standard_rows by auto
  finally show ?thesis .
qed

lemma code_toupper: "code (toupper c) = (if 97 \<le> code c \<and> code c \<le> 122 then code c - 32 else code c)"
proof -
  have "code (char_of (code c - 32) :: char) = code c - 32"
    unfolding of_char_of using nat_of_char_less_256 [of c] by (intro mod_less) linarith
  then show ?thesis by (simp add: toupper_def)
qed

lemma letter_code: "65 \<le> code (letter_of c) \<and> code (letter_of c) \<le> 90 \<and> code (letter_of c) \<noteq> 74 \<longleftrightarrow> isalpha c"
proof (cases "toupper c = CHR ''J''")
  case True
  then have "code (toupper c) = 74" by simp
  then have "isalpha c" unfolding code_toupper isalpha_def by (auto split: if_splits)
  with True show ?thesis by (simp add: letter_of_def Let_def)
next
  case False
  have "CHR ''J'' = char_of (74::nat)" by code_simp
  with False have "code (toupper c) \<noteq> 74" using char_eq_code [of 74 "toupper c"] by simp
  with False show ?thesis unfolding letter_of_def Let_def code_toupper isalpha_def by (auto simp: code_toupper split: if_splits)
qed

lemma standard_codes:
  "concat (map (\<lambda>c. replicate (length (code_of standardTable (letter_of c)) div 2) (letter_of c)) cs)
     = map letter_of (filter isalpha cs)"
  "length (concat (map (\<lambda>c. code_of standardTable (letter_of c)) cs)) = 2 * length (filter isalpha cs)"
  by (induction cs) (auto simp: standard_code_length letter_code)

lemma code_of_digits: "c \<in> set (code_of tb ch) \<Longrightarrow> 49 \<le> code c \<and> code c \<le> 53"
proof -
  have col: "49 \<le> code c \<and> code c \<le> 53" if "row < 5" "set cols \<subseteq> {..<5}" "c \<in> set (col_code tb ch row cols)" for row cols
    using that by (induction cols) (auto split: if_splits)
  assume "c \<in> set (code_of tb ch)"
  then obtain row where "row < 5" "c \<in> set (col_code tb ch row [0..<5])" by (auto simp: code_of_def)
  then show ?thesis using col [of row "[0..<5]"] by (simp add: subset_eq)
qed

text \<open>C32: With the standard table, for ASCII text of less than 2^30 characters and with
  \<open>malloc\<close> succeeding, \<open>pbEncode\<close> stays inside its buffer of twice the
  length plus one, no \<open>int\<close> overflows, and it writes two digits per letter;
  decoding them gives the letters of the text in upper case, with I for J and without the other
  characters.\<close>

theorem polybius_round_trip:
  assumes "\<forall>n. \<exists>buf. malloc n = Some buf \<and> length buf = n"
    and "2 * int (length s) \<le> INT_MAX" and "\<forall>c \<in> set s. code c < 128"
  shows "\<exists>b d. pbEncode malloc s standardTable = Some b \<and> length b = 2 * length s + 1
    \<and> length (cstr b) = 2 * length (filter isalpha s)
    \<and> pbDecode malloc (cstr b) standardTable = Some d \<and> length d = length (filter isalpha s) + 1
    \<and> cstr d = map letter_of (filter isalpha s)"
proof -
  let ?e = "concat (map (\<lambda>c. code_of standardTable (letter_of c)) s)"
  let ?p = "map letter_of (filter isalpha s)"
  obtain buf where buf: "malloc (length s * 2 + 1) = Some buf" "length buf = length s * 2 + 1" using assms(1) by blast
  have le: "length ?e = 2 * length (filter isalpha s)" by (rule standard_codes(2))
  have lf: "length (filter isalpha s) \<le> length s" by simp
  have fit: "length ?e < length buf" unfolding le buf(2) using lf by linarith
  have "length s * 2 + 1 < 2 ^ 64" using assms(2) by simp
  then have int: "int (length buf) \<le> INT_MAX" "(length s * 2 + 1) mod 2 ^ 64 = length s * 2 + 1"
    "int (length ?e) \<le> INT_MAX"
    using assms(2) lf unfolding buf(2) le by (presburger, simp only: mod_less, presburger)
  have "no_nul ?e" using code_of_digits by (fastforce simp: no_nul_def)
  with fit obtain b where b: "put (write_at buf 0 ?e) (length ?e) NUL = Some b" "cstr b = ?e"
    using finish_buffer by blast
  have lb: "length b = length buf" using b(1) fit by (auto simp: put_def split: if_splits)
  have "encode_chars standardTable s (int 0) buf (int 0) = Some (write_at buf 0 ?e, int (0 + length ?e))"
    using fit int(1) assms(2,3) by (intro encode_chars_write) simp_all
  then have enc: "pbEncode malloc s standardTable = Some b"
    using buf(1) b(1) int(2) by (simp add: pbEncode_def del: length_concat)
  obtain dbuf where d: "malloc (length ?e div 2 + 1) = Some dbuf" "length dbuf = length ?e div 2 + 1" using assms(1) by blast
  have pl: "plain_of standardTable ?e = Some ?p" unfolding plain_codes standard_codes(1) ..
  have lp: "length ?p = length ?e div 2" by (rule plain_length [OF pl])
  have "letter_of c \<noteq> NUL" if "isalpha c" for c using letter_code [of c] that by auto
  then have "no_nul (map letter_of (filter isalpha cs))" for cs by (induction cs) auto
  then have "no_nul ?p" .
  with lp d(2) obtain db where db: "put (write_at dbuf 0 ?p) (length ?p) NUL = Some db" "cstr db = ?p"
    using finish_buffer [of ?p dbuf] by auto
  have "length db = length dbuf" using db(1) lp d(2) by (auto simp: put_def split: if_splits)
  moreover have "pbDecode malloc ?e standardTable = Some db"
    unfolding pbDecode_eq [of ?e malloc, OF int(3) d] pl option.case by (rule db(1))
  ultimately show ?thesis using enc b(2) db(2) lb buf(2) le d(2) by auto
qed

theorem polybius_round_trip_witness:
  "\<exists>b d. pbEncode (\<lambda>n. Some (replicate n CHR ''?'')) ''Jam!'' standardTable = Some b
    \<and> pbDecode (\<lambda>n. Some (replicate n CHR ''?'')) (cstr b) standardTable = Some d \<and> cstr d = ''IAM''"
proof -
  have "map letter_of (filter isalpha ''Jam!'') = ''IAM''" by code_simp
  then show ?thesis using polybius_round_trip [of "\<lambda>n. Some (replicate n CHR ''?'')" "''Jam!''"] by auto
qed

text \<open>Decoding reads outside of the table unless every pair consists of digits from 1 to 5.\<close>

lemma cell_defined: "cell_at tb (int (code a) - 49) (int (code b) - 49) \<noteq> None \<longleftrightarrow>
  49 \<le> code a \<and> code a \<le> 53 \<and> 49 \<le> code b \<and> code b \<le> 53"
  by (auto simp: cell_at_def)

lemma plain_defined:
  "plain_of tb cs \<noteq> None \<longleftrightarrow> (\<forall>c \<in> set (take (2 * (length cs div 2)) cs). 49 \<le> code c \<and> code c \<le> 53)"
proof (induction tb cs rule: plain_of.induct)
  case (1 tb a b cs)
  show ?case
  proof (cases "cell_at tb (int (code a) - 49) (int (code b) - 49)")
    case None
    with cell_defined [of tb a b] show ?thesis by auto
  next
    case (Some ch)
    with cell_defined [of tb a b] 1 show ?thesis by (cases "plain_of tb cs") auto
  qed
qed simp_all

text \<open>\<open>pbDecode\<close> stays inside the table exactly if all characters in complete pairs
  are digits from 1 to 5; the code does not check it.\<close>

theorem polybius_decode_defined:
  assumes "\<forall>n. \<exists>buf. malloc n = Some buf \<and> length buf = n" and "int (length cs) \<le> INT_MAX"
  shows "(\<exists>d. pbDecode malloc cs tb = Some d) \<longleftrightarrow>
    (\<forall>c \<in> set (take (2 * (length cs div 2)) cs). c \<in> set ''12345'')"
proof -
  obtain buf where b: "malloc (length cs div 2 + 1) = Some buf" "length buf = length cs div 2 + 1" using assms(1) by blast
  have "(\<exists>d. pbDecode malloc cs tb = Some d) \<longleftrightarrow> plain_of tb cs \<noteq> None"
    unfolding pbDecode_eq [of cs malloc, OF assms(2) b] using plain_length [of tb cs] b(2)
    by (cases "plain_of tb cs") (simp_all add: put_ok)
  moreover have "c \<in> set ''12345'' \<longleftrightarrow> 49 \<le> code c \<and> code c \<le> 53" for c
  proof -
    have "''12345'' = map char_of [49, 50, 51, 52, 53::nat]" by code_simp
    then have "c \<in> set ''12345'' \<longleftrightarrow> c \<in> set (map char_of [49, 50, 51, 52, 53::nat])" by (simp only:)
    also have "\<dots> \<longleftrightarrow> code c \<in> {49, 50, 51, 52, 53}" by (simp add: char_eq_code)
    finally show ?thesis by auto
  qed
  ultimately show ?thesis unfolding plain_defined by simp
qed

theorem polybius_decode_defined_witness:
  "\<exists>d. pbDecode (\<lambda>n. Some (replicate n NUL)) ''1155'' standardTable = Some d"
  by (subst polybius_decode_defined) simp_all

end
