(* ===== verification/C_Scan.thy ===== *)
theory C_Scan
  imports C_Files
begin

text \<open>
  Reading decimal numbers: what \<open>sscanf\<close> with \<open>"%d"\<close> and \<open>atoi\<close> make of the start of a string. A number
  outside of the range of \<open>int\<close> is undefined.
\<close>

definition isspace :: "char \<Rightarrow> bool" where
  "isspace c \<longleftrightarrow> code c = 32 \<or> 9 \<le> code c \<and> code c \<le> 13"

definition scan_digits :: "string \<Rightarrow> nat option" where
  "scan_digits s = (let ds = takeWhile is_digit s in if ds = [] then None else Some (digits_val ds))"

text \<open>The number matched, if any: blanks, a sign, digits.\<close>

definition scan_int :: "string \<Rightarrow> int option" where
  "scan_int s =
     (case dropWhile isspace s of
        [] \<Rightarrow> None
      | c # cs \<Rightarrow>
          if c = CHR ''-'' then map_option (\<lambda>n. - int n) (scan_digits cs)
          else if c = CHR ''+'' then map_option int (scan_digits cs)
          else map_option int (scan_digits (c # cs)))"

definition atoi :: "string \<Rightarrow> int c" where
  "atoi s = (case scan_int s of None \<Rightarrow> Some 0 | Some v \<Rightarrow> c_int v)"

lemma is_digit_not_space: "is_digit c \<Longrightarrow> \<not> isspace c"
  by (auto simp: is_digit_def isspace_def)

lemma is_digit_plain [simp]: "\<not> is_digit (CHR ''+'')" "\<not> is_digit (CHR '' '')" "\<not> is_digit NEWLINE"
  by (simp_all add: is_digit_def)

lemma minus_not_space: "\<not> isspace (CHR ''-'')"
  by (simp add: isspace_def)

lemma scan_digits_dec:
  assumes "rest = [] \<or> \<not> is_digit (hd rest)"
  shows "scan_digits (dec_nat n @ rest) = Some n"
proof -
  have "takeWhile is_digit (dec_nat n @ rest) = dec_nat n @ takeWhile is_digit rest"
    using dec_nat_digits by (metis takeWhile_append2)
  also have "takeWhile is_digit rest = []" using assms by (cases rest) auto
  finally show ?thesis by (simp add: scan_digits_def)
qed

text \<open>What \<open>printf\<close> has written is read back.\<close>

lemma scan_int_dec:
  assumes "rest = [] \<or> \<not> is_digit (hd rest)"
  shows "scan_int (dec_int i @ rest) = Some i"
proof (cases "i < 0")
  case True
  then show ?thesis
    using scan_digits_dec [OF assms] by (simp add: dec_int_def scan_int_def minus_not_space)
next
  case False
  obtain c cs where c: "dec_nat (nat i) = c # cs" by (metis dec_nat_nonempty list.exhaust)
  have d: "is_digit c" using hd_dec_nat [of "nat i"] c by simp
  then have "c \<noteq> CHR ''-''" "c \<noteq> CHR ''+''" by auto
  with False c d is_digit_not_space [OF d] scan_digits_dec [OF assms, of "nat i"]
  show ?thesis by (simp add: dec_int_def scan_int_def)
qed

lemma atoi_dec: "in_int i \<Longrightarrow> atoi (dec_int i) = Some i"
  using scan_int_dec [of "[]" i] by (simp add: atoi_def)

lemma dec_int_chars: "c \<in> set (dec_int i) \<Longrightarrow> is_digit c \<or> c = CHR ''-''"
  using dec_nat_digits by (auto simp: dec_int_def split: if_splits)

lemma dec_int_nonempty [simp]: "dec_int i \<noteq> []"
  by (simp add: dec_int_def)

end
