(* ===== verification/Genrand.thy ===== *)
theory Genrand
  imports C_Scan C_Words
begin

text \<open>
  \<open>week3/genrand.c\<close>: a linear congruential generator on 32-bit unsigned integers, and the program that
  writes its numbers to a file. The global \<open>seed\<close> is passed along; its first value is the
  time, a parameter, cut down to 32 bits.
\<close>

section \<open>The program\<close>

text \<open>\<open>seed = (unsigned int)time(NULL);\<close>\<close>

definition initSeed :: "int \<Rightarrow> u32" where
  "initSeed time = word_of_int time"

definition lcg :: "u32 \<Rightarrow> u32" where
  "lcg seed = 1664525 * seed + 1013904223"

text \<open>\<open>max - min + 1\<close> is a signed operation; the remainder and the sum are unsigned, and the result is
  converted back to \<open>int\<close>.\<close>

definition genRand :: "int \<Rightarrow> int \<Rightarrow> u32 \<Rightarrow> (int \<times> u32) c" where
  "genRand lo hi seed =
     (let (lo, hi) = (if lo > hi then (hi, lo) else (lo, hi))
      in do {
           d \<leftarrow> c_int (hi - lo);
           d \<leftarrow> c_int (d + 1);
           let seed = lcg seed;
           Some (sint (seed mod word_of_int d + word_of_int lo), seed)
         })"

fun numbers :: "nat \<Rightarrow> u32 \<Rightarrow> (int list \<times> u32) c" where
  "numbers 0 seed = Some ([], seed)"
| "numbers (Suc n) seed = do {
     (r, seed) \<leftarrow> genRand 1 10000 seed;
     (rs, seed) \<leftarrow> numbers n seed;
     Some (r # rs, seed)
   }"

text \<open>The exit code and the files afterwards; the lines are written to the end of an old file with \<open>-a\<close>.\<close>

definition genrand_main :: "string list \<Rightarrow> int \<Rightarrow> (string \<Rightarrow> bool) \<Rightarrow> (string \<Rightarrow> string option) \<Rightarrow> (int \<times> (string \<Rightarrow> string option)) c" where
  "genrand_main argv time can_open fs =
     (if length argv < 3 \<or> length argv > 4 then Some (1, fs)
      else do {
        n \<leftarrow> atoi (argv ! 1);
        let filename = argv ! 2;
        let append = (length argv = 4 \<and> argv ! 3 = ''-a'');
        (if \<not> can_open filename then Some (1, fs)
         else do {
           (rs, seed) \<leftarrow> numbers (nat n) (initSeed time);
           let old = (case fs filename of Some s \<Rightarrow> if append then s else [] | None \<Rightarrow> []);
           Some (0, fs(filename \<mapsto> old @ concat (map (\<lambda>r. dec_int r @ [NEWLINE]) rs)))
         })
      })"

section \<open>The generator\<close>

lemma genRand_value:
  assumes "in_int lo" and "in_int hi" and "lo \<le> hi" and "hi - lo < INT_MAX"
  shows "genRand lo hi seed = Some (uint (lcg seed) mod (hi - lo + 1) + lo, lcg seed)"
proof -
  define d where "d = hi - lo + 1"
  have d: "0 < d" "d \<le> INT_MAX" using assms by (auto simp: d_def)
  have ud: "uint (word_of_int d :: u32) = d" using d by (simp add: uint_word_of_int)
  have r: "0 \<le> uint (lcg seed) mod d" "uint (lcg seed) mod d < d" using d by simp_all
  have "lcg seed mod word_of_int d = (word_of_int (uint (lcg seed) mod d) :: u32)"
    by (metis ud uint_mod word_of_int_uint)
  then have "lcg seed mod word_of_int d + word_of_int lo = (word_of_int (uint (lcg seed) mod d + lo) :: u32)" by simp
  moreover have "lo \<le> uint (lcg seed) mod d + lo" "uint (lcg seed) mod d + lo \<le> hi" using r d_def by linarith+
  then have "in_int (uint (lcg seed) mod d + lo)" using assms(1,2) unfolding in_int_def by linarith
  then have "sint (word_of_int (uint (lcg seed) mod d + lo) :: u32) = uint (lcg seed) mod d + lo" by (rule sint_int)
  moreover have "c_int (hi - lo) = Some (hi - lo)" "c_int (hi - lo + 1) = Some d"
    using assms d by (simp_all add: in_int_def d_def)
  ultimately show ?thesis using assms(3) by (simp add: genRand_def Let_def d_def)
qed

lemma genRand_swap: "genRand lo hi seed = genRand hi lo seed"
  by (cases lo hi rule: linorder_cases) (simp_all add: genRand_def)

lemma lcg_flips_parity: "even (uint (lcg seed)) \<longleftrightarrow> odd (uint seed)"
proof -
  have "uint (lcg seed) = (1664525 * uint seed + 1013904223) mod 2 ^ 32"
    by (simp add: lcg_def uint_word_ariths mod_simps)
  then have "uint (lcg seed) mod 2 = (1664525 * uint seed + 1013904223) mod 2 ^ 32 mod 2" by simp
  also have "\<dots> = (1664525 * uint seed + 1013904223) mod 2" by (rule mod_mod_cancel) simp
  finally show ?thesis by (simp add: even_iff_mod_2_eq_zero) presburger
qed

lemma lcg_inject: "lcg s = lcg t \<longleftrightarrow> s = t"
proof
  assume "lcg s = lcg t"
  then have "1664525 * s = 1664525 * t" by (simp add: lcg_def)
  then have "4276115653 * 1664525 * s = 4276115653 * 1664525 * t" by (simp only: mult.assoc)
  moreover have "(4276115653 * 1664525 :: u32) = 1" by simp
  ultimately show "s = t" by (simp only: mult_1)
qed simp

text \<open>The bounds may be given in either order.\<close>

theorem genRand_range:
  assumes "in_int lo" and "in_int hi" and "\<bar>hi - lo\<bar> < INT_MAX"
  shows "\<exists>r seed'. genRand lo hi seed = Some (r, seed') \<and> min lo hi \<le> r \<and> r \<le> max lo hi \<and> seed' = lcg seed"
proof -
  have main: "\<exists>r seed'. genRand a b seed = Some (r, seed') \<and> a \<le> r \<and> r \<le> b \<and> seed' = lcg seed"
    if ab: "in_int a" "in_int b" "a \<le> b" "b - a < INT_MAX" for a b
  proof -
    have "0 \<le> uint (lcg seed) mod (b - a + 1)" "uint (lcg seed) mod (b - a + 1) < b - a + 1"
      using ab(3) pos_mod_bound [of "b - a + 1"] by simp_all
    then have "a \<le> uint (lcg seed) mod (b - a + 1) + a" "uint (lcg seed) mod (b - a + 1) + a \<le> b" by linarith+
    then show ?thesis using genRand_value [OF ab] by blast
  qed
  show ?thesis
  proof (cases "lo \<le> hi")
    case True
    then show ?thesis using main [of lo hi] assms by simp
  next
    case False
    then show ?thesis using main [of hi lo] assms by (simp add: genRand_swap [of lo hi])
  qed
qed

theorem genRand_range_witness: "\<exists>r seed'. genRand 6 1 7 = Some (r, seed') \<and> 1 \<le> r \<and> r \<le> 6 \<and> seed' = 1025555898"
  using genRand_range [of 6 1 7] by (simp add: in_int_def lcg_def)

section \<open>The file\<close>

fun alternates :: "int list \<Rightarrow> bool" where
  "alternates (x # y # xs) \<longleftrightarrow> even x \<noteq> even y \<and> alternates (y # xs)"
| "alternates _ \<longleftrightarrow> True"

lemma numbers_ok:
  "\<exists>rs seed'. numbers n seed = Some (rs, seed') \<and> length rs = n \<and> (\<forall>r \<in> set rs. 1 \<le> r \<and> r \<le> 10000)
     \<and> alternates rs \<and> (rs \<noteq> [] \<longrightarrow> even (hd rs) = even (uint seed))"
proof (induction n arbitrary: seed)
  case (Suc n)
  obtain rs seed' where rs: "numbers n (lcg seed) = Some (rs, seed')" "length rs = n" "\<forall>r \<in> set rs. 1 \<le> r \<and> r \<le> 10000"
    "alternates rs" "rs \<noteq> [] \<longrightarrow> even (hd rs) = even (uint (lcg seed))"
    using Suc.IH by blast
  define r where "r = uint (lcg seed) mod 10000 + 1"
  have g: "genRand 1 10000 seed = Some (r, lcg seed)"
    using genRand_value [of 1 10000 seed] by (simp add: in_int_def r_def)
  have "even (uint (lcg seed) mod 10000) \<longleftrightarrow> even (uint (lcg seed))" by (rule dvd_mod_iff) simp
  then have er: "even r = even (uint seed)" using lcg_flips_parity [of seed] by (simp add: r_def)
  have "0 \<le> uint (lcg seed) mod 10000" "uint (lcg seed) mod 10000 < 10000" by simp_all
  then have range: "1 \<le> r" "r \<le> 10000" by (simp_all add: r_def)
  have "alternates (r # rs)" using rs(4,5) er lcg_flips_parity [of seed] by (cases rs) auto
  then show ?case using g rs range er by simp
qed simp

text \<open>C35: The program writes as many lines as asked for (none for a negative number), each a number
  from 1 to 10000, after the old contents with \<open>-a\<close> and instead of them without;
  odd and even numbers alternate.\<close>

theorem genrand_file:
  assumes "length argv = 3 \<or> length argv = 4" and "in_int n" and "argv ! 1 = dec_int n" and "can_open (argv ! 2)"
  shows "\<exists>rs. genrand_main argv time can_open fs = Some (0, fs(argv ! 2 \<mapsto>
      (if length argv = 4 \<and> argv ! 3 = ''-a'' then (case fs (argv ! 2) of Some s \<Rightarrow> s | None \<Rightarrow> []) else [])
        @ concat (map (\<lambda>r. dec_int r @ [NEWLINE]) rs)))
    \<and> length rs = nat n \<and> (\<forall>r \<in> set rs. 1 \<le> r \<and> r \<le> 10000) \<and> alternates rs"
proof -
  obtain rs seed' where "numbers (nat n) (initSeed time) = Some (rs, seed')" "length rs = nat n"
    "\<forall>r \<in> set rs. 1 \<le> r \<and> r \<le> 10000" "alternates rs"
    using numbers_ok by blast
  then show ?thesis using assms atoi_dec [OF assms(2)]
    by (intro exI [of _ rs]) (auto simp: genrand_main_def Let_def split: option.splits)
qed

theorem genrand_file_witness:
  "\<exists>rs. genrand_main [''genrand'', ''3'', ''out''] 12345 (\<lambda>_. True) Map.empty =
      Some (0, [''out'' \<mapsto> concat (map (\<lambda>r. dec_int r @ [NEWLINE]) rs)])
    \<and> length rs = 3 \<and> (\<forall>r \<in> set rs. 1 \<le> r \<and> r \<le> 10000) \<and> alternates rs"
proof -
  have "dec_int 3 = ''3''" by (simp add: dec_int_def dec_nat.simps digit_def) code_simp
  then show ?thesis
    using genrand_file [of "[''genrand'', ''3'', ''out'']" 3 "\<lambda>_. True" 12345 Map.empty] by (simp add: in_int_def)
qed

end
