(* ===== verification/Arger.thy ===== *)
theory Arger
  imports C_Buffers
begin

text \<open>
  \<open>01-28/arger.c\<close>: hand-written string functions and a program that joins its arguments in a buffer of
  1000 characters and prints them in upper case, in lower case or capitalized.
\<close>

section \<open>The functions\<close>

definition is_lower :: "char \<Rightarrow> bool" where
  "is_lower c \<longleftrightarrow> 97 \<le> code c \<and> code c \<le> 122"

definition is_upper :: "char \<Rightarrow> bool" where
  "is_upper c \<longleftrightarrow> 65 \<le> code c \<and> code c \<le> 90"

definition my_toupper :: "char \<Rightarrow> char" where
  "my_toupper c = (if is_lower c then char_of (code c - 32) else c)"

definition my_tolower :: "char \<Rightarrow> char" where
  "my_tolower c = (if is_upper c then char_of (code c + 32) else c)"

text \<open>The loop of \<open>to_capitalized\<close>, with the flag \<open>newWord\<close>.\<close>

fun capitalize :: "bool \<Rightarrow> char list \<Rightarrow> char list" where
  "capitalize newWord [] = []"
| "capitalize newWord (c # cs) =
     (if c = NUL then c # cs
      else
        let (c, newWord) =
          (if newWord \<and> (is_lower c \<or> is_upper c) then (my_toupper c, False) else (my_tolower c, newWord));
            newWord = (if c = CHR '' '' then True else newWord)
        in c # capitalize newWord cs)"

definition to_capitalized :: "char list \<Rightarrow> char list" where
  "to_capitalized str = capitalize True str"

text \<open>Walking to the terminating NUL is undefined in an array that has none.\<close>

fun my_strlen :: "char list \<Rightarrow> nat c" where
  "my_strlen [] = None"
| "my_strlen (c # cs) = (if c = NUL then Some 0 else map_option Suc (my_strlen cs))"

fun copy_chars :: "char list \<Rightarrow> nat \<Rightarrow> string \<Rightarrow> (char list \<times> nat) c" where
  "copy_chars dest i [] = Some (dest, i)"
| "copy_chars dest i (c # src) = do {
     dest \<leftarrow> put dest i c;
     copy_chars dest (i + 1) src
   }"

definition my_strcat :: "char list \<Rightarrow> string \<Rightarrow> char list c" where
  "my_strcat dest src = do {
     i \<leftarrow> my_strlen dest;
     (dest, i) \<leftarrow> copy_chars dest i src;
     put dest i NUL
   }"

fun my_strcmp :: "string \<Rightarrow> string \<Rightarrow> int" where
  "my_strcmp (a # s1) (b # s2) = (if a = b then my_strcmp s1 s2 else int (code a) - int (code b))"
| "my_strcmp (a # s1) [] = int (code a)"
| "my_strcmp [] (b # s2) = - int (code b)"
| "my_strcmp [] [] = 0"

section \<open>The program\<close>

fun join :: "char list \<Rightarrow> string list \<Rightarrow> char list c" where
  "join output [] = Some output"
| "join output (arg # args) = do {
     output \<leftarrow> my_strcat output arg;
     output \<leftarrow> my_strcat output '' '';
     join output args
   }"

fun map_buffer :: "(char \<Rightarrow> char) \<Rightarrow> char list \<Rightarrow> char list" where
  "map_buffer f [] = []"
| "map_buffer f (c # cs) = (if c = NUL then c # cs else f c # map_buffer f cs)"

definition arger_main :: "string list \<Rightarrow> (int \<times> string) c" where
  "arger_main argv =
     (if length argv < 3 then Some (-1, [])
      else do {
        let flag = argv ! 1;
        output \<leftarrow> join (replicate 1000 NUL) (drop 2 argv);
        n \<leftarrow> my_strlen output;
        output \<leftarrow> (if n = 0 then None else put output (n - 1) NUL);
        (if my_strcmp flag ''-u'' = 0 then Some (0, cstr (map_buffer my_toupper output) @ [NEWLINE])
         else if my_strcmp flag ''-l'' = 0 then Some (0, cstr (map_buffer my_tolower output) @ [NEWLINE])
         else if my_strcmp flag ''-cap'' = 0 then Some (0, cstr (to_capitalized output) @ [NEWLINE])
         else Some (-1, []))
      })"

section \<open>The string functions\<close>

text \<open>\<open>holds buf n s\<close>: an array of \<open>n\<close> characters that holds the string \<open>s\<close>.\<close>

definition holds :: "char list \<Rightarrow> nat \<Rightarrow> string \<Rightarrow> bool" where
  "holds buf n s \<longleftrightarrow> no_nul s \<and> length buf = n \<and> (\<exists>rest. buf = s @ NUL # rest)"

lemma my_strlen_holds: "holds buf n s \<Longrightarrow> my_strlen buf = Some (length s) \<and> length s < n"
proof -
  have "no_nul s \<Longrightarrow> my_strlen (s @ NUL # rest) = Some (length s)" for rest by (induction s) auto
  then show "holds buf n s \<Longrightarrow> my_strlen buf = Some (length s) \<and> length s < n" by (auto simp: holds_def)
qed

lemma copy_chars_write:
  "i + length src \<le> length dest \<Longrightarrow> copy_chars dest i src = Some (write_at dest i src, i + length src)"
proof (induction src arbitrary: dest i)
  case (Cons c src)
  then show ?case using write_at_append [of i "[c]" src dest] by (simp add: put_write_at)
qed simp

lemma copy_chars_outside: "length dest < i + length src \<Longrightarrow> i \<le> length dest \<Longrightarrow> copy_chars dest i src = None"
proof (induction src arbitrary: dest i)
  case (Cons c src)
  then show ?case by (cases "i < length dest") (auto simp: put_def)
qed simp

lemma my_strcat_holds:
  assumes "holds buf n s" and "no_nul t"
  shows "length s + length t < n \<Longrightarrow> \<exists>b. my_strcat buf t = Some b \<and> holds b n (s @ t)"
    and "n \<le> length s + length t \<Longrightarrow> my_strcat buf t = None"
proof -
  obtain rest where buf: "buf = s @ NUL # rest" "length buf = n" "no_nul s" using assms(1) by (auto simp: holds_def)
  note len = my_strlen_holds [OF assms(1)]
  {
    assume fit: "length s + length t < n"
    have "copy_chars buf (length s) t = Some (write_at buf (length s) t, length s + length t)"
      using fit buf(2) by (intro copy_chars_write) simp
    moreover have "put (write_at buf (length s) t) (length s + length t) NUL
        = Some (write_at buf (length s) (t @ [NUL]))"
      using fit buf(2) put_write_at [of "length s + length t" "write_at buf (length s) t" NUL]
        write_at_append [of "length s" t "[NUL]" buf] by simp
    moreover have "holds (write_at buf (length s) (t @ [NUL])) n (s @ t)"
      using fit buf assms(2) by (auto simp: holds_def write_at_def)
    ultimately show "\<exists>b. my_strcat buf t = Some b \<and> holds b n (s @ t)" using len by (simp add: my_strcat_def)
  next
    assume over: "n \<le> length s + length t"
    show "my_strcat buf t = None"
    proof (cases "length s + length t = n")
      case True
      then have "copy_chars buf (length s) t = Some (write_at buf (length s) t, length s + length t)"
        using buf(2) by (intro copy_chars_write) simp
      with True len buf(2) show ?thesis by (simp add: my_strcat_def put_def)
    next
      case False
      then have "copy_chars buf (length s) t = None" using over buf(2) len by (intro copy_chars_outside) simp_all
      with len show ?thesis by (simp add: my_strcat_def)
    qed
  }
qed

lemma my_strcmp_eq: "no_nul s \<Longrightarrow> no_nul t \<Longrightarrow> my_strcmp s t = 0 \<longleftrightarrow> s = t"
proof (induction s t rule: my_strcmp.induct)
  case (1 a s1 b s2)
  then show ?case by (auto dest: of_char_eq_iff [THEN iffD1])
next
  case (2 a s1)
  have "code a \<noteq> code NUL" using 2 by (simp only: of_char_eq_iff no_nul_simps) simp
  then show ?case by simp
next
  case (3 b s2)
  have "code b \<noteq> code NUL" using 3 by (simp only: of_char_eq_iff no_nul_simps) simp
  then show ?case by simp
qed simp

text \<open>All arguments, each followed by a blank.\<close>

definition spaced :: "string list \<Rightarrow> string" where
  "spaced args = concat (map (\<lambda>a. a @ '' '') args)"

lemma join_holds:
  assumes "holds buf n s" and "\<forall>a \<in> set args. no_nul a"
  shows "length s + length (spaced args) < n \<Longrightarrow> \<exists>b. join buf args = Some b \<and> holds b n (s @ spaced args)"
    and "n \<le> length s + length (spaced args) \<Longrightarrow> join buf args = None"
proof -
  have "(length s + length (spaced args) < n \<longrightarrow> (\<exists>b. join buf args = Some b \<and> holds b n (s @ spaced args)))
      \<and> (n \<le> length s + length (spaced args) \<longrightarrow> join buf args = None)"
    using assms
  proof (induction args arbitrary: buf s)
    case Nil
    then show ?case using my_strlen_holds [of buf n s] by (simp add: spaced_def)
  next
    case (Cons a args)
    have nn: "no_nul a" "no_nul '' ''" "\<forall>a \<in> set args. no_nul a" using Cons.prems(2) by auto
    have sp: "spaced (a # args) = a @ '' '' @ spaced args" by (simp add: spaced_def)
    show ?case
    proof (cases "length s + length a < n")
      case False
      then show ?thesis using my_strcat_holds(2) [OF Cons.prems(1) nn(1)] by (simp add: sp)
    next
      case True
      then obtain b where b: "my_strcat buf a = Some b" "holds b n (s @ a)"
        using my_strcat_holds(1) [OF Cons.prems(1) nn(1)] by blast
      show ?thesis
      proof (cases "length (s @ a) + length '' '' < n")
        case False
        then have "my_strcat b '' '' = None" using my_strcat_holds(2) [OF b(2) nn(2)] by simp
        with b(1) False show ?thesis by (simp add: sp)
      next
        case True
        then obtain d where d: "my_strcat b '' '' = Some d" "holds d n ((s @ a) @ '' '')"
          using my_strcat_holds(1) [OF b(2) nn(2)] by blast
        with b(1) Cons.IH [OF d(2) nn(3)] show ?thesis by (simp add: sp)
      qed
    qed
  qed
  then show "length s + length (spaced args) < n \<Longrightarrow> \<exists>b. join buf args = Some b \<and> holds b n (s @ spaced args)"
    "n \<le> length s + length (spaced args) \<Longrightarrow> join buf args = None" by blast+
qed

section \<open>The output\<close>

lemma spaced_joined: "args \<noteq> [] \<Longrightarrow> spaced args = joined args @ '' ''"
  by (induction args rule: joined.induct) (simp_all add: spaced_def)

text \<open>Letters, and what keeps a character from being NUL.\<close>

definition letter :: "char \<Rightarrow> bool" where
  "letter c \<longleftrightarrow> is_lower c \<or> is_upper c"

lemma upper_lower_NUL [simp]: "my_toupper c = NUL \<longleftrightarrow> c = NUL" "my_tolower c = NUL \<longleftrightarrow> c = NUL"
proof -
  have "code (char_of (code c - 32) :: char) = code c - 32" if "is_lower c"
    unfolding of_char_of using nat_of_char_less_256 [of c] by (intro mod_less) linarith
  moreover have "code (char_of (code c + 32) :: char) = code c + 32" if "is_upper c"
    unfolding of_char_of using that by (intro mod_less) (simp add: is_upper_def)
  ultimately show "my_toupper c = NUL \<longleftrightarrow> c = NUL" "my_tolower c = NUL \<longleftrightarrow> c = NUL"
    by (auto simp: my_toupper_def my_tolower_def is_lower_def is_upper_def dest: arg_cong [of _ NUL "of_char :: char \<Rightarrow> nat"])
qed

lemma cstr_map_buffer:
  assumes "holds buf n s" and "\<And>c. f c = NUL \<Longrightarrow> c = NUL"
  shows "cstr (map_buffer f buf) = map f s"
proof -
  obtain rest where "buf = s @ NUL # rest" "no_nul s" using assms(1) by (auto simp: holds_def)
  moreover have "no_nul s \<Longrightarrow> map_buffer f (s @ NUL # rest) = map f s @ NUL # rest" by (induction s) auto
  moreover have "no_nul s \<Longrightarrow> no_nul (map f s)" using assms(2) by (induction s) auto
  ultimately show ?thesis by simp
qed

lemma capitalize_NUL: "no_nul s \<Longrightarrow> capitalize nw (s @ NUL # rest) = capitalize nw s @ NUL # rest"
  by (induction s arbitrary: nw) (auto simp: Let_def)

lemma no_nul_capitalize: "no_nul s \<Longrightarrow> no_nul (capitalize nw s)"
  by (induction s arbitrary: nw) (auto simp: Let_def)

lemma cstr_capitalize: "holds buf n s \<Longrightarrow> cstr (to_capitalized buf) = capitalize True s"
  by (auto simp: holds_def to_capitalized_def capitalize_NUL no_nul_capitalize)

text \<open>What each flag prints.\<close>

definition arger_text :: "string \<Rightarrow> string \<Rightarrow> (int \<times> string)" where
  "arger_text flag s =
     (if flag = ''-u'' then (0, map my_toupper s @ [NEWLINE])
      else if flag = ''-l'' then (0, map my_tolower s @ [NEWLINE])
      else if flag = ''-cap'' then (0, capitalize True s @ [NEWLINE])
      else (-1, []))"

text \<open>C33: The output buffer holds exactly the joined arguments with up to 998 characters: then the
  program prints them as the flag says, and with more it writes outside of the buffer, whatever
  the flag.\<close>

theorem arger_output:
  assumes "no_nul flag" and "\<forall>a \<in> set args. no_nul a" and "args \<noteq> []"
  shows "arger_main (prog # flag # args) =
    (if length (joined args) < 999 then Some (arger_text flag (joined args)) else None)"
proof -
  have h0: "holds (replicate 1000 NUL) 1000 []"
    by (simp add: holds_def) (metis Suc_numeral replicate_Suc semiring_norm(5) pred_numeral_simps numeral_eq_Suc)
  have sp: "spaced args = joined args @ '' ''" by (rule spaced_joined [OF assms(3)])
  have nj: "no_nul (joined args)" by (rule no_nul_joined [OF assms(2)])
  have argc: "\<not> length (prog # flag # args) < 3" using assms(3) by (cases args) simp_all
  note js = join_holds [OF h0 assms(2)]
  show ?thesis
  proof (cases "length (joined args) < 999")
    case False
    then have "join (replicate 1000 NUL) args = None" using js(2) sp by simp
    with False argc show ?thesis by (simp add: arger_main_def)
  next
    case True
    then obtain b where b: "join (replicate 1000 NUL) args = Some b" "holds b 1000 (joined args @ '' '')"
      using js(1) sp by auto
    have len: "my_strlen b = Some (Suc (length (joined args)))" using my_strlen_holds [OF b(2)] by simp
    obtain rest where rest: "b = joined args @ CHR '' '' # NUL # rest" "length b = 1000"
      using b(2) by (auto simp: holds_def)
    define d where "d = joined args @ NUL # NUL # rest"
    have d: "put b (length (joined args)) NUL = Some d" using True rest by (simp add: put_def d_def)
    have hd: "holds d 1000 (joined args)" using nj rest by (auto simp: holds_def d_def)
    have flags: "my_strcmp flag ''-u'' = 0 \<longleftrightarrow> flag = ''-u''" "my_strcmp flag ''-l'' = 0 \<longleftrightarrow> flag = ''-l''"
      "my_strcmp flag ''-cap'' = 0 \<longleftrightarrow> flag = ''-cap''"
      by (rule my_strcmp_eq [OF assms(1)], simp)+
    show ?thesis
      using True argc b(1) len d cstr_map_buffer [OF hd, of my_toupper] cstr_map_buffer [OF hd, of my_tolower] cstr_capitalize [OF hd]
      by (simp add: arger_main_def flags arger_text_def)
  qed
qed

theorem arger_output_witness: "arger_main [''arger'', ''-u'', ''aB'', ''c''] = Some (0, ''AB C'' @ [NEWLINE])"
proof -
  have "map my_toupper ''aB c'' = ''AB C''" by code_simp
  then show ?thesis using arger_output [of "''-u''" "[''aB'', ''c'']" "''arger''"] by (simp add: arger_text_def)
qed

section \<open>Capitalized words\<close>

text \<open>The first letter of a word in upper case, the rest in lower case.\<close>

definition cap_word :: "string \<Rightarrow> string" where
  "cap_word w =
     (let p = takeWhile (\<lambda>c. \<not> letter c) w
      in p @ (case dropWhile (\<lambda>c. \<not> letter c) w of [] \<Rightarrow> [] | c # cs \<Rightarrow> my_toupper c # map my_tolower cs))"

definition is_plain_word :: "string \<Rightarrow> bool" where
  "is_plain_word w \<longleftrightarrow> no_nul w \<and> CHR '' '' \<notin> set w"

lemma lower_other: "\<not> letter c \<Longrightarrow> my_tolower c = c"
  by (simp add: letter_def my_tolower_def)

lemma upper_lower_blank: "my_toupper c = CHR '' '' \<longleftrightarrow> c = CHR '' ''" "my_tolower c = CHR '' '' \<longleftrightarrow> c = CHR '' ''"
proof -
  have "code (char_of (code c - 32) :: char) = code c - 32" if "is_lower c"
    unfolding of_char_of using nat_of_char_less_256 [of c] by (intro mod_less) linarith
  moreover have "code (char_of (code c + 32) :: char) = code c + 32" if "is_upper c"
    unfolding of_char_of using that by (intro mod_less) (simp add: is_upper_def)
  ultimately show "my_toupper c = CHR '' '' \<longleftrightarrow> c = CHR '' ''" "my_tolower c = CHR '' '' \<longleftrightarrow> c = CHR '' ''"
    by (auto simp: my_toupper_def my_tolower_def is_lower_def is_upper_def
        dest: arg_cong [of _ "CHR '' ''" "of_char :: char \<Rightarrow> nat"])
qed

lemma capitalize_in_word: "is_plain_word w \<Longrightarrow> capitalize False (w @ r) = map my_tolower w @ capitalize False r"
  by (induction w) (auto simp: is_plain_word_def upper_lower_blank)

lemma capitalize_word:
  "is_plain_word w \<Longrightarrow> \<exists>nw. capitalize True (w @ r) = cap_word w @ capitalize nw r"
proof (induction w)
  case Nil
  show ?case by (auto simp: cap_word_def)
next
  case (Cons c w)
  have w: "is_plain_word w" "c \<noteq> NUL" "c \<noteq> CHR '' ''" using Cons.prems by (auto simp: is_plain_word_def)
  show ?case
  proof (cases "letter c")
    case True
    then have "capitalize True ((c # w) @ r) = my_toupper c # map my_tolower w @ capitalize False r"
      using w by (simp add: letter_def upper_lower_blank capitalize_in_word)
    with True show ?thesis by (auto simp: cap_word_def)
  next
    case False
    then have "capitalize True ((c # w) @ r) = c # capitalize True (w @ r)"
      using w(2,3) lower_other [OF False] by (simp add: letter_def)
    moreover have "cap_word (c # w) = c # cap_word w" using False by (simp add: cap_word_def Let_def)
    ultimately show ?thesis using Cons.IH [OF w(1)] by auto
  qed
qed

lemma blank_plain: "\<not> is_lower (CHR '' '')" "\<not> is_upper (CHR '' '')" "my_tolower (CHR '' '') = CHR '' ''"
  by (simp_all add: is_lower_def is_upper_def my_tolower_def)

lemma capitalize_blank: "capitalize nw (CHR '' '' # r) = CHR '' '' # capitalize True r"
  by (simp add: my_tolower_def is_upper_def is_lower_def)

lemma capitalize_joined: "\<forall>w \<in> set ws. is_plain_word w \<Longrightarrow> capitalize True (joined ws) = joined (map cap_word ws)"
proof (induction ws rule: joined.induct)
  case (2 w)
  then show ?case using capitalize_word [of w "[]"] by auto
next
  case (3 w v ws)
  obtain nw where "capitalize True (w @ CHR '' '' # joined (v # ws)) = cap_word w @ capitalize nw (CHR '' '' # joined (v # ws))"
    using capitalize_word [of w "CHR '' '' # joined (v # ws)"] "3.prems" by auto
  then show ?case using 3 by (simp add: blank_plain)
qed simp

lemma split_words: "no_nul s \<Longrightarrow> \<exists>ws. s = joined ws \<and> (\<forall>w \<in> set ws. is_plain_word w) \<and> ws \<noteq> []"
proof (induction s)
  case Nil
  show ?case by (rule exI [of _ "[[]]"]) (simp add: is_plain_word_def)
next
  case (Cons c s)
  then obtain w ws where ws: "s = joined (w # ws)" "\<forall>w \<in> set (w # ws). is_plain_word w" by (metis list.exhaust no_nul_simps(2))
  show ?case
  proof (cases "c = CHR '' ''")
    case True
    with ws show ?thesis by (intro exI [of _ "[] # w # ws"]) (auto simp: is_plain_word_def)
  next
    case False
    have "c \<noteq> NUL" using Cons.prems by simp
    moreover have "c # joined (w # ws) = joined ((c # w) # ws)" by (cases ws) simp_all
    ultimately show ?thesis using False ws by (intro exI [of _ "(c # w) # ws"]) (auto simp: is_plain_word_def)
  qed
qed

text \<open>The one-pass loop of \<open>to_capitalized\<close> with its flag does what it means: the
  text is cut at the blanks, and in each word the first letter becomes upper case and all that
  follow it lower case.\<close>

theorem capitalized_words:
  assumes "no_nul s"
  shows "\<exists>ws. s = joined ws \<and> (\<forall>w \<in> set ws. CHR '' '' \<notin> set w) \<and> cstr (to_capitalized (s @ NUL # rest)) = joined (map cap_word ws)"
proof -
  obtain ws where ws: "s = joined ws" "\<forall>w \<in> set ws. is_plain_word w" using split_words [OF assms] by blast
  have "cstr (to_capitalized (s @ NUL # rest)) = capitalize True s"
    using assms by (intro cstr_capitalize [of _ "Suc (length s + length rest)"]) (simp add: holds_def)
  with ws show ?thesis using capitalize_joined [of ws] by (auto simp: is_plain_word_def)
qed

theorem capitalized_words_witness:
  "\<exists>ws. ''heLLo wORLD'' = joined ws \<and> cstr (to_capitalized (''heLLo wORLD'' @ [NUL])) = joined (map cap_word ws)"
  using capitalized_words [of "''heLLo wORLD''" "[]"] by auto

end
