(* ===== verification/Loadmem.thy ===== *)
theory Loadmem
  imports C_Scan C_Arrays
begin

text \<open>
  \<open>week4/loadmem.c\<close>: the numbers on each line of a file are counted, read into a block on the heap and
  printed. The heap has a store for the block structs and one for the arrays.
\<close>

section \<open>Blocks\<close>

record dyn_block =
  data :: ptr
  bsize :: nat

record heap =
  blocks :: "dyn_block store"
  arrays :: "int list store"

definition alloc_dyn_block :: "heap \<Rightarrow> nat \<Rightarrow> (ptr \<times> heap) c" where
  "alloc_dyn_block h n =
     (let (block, bs) = malloc (blocks h)
      in if block = Null then Some (Null, h\<lparr>blocks := bs\<rparr>)
         else
           let (d, as) = malloc_ints (arrays h) (int n)
           in do {
                bs \<leftarrow> assign bs block (\<lambda>b. b\<lparr>data := d\<rparr>);
                (if d = Null
                 then do {
                   bs \<leftarrow> free bs block;
                   Some (Null, h\<lparr>blocks := bs, arrays := as\<rparr>)
                 }
                 else do {
                   bs \<leftarrow> assign bs block (\<lambda>b. b\<lparr>bsize := n\<rparr>);
                   Some (block, h\<lparr>blocks := bs, arrays := as\<rparr>)
                 })
              })"

text \<open>\<open>store_mem_blk\<close> is not used by the program.\<close>

fun store_from :: "heap \<Rightarrow> ptr \<Rightarrow> int list \<Rightarrow> nat list \<Rightarrow> heap c" where
  "store_from h block xs [] = Some h"
| "store_from h block xs (i # is) = do {
     b \<leftarrow> load (blocks h) block;
     v \<leftarrow> (if i < length xs then Some (xs ! i) else None);
     as \<leftarrow> store_elem (arrays h) (data b) (int i) v;
     store_from (h\<lparr>arrays := as\<rparr>) block xs is
   }"

definition store_mem_blk :: "heap \<Rightarrow> ptr \<Rightarrow> int list \<Rightarrow> nat \<Rightarrow> heap c" where
  "store_mem_blk h block xs n = store_from h block xs [0..<n]"

fun print_from :: "heap \<Rightarrow> ptr \<Rightarrow> nat list \<Rightarrow> string c" where
  "print_from h block [] = Some []"
| "print_from h block (i # is) = do {
     b \<leftarrow> load (blocks h) block;
     v \<leftarrow> load_elem (arrays h) (data b) (int i);
     out \<leftarrow> print_from h block is;
     Some (dec_int v @ '' '' @ out)
   }"

definition print_dyn_block :: "heap \<Rightarrow> ptr \<Rightarrow> string c" where
  "print_dyn_block h block = do {
     b \<leftarrow> load (blocks h) block;
     out \<leftarrow> print_from h block [0..<bsize b];
     Some (out @ [NEWLINE])
   }"

definition free_dyn_block :: "heap \<Rightarrow> ptr \<Rightarrow> heap c" where
  "free_dyn_block h block = do {
     b \<leftarrow> load (blocks h) block;
     as \<leftarrow> free (arrays h) (data b);
     bs \<leftarrow> free (blocks h) block;
     Some (h\<lparr>blocks := bs, arrays := as\<rparr>)
   }"

section \<open>Lines\<close>

text \<open>The pointer moves to the next blank and over the blanks that follow.\<close>

definition skip_number :: "string \<Rightarrow> string" where
  "skip_number s = dropWhile (\<lambda>c. c = CHR '' '') (dropWhile (\<lambda>c. c \<noteq> CHR '' '') s)"

lemma skip_number_shorter: "s \<noteq> [] \<Longrightarrow> length (skip_number s) < length s"
proof (cases s)
  case (Cons c cs)
  have "length (skip_number s) \<le> length cs"
    using length_dropWhile_le [of "\<lambda>c. c = CHR '' ''" "dropWhile (\<lambda>c. c \<noteq> CHR '' '') cs"]
      length_dropWhile_le [of "\<lambda>c. c \<noteq> CHR '' ''" cs] length_dropWhile_le [of "\<lambda>c. c = CHR '' ''" cs]
    by (simp add: skip_number_def Cons)
  with Cons show ?thesis by simp
qed simp

lemma scan_int_Nil [simp]: "scan_int [] = None"
  by (simp add: scan_int_def)

text \<open>A number outside of the range of \<open>int\<close> is undefined.\<close>

function count_numbers :: "string \<Rightarrow> nat c" where
  "count_numbers s =
     (case scan_int s of
        None \<Rightarrow> Some 0
      | Some v \<Rightarrow> do { v \<leftarrow> c_int v; n \<leftarrow> count_numbers (skip_number s); Some (Suc n) })"
  by pat_completeness auto
termination
proof (relation "measure length")
  fix s :: string and v w :: int
  assume "scan_int s = Some v"
  then have "s \<noteq> []" by auto
  then show "(skip_number s, s) \<in> measure length" by (simp add: skip_number_shorter)
qed simp

declare count_numbers.simps [simp del]

fun read_numbers :: "int list store \<Rightarrow> ptr \<Rightarrow> nat list \<Rightarrow> string \<Rightarrow> int list store c" where
  "read_numbers as d [] s = Some as"
| "read_numbers as d (i # is) s = do {
     as \<leftarrow> (case scan_int s of
              None \<Rightarrow> Some as
            | Some v \<Rightarrow> do { v \<leftarrow> c_int v; store_elem as d (int i) v });
     read_numbers as d is (skip_number s)
   }"

text \<open>One pass of the loop over a line: \<open>Exit 1\<close> when the allocation fails, else what is printed.\<close>

definition load_line :: "heap \<Rightarrow> string \<Rightarrow> (string \<times> heap) outcome c" where
  "load_line h line = do {
     count \<leftarrow> count_numbers line;
     (block, h) \<leftarrow> alloc_dyn_block h count;
     (if block = Null then Some (Exit 1)
      else do {
        b \<leftarrow> load (blocks h) block;
        as \<leftarrow> read_numbers (arrays h) (data b) [0..<count] line;
        out \<leftarrow> print_dyn_block (h\<lparr>arrays := as\<rparr>) block;
        h \<leftarrow> free_dyn_block (h\<lparr>arrays := as\<rparr>) block;
        Some (Cont (out, h))
      })
   }"

text \<open>The exit code, what is printed and the heap.\<close>

function load_lines :: "heap \<Rightarrow> string \<Rightarrow> (int \<times> string \<times> heap) c" where
  "load_lines h cs =
     (case fgets 1024 cs of
        None \<Rightarrow> Some (0, [], h)
      | Some (line, rest) \<Rightarrow>
          (case load_line h (cstr line) of
             None \<Rightarrow> None
           | Some (Exit n) \<Rightarrow> Some (n, [], h)
           | Some (Cont (out, h)) \<Rightarrow> do { (n, out', h) \<leftarrow> load_lines h rest; Some (n, out @ out', h) }))"
  by pat_completeness auto
termination
  by (relation "measure (\<lambda>(h, cs). length cs)") (auto dest: fgets_Some(4))

declare load_lines.simps [simp del]

definition loadmem_main :: "heap \<Rightarrow> (string \<Rightarrow> string option) \<Rightarrow> (int \<times> string \<times> heap) c" where
  "loadmem_main h fs =
     (case fs ''blocks.data'' of
        None \<Rightarrow> Some (1, [], h)
      | Some cs \<Rightarrow> load_lines h cs)"

section \<open>Lines of numbers\<close>

definition num_text :: "int list \<Rightarrow> string" where
  "num_text xs = joined (map dec_int xs)"

lemma dec_no_blank: "c \<in> set (dec_int x) \<Longrightarrow> c \<noteq> CHR '' '' \<and> c \<noteq> NEWLINE \<and> c \<noteq> NUL"
  using dec_int_chars [of c x] by (auto simp: is_digit_def)

lemma drop_number:
  "dropWhile (\<lambda>c. c \<noteq> CHR '' '') (dec_int x @ rest) = dropWhile (\<lambda>c. c \<noteq> CHR '' '') rest"
  using dec_no_blank by (intro dropWhile_append2) blast

lemma dec_head: "\<exists>c cs. dec_int x = c # cs \<and> c \<noteq> CHR '' ''"
  using dec_no_blank [of "hd (dec_int x)" x] by (cases "dec_int x") auto

lemma num_text_Cons: "num_text (x # y # ys) = dec_int x @ CHR '' '' # num_text (y # ys)"
  by (simp add: num_text_def)

lemma num_text_head: "ys \<noteq> [] \<Longrightarrow> \<exists>c cs. num_text ys @ e = c # cs \<and> c \<noteq> CHR '' ''"
proof (cases ys)
  case (Cons y zs)
  obtain c cs where "dec_int y = c # cs" "c \<noteq> CHR '' ''" using dec_head by blast
  with Cons show ?thesis by (cases zs) (simp_all add: num_text_def)
qed simp

definition line_end :: "string \<Rightarrow> bool" where
  "line_end e \<longleftrightarrow> e = [] \<or> e = [NEWLINE]"

lemma scan_text: "line_end e \<Longrightarrow> scan_int (num_text (x # xs) @ e) = Some x"
  using scan_int_dec [of e x] scan_int_dec [of "CHR '' '' # num_text xs @ e" x]
  by (cases xs) (auto simp: line_end_def num_text_def)

lemma skip_text: "line_end e \<Longrightarrow> skip_number (num_text (x # xs) @ e) = (if xs = [] then [] else num_text xs @ e)"
proof (cases xs)
  case Nil
  assume "line_end e"
  then show ?thesis using Nil drop_number [of x e] by (auto simp: skip_number_def num_text_def line_end_def)
next
  case (Cons y ys)
  obtain c cs where c: "num_text xs @ e = c # cs" "c \<noteq> CHR '' ''" using num_text_head [of xs e] Cons by auto
  have "num_text (x # xs) @ e = dec_int x @ CHR '' '' # num_text xs @ e" using Cons by (simp add: num_text_Cons)
  then have "skip_number (num_text (x # xs) @ e) = dropWhile (\<lambda>c. c = CHR '' '') (CHR '' '' # num_text xs @ e)"
    by (simp add: skip_number_def drop_number)
  also have "\<dots> = num_text xs @ e" by (simp add: c)
  finally show ?thesis using Cons by simp
qed

lemma count_end: "line_end e \<Longrightarrow> count_numbers [] = Some 0"
  by (subst count_numbers.simps) simp

lemma count_text:
  assumes "line_end e"
  shows "xs \<noteq> [] \<Longrightarrow> \<forall>x \<in> set xs. in_int x \<Longrightarrow> count_numbers (num_text xs @ e) = Some (length xs)"
proof (induction xs)
  case (Cons x xs)
  then show ?case using scan_text [OF assms, of x xs] skip_text [OF assms, of x xs] count_end [OF assms]
    by (subst count_numbers.simps) (cases "xs = []", simp_all)
qed simp

lemma read_text:
  assumes "line_end e"
  shows "cells as a = Some (pre @ buf) \<Longrightarrow> length buf = length xs \<Longrightarrow> \<forall>x \<in> set xs. in_int x \<Longrightarrow>
    read_numbers as (Addr a) [length pre..<length pre + length xs] (if xs = [] then [] else num_text xs @ e)
      = Some (as\<lparr>cells := (cells as)(a \<mapsto> pre @ xs)\<rparr>)"
proof (induction xs arbitrary: as pre buf)
  case Nil
  then show ?case by (simp add: fun_upd_idem)
next
  case (Cons x xs)
  obtain b buf' where buf: "buf = b # buf'" "length buf' = length xs" using Cons.prems(2) by (cases buf) auto
  let ?as = "as\<lparr>cells := (cells as)(a \<mapsto> (pre @ [x]) @ buf')\<rparr>"
  have "store_elem as (Addr a) (int (length pre)) x = Some ?as"
    using Cons.prems(1) buf(1) by (simp add: store_elem_def)
  then have "read_numbers as (Addr a) (length pre # is) (num_text (x # xs) @ e)
      = read_numbers ?as (Addr a) is (if xs = [] then [] else num_text xs @ e)" for "is"
    using Cons.prems(3) scan_text [OF assms, of x xs] skip_text [OF assms, of x xs] by simp
  moreover have "[length pre..<length pre + length (x # xs)] = length pre # [length (pre @ [x])..<length (pre @ [x]) + length xs]"
    by (subst upt_conv_Cons) simp_all
  moreover have "read_numbers ?as (Addr a) [length (pre @ [x])..<length (pre @ [x]) + length xs] (if xs = [] then [] else num_text xs @ e)
      = Some (?as\<lparr>cells := (cells ?as)(a \<mapsto> (pre @ [x]) @ xs)\<rparr>)"
    using Cons.prems(3) buf(2) by (intro Cons.IH [of ?as "pre @ [x]" buf']) simp_all
  moreover have "?as\<lparr>cells := (cells ?as)(a \<mapsto> (pre @ [x]) @ xs)\<rparr> = as\<lparr>cells := (cells as)(a \<mapsto> pre @ x # xs)\<rparr>" by simp
  ultimately show ?case by (simp only: list.distinct if_False)
qed

definition printed :: "int list \<Rightarrow> string" where
  "printed xs = concat (map (\<lambda>x. dec_int x @ '' '') xs) @ [NEWLINE]"

lemma print_block:
  assumes "cells (blocks h) b = Some r" and "data r = Addr a" and "bsize r = length xs" and "cells (arrays h) a = Some xs"
  shows "print_dyn_block h (Addr b) = Some (printed xs)"
proof -
  have "i \<le> length xs \<Longrightarrow> print_from h (Addr b) [i..<length xs] = Some (concat (map (\<lambda>x. dec_int x @ '' '') (drop i xs)))" for i
  proof (induction "length xs - i" arbitrary: i)
    case (Suc n)
    then have i: "i < length xs" by simp
    have "n = length xs - Suc i" "Suc i \<le> length xs" using Suc.hyps(2) i by simp_all
    note IH = Suc.hyps(1) [OF this]
    have "[i..<length xs] = i # [Suc i..<length xs]" using i by (simp add: upt_conv_Cons)
    moreover have "drop i xs = xs ! i # drop (Suc i) xs" using i by (simp add: Cons_nth_drop_Suc)
    ultimately show ?case using IH i assms by (simp add: load_elem_def)
  qed simp
  from this [of 0] show ?thesis using assms by (simp add: print_dyn_block_def printed_def)
qed

text \<open>The heap between two lines: nothing is allocated, and memory does not run out.\<close>

definition clean :: "heap \<Rightarrow> bool" where
  "clean h \<longleftrightarrow> live (blocks h) = {} \<and> live (arrays h) = {}
     \<and> (\<forall>n. alloc (blocks h) n \<noteq> None) \<and> (\<forall>n. alloc (arrays h) n \<noteq> None)"

lemma load_line_text:
  assumes "clean h" and "xs \<noteq> []" and "\<forall>x \<in> set xs. in_int x" and "line_end e"
  shows "\<exists>h'. load_line h (num_text xs @ e) = Some (Cont (printed xs, h')) \<and> clean h'"
proof -
  let ?b = "next_addr (blocks h)" and ?a = "next_addr (arrays h)" and ?n = "length xs"
  obtain j1 j2 where j: "alloc (blocks h) ?b = Some j1" "alloc (arrays h) ?a = Some j2"
    using assms(1) unfolding clean_def by (metis option.exhaust)
  let ?buf = "take ?n (j2 @ replicate ?n 0)"
  let ?r = "j1\<lparr>data := Addr ?a, bsize := ?n\<rparr>"
  let ?bs = "(blocks h)\<lparr>cells := (cells (blocks h))(?b \<mapsto> ?r), next_addr := Suc ?b\<rparr>"
  let ?as = "(arrays h)\<lparr>cells := (cells (arrays h))(?a \<mapsto> ?buf), next_addr := Suc ?a\<rparr>"
  let ?as' = "?as\<lparr>cells := (cells ?as)(?a \<mapsto> xs)\<rparr>"
  have al: "alloc_dyn_block h ?n = Some (Addr ?b, h\<lparr>blocks := ?bs, arrays := ?as\<rparr>)"
    using j by (simp add: alloc_dyn_block_def malloc_ints_def malloc_ok)
  have rd: "read_numbers ?as (Addr ?a) [0..<?n] (num_text xs @ e) = Some ?as'"
    using read_text [OF assms(4), of ?as ?a "[]" ?buf xs] assms(2,3) by simp
  let ?h = "h\<lparr>blocks := ?bs, arrays := ?as'\<rparr>"
  have pr: "print_dyn_block ?h (Addr ?b) = Some (printed xs)"
    by (rule print_block [of _ _ ?r ?a]) simp_all
  let ?h' = "h\<lparr>blocks := ?bs\<lparr>cells := (cells ?bs)(?b := None)\<rparr>, arrays := ?as'\<lparr>cells := (cells ?as')(?a := None)\<rparr>\<rparr>"
  have fr: "free_dyn_block ?h (Addr ?b) = Some ?h'" by (simp add: free_dyn_block_def)
  have "load_line h (num_text xs @ e) = Some (Cont (printed xs, ?h'))"
    using al rd pr fr count_text [OF assms(4,2,3)] by (simp add: load_line_def)
  moreover have "clean ?h'" using assms(1) by (auto simp: clean_def live_def)
  ultimately show ?thesis by blast
qed

text \<open>The last line may lack its newline.\<close>

lemma line_of_all: "NEWLINE \<notin> set w \<Longrightarrow> length w \<le> n \<Longrightarrow> line_of n w = (w, [])"
proof (induction w arbitrary: n)
  case Nil
  then show ?case by (cases n) simp_all
next
  case (Cons c w)
  then show ?case by (cases n) auto
qed

lemma num_text_chars: "c \<in> set (num_text xs) \<Longrightarrow> c \<noteq> NEWLINE \<and> c \<noteq> NUL"
proof (induction xs)
  case (Cons x xs)
  then show ?case using dec_no_blank [of c x] by (cases xs) (auto simp: num_text_def)
qed (simp add: num_text_def)

definition file_text :: "int list list \<Rightarrow> string" where
  "file_text ls = concat (map (\<lambda>xs. num_text xs @ [NEWLINE]) ls)"

definition loadable :: "int list \<Rightarrow> bool" where
  "loadable xs \<longleftrightarrow> xs \<noteq> [] \<and> (\<forall>x \<in> set xs. in_int x) \<and> length (num_text xs) < 1023"

lemma load_lines_text:
  assumes "clean h" and "\<forall>xs \<in> set ls. loadable xs" and "fin = [] \<or> loadable fin"
  shows "\<exists>h'. load_lines h (file_text ls @ (if fin = [] then [] else num_text fin))
      = Some (0, concat (map printed (ls @ (if fin = [] then [] else [fin]))), h') \<and> clean h'"
  using assms(1,2)
proof (induction ls arbitrary: h)
  case Nil
  show ?case
  proof (cases "fin = []")
    case True
    then show ?thesis using Nil by (subst load_lines.simps) (simp add: file_text_def)
  next
    case False
    then have l: "fin \<noteq> []" "\<forall>x \<in> set fin. in_int x" "length (num_text fin) < 1023" using assms(3) by (auto simp: loadable_def)
    have ne: "num_text fin \<noteq> []" using num_text_head [OF l(1), of "[]"] by auto
    have fg: "fgets 1024 (num_text fin) = Some (num_text fin, [])"
      using ne l(3) num_text_chars line_of_all [of "num_text fin" 1023] by (auto simp: fgets_def)
    have "no_nul (num_text fin)" using num_text_chars by (auto simp: no_nul_def)
    then obtain h' where h': "load_line h (cstr (num_text fin)) = Some (Cont (printed fin, h'))" "clean h'"
      using load_line_text [OF Nil(1) l(1,2), of "[]"] by (auto simp: line_end_def)
    moreover have "load_lines h' [] = Some (0, [], h')" by (subst load_lines.simps) simp
    ultimately show ?thesis using False fg by (subst load_lines.simps) (simp add: file_text_def)
  qed
next
  case (Cons xs ls)
  let ?rest = "file_text ls @ (if fin = [] then [] else num_text fin)"
  have l: "xs \<noteq> []" "\<forall>x \<in> set xs. in_int x" "length (num_text xs) < 1023" using Cons.prems(2) by (auto simp: loadable_def)
  have tx: "file_text (xs # ls) @ (if fin = [] then [] else num_text fin) = num_text xs @ NEWLINE # ?rest"
    by (simp add: file_text_def)
  have fg: "fgets 1024 (num_text xs @ NEWLINE # ?rest) = Some (num_text xs @ [NEWLINE], ?rest)"
    using num_text_chars l(3) by (intro fgets_line) auto
  have "no_nul (num_text xs @ [NEWLINE])" using num_text_chars by (auto simp: no_nul_def)
  then obtain h1 where h1: "load_line h (cstr (num_text xs @ [NEWLINE])) = Some (Cont (printed xs, h1))" "clean h1"
    using load_line_text [OF Cons.prems(1) l(1,2), of "[NEWLINE]"] by (auto simp: line_end_def)
  obtain h2 where "load_lines h1 ?rest = Some (0, concat (map printed (ls @ (if fin = [] then [] else [fin]))), h2)" "clean h2"
    using Cons.IH [OF h1(2)] Cons.prems(2) by auto
  then show ?case unfolding tx using fg h1(1) by (subst load_lines.simps) simp
qed

text \<open>C34: A file of lines of numbers, separated by single blanks and short enough for the line
  buffer, is printed number by number, whether or not the last line is ended; every block is
  freed and no number is lost.\<close>

theorem loadmem_prints_blocks:
  assumes "clean h" and "\<forall>xs \<in> set ls. loadable xs" and "fin = [] \<or> loadable fin"
    and "fs ''blocks.data'' = Some (file_text ls @ (if fin = [] then [] else num_text fin))"
  shows "\<exists>h'. loadmem_main h fs = Some (0, concat (map printed (ls @ (if fin = [] then [] else [fin]))), h')
    \<and> live (blocks h') = {} \<and> live (arrays h') = {}"
  using load_lines_text [OF assms(1-3)] assms(4) by (auto simp: loadmem_main_def clean_def)

theorem loadmem_prints_blocks_witness:
  "let h = \<lparr>blocks = empty_store (\<lambda>_. Some \<lparr>data = Null, bsize = 0\<rparr>), arrays = empty_store (\<lambda>_. Some [])\<rparr>
   in \<exists>h'. loadmem_main h [''blocks.data'' \<mapsto> file_text [[51, -14]] @ num_text [7]] = Some (0, printed [51, -14] @ printed [7], h')
        \<and> live (blocks h') = {}"
proof -
  let ?h = "\<lparr>blocks = empty_store (\<lambda>_. Some \<lparr>data = Null, bsize = 0\<rparr>), arrays = empty_store (\<lambda>_. Some [])\<rparr>"
  have "clean ?h" by (simp add: clean_def live_def empty_store_def)
  moreover have "loadable [51, -14]" "loadable [7]"
    using length_dec_int [of 51] length_dec_int [of "-14"] length_dec_int [of 7]
    by (simp_all add: loadable_def num_text_def in_int_def)
  ultimately show ?thesis
    using loadmem_prints_blocks [of ?h "[[51, -14]]" "[7]" "[''blocks.data'' \<mapsto> file_text [[51, -14]] @ num_text [7]]"]
    by (auto simp: Let_def)
qed

text \<open>A line that begins with a blank: \<open>sscanf\<close> skips it, the pointer stops at it, and the first number is
  counted twice.\<close>

lemma leading_blank_counts_twice:
  assumes "scan_int s = Some v" and "in_int v" and "s = c # cs" and "c \<noteq> CHR '' ''"
  shows "count_numbers (CHR '' '' # s) = map_option Suc (count_numbers s)"
proof -
  have "isspace (CHR '' '')" by (simp add: isspace_def)
  then have "scan_int (CHR '' '' # s) = scan_int s" by (simp add: scan_int_def)
  moreover have "skip_number (CHR '' '' # s) = s" using assms(3,4) by (simp add: skip_number_def)
  ultimately have "count_numbers (CHR '' '' # s) = count_numbers s \<bind> (\<lambda>n. Some (Suc n))"
    using assms(1,2) by (subst count_numbers.simps) simp
  then show ?thesis by (cases "count_numbers s") simp_all
qed

end
