(* ===== verification/Allocmem.thy ===== *)
theory Allocmem
  imports C_Strings
begin

text \<open>
  \<open>week4/allocmem.c\<close>: a static array, an array on the heap and one on the stack are filled, and the values on
  the stack are added up. \<open>char\<close> is a signed type of 8 bits, as on the platforms the program is for.
\<close>

section \<open>The program\<close>

definition MB :: nat where "MB = 1024 * 1024"

definition to_char :: "nat \<Rightarrow> int" where
  "to_char n = (let b = int n mod 256 in if b < 128 then b else b - 256)"

fun fill :: "int list \<Rightarrow> nat list \<Rightarrow> int list c" where
  "fill a [] = Some a"
| "fill a (i # is) = (if i < length a then fill (a[i := to_char (i mod 256)]) is else None)"

fun add_up :: "int list \<Rightarrow> nat list \<Rightarrow> int \<Rightarrow> int c" where
  "add_up a [] acc = Some acc"
| "add_up a (i # is) acc = do {
     v \<leftarrow> (if i < length a then Some (a ! i) else None);
     acc \<leftarrow> c_int (acc + v);
     add_up a is acc
   }"

text \<open>\<open>heap\<close> is the block that \<open>malloc\<close> returns, if it does, and \<open>stack\<close> what the local array contains at first.\<close>

definition allocmem_main :: "int list option \<Rightarrow> int list \<Rightarrow> (int \<times> string list) c" where
  "allocmem_main heap stack =
     (case heap of
        None \<Rightarrow> Some (1, [])
      | Some heap_memory \<Rightarrow> do {
          static_memory \<leftarrow> fill (replicate (5 * MB) 0) [0..<5 * MB];
          heap_memory \<leftarrow> fill heap_memory [0..<10 * MB];
          stack_memory \<leftarrow> fill stack [0..<MB];
          stack_sum \<leftarrow> add_up stack_memory [0..<MB] 0;
          Some (0, [''10 MB allocated from the heap'', ''1 MB allocated from the stack'',
            ''Sum of stack_memory values: '' @ dec_int stack_sum,
            ''Memory allocated and initialized: 10 MB (heap), 5 MB (static), 1 MB (stack)'',
            ''10 MB heap memory freed'', ''Program exiting...''])
        })"

section \<open>What it computes\<close>

lemma to_char_mod: "to_char (i mod 256) = to_char i"
  by (simp add: to_char_def zmod_int)

lemma fill_upt:
  assumes "n \<le> length a"
  shows "k \<le> n \<Longrightarrow> fill (map to_char [0..<k] @ drop k a) [k..<n] = Some (map to_char [0..<n] @ drop n a)"
proof (induction "n - k" arbitrary: k)
  case (Suc m)
  have k: "k < n" "m = n - Suc k" using Suc by auto
  have "drop k a = a ! k # drop (Suc k) a" using k(1) assms by (simp add: Cons_nth_drop_Suc)
  then have "(map to_char [0..<k] @ drop k a)[k := to_char k] = map to_char [0..<Suc k] @ drop (Suc k) a"
    by (simp add: list_update_append)
  moreover have "k < length (map to_char [0..<k] @ drop k a)" using k(1) assms by simp
  moreover have "[k..<n] = k # [Suc k..<n]" using k(1) by (simp add: upt_conv_Cons)
  moreover have "fill (map to_char [0..<Suc k] @ drop (Suc k) a) [Suc k..<n] = Some (map to_char [0..<n] @ drop n a)"
    using Suc.hyps(1) [OF k(2)] k(1) by simp
  ultimately show ?case by (simp only: fill.simps to_char_mod if_True)
qed simp

lemma fill_all: "n \<le> length a \<Longrightarrow> fill a [0..<n] = Some (map to_char [0..<n] @ drop n a)"
  using fill_upt [of n a 0] by simp

lemma to_char_range: "- 128 \<le> to_char n" "to_char n \<le> 127"
  unfolding to_char_def Let_def by (auto simp: pos_mod_bound)

text \<open>The partial sums are far from the bounds of \<open>int\<close>.\<close>

lemma add_up_upt:
  assumes "length a = n" and "\<forall>i < n. - 128 \<le> a ! i \<and> a ! i \<le> 127" and "n \<le> MB"
  shows "k \<le> n \<Longrightarrow> \<bar>acc\<bar> \<le> 128 * int k \<Longrightarrow> add_up a [k..<n] acc = Some (acc + sum_list (drop k a))"
proof (induction "n - k" arbitrary: k acc)
  case 0
  then show ?case using assms(1) by simp
next
  case (Suc m)
  have k: "k < n" "m = n - Suc k" using Suc by auto
  have v: "- 128 \<le> a ! k" "a ! k \<le> 127" using assms(2) k(1) by auto
  have acc: "\<bar>acc + a ! k\<bar> \<le> 128 * int (Suc k)" using Suc.prems(2) v by simp
  have "int (Suc k) \<le> 1048576" using k(1) assms(3) by (simp add: MB_def)
  then have "128 * int (Suc k) \<le> 128 * 1048576" by (rule mult_left_mono) simp
  then have "128 * int (Suc k) \<le> 134217728" by (simp only: mult_numeral_1 numeral_times_numeral semiring_norm)
  with acc have "\<bar>acc + a ! k\<bar> \<le> 134217728" by (rule order_trans)
  then have "in_int (acc + a ! k)" unfolding in_int_def by linarith
  then have "c_int (acc + a ! k) = Some (acc + a ! k)" by simp
  moreover have "[k..<n] = k # [Suc k..<n]" using k(1) by (simp add: upt_conv_Cons)
  moreover have "add_up a [Suc k..<n] (acc + a ! k) = Some (acc + a ! k + sum_list (drop (Suc k) a))"
    using Suc.hyps(1) [OF k(2) _ acc] k(1) by simp
  moreover have "sum_list (drop k a) = a ! k + sum_list (drop (Suc k) a)"
    using k(1) assms(1) Cons_nth_drop_Suc [of k a] by (metis sum_list.Cons)
  ultimately show ?case using k(1) assms(1) by simp
qed

lemma one_period: "sum_list (map to_char [0..<256]) = - 128"
  by code_simp

lemma periods: "sum_list (map to_char [0..<256 * q]) = - 128 * int q"
proof (induction q)
  case (Suc q)
  have "[0..<256 * q + 256] = [0..<256 * q] @ [256 * q..<256 * q + 256]" by (rule upt_add_eq_append) simp
  then have "[0..<256 * Suc q] = [0..<256 * q] @ map (\<lambda>i. i + 256 * q) [0..<256]"
    by (simp only: map_add_upt mult_Suc_right add.commute)
  moreover have "to_char (i + 256 * q) = to_char i" for i using to_char_mod [of "i + 256 * q"] to_char_mod [of i] by simp
  ultimately show ?case using Suc one_period by (simp add: comp_def)
qed simp

text \<open>Nothing overflows, and the sum is that of 4096 times the 256 values of a signed \<open>char\<close>.\<close>

theorem allocmem_output:
  assumes "length stack = MB" and "heap = Some block" and "length block = 10 * MB"
  shows "allocmem_main heap stack = Some (0,
    [''10 MB allocated from the heap'', ''1 MB allocated from the stack'',
     ''Sum of stack_memory values: -524288'',
     ''Memory allocated and initialized: 10 MB (heap), 5 MB (static), 1 MB (stack)'',
     ''10 MB heap memory freed'', ''Program exiting...''])"
proof -
  let ?s = "map to_char [0..<MB]"
  have "fill stack [0..<MB] = Some ?s" using fill_all [of MB stack] assms(1) by simp
  moreover have "add_up ?s [0..<MB] 0 = Some (sum_list ?s)"
    using add_up_upt [of ?s MB 0 0] to_char_range by simp
  moreover have "sum_list ?s = - 524288" using periods [of 4096] by (simp add: MB_def)
  moreover have "fill block [0..<10 * MB] = Some (map to_char [0..<10 * MB])" using fill_all [of "10 * MB" block] assms(3) by simp
  moreover have "fill (replicate (5 * MB) 0) [0..<5 * MB] = Some (map to_char [0..<5 * MB])"
    using fill_all [of "5 * MB" "replicate (5 * MB) 0"] by simp
  moreover have "dec_int (- 524288) = ''-524288''" by (simp add: dec_int_def dec_nat.simps digit_def) code_simp
  ultimately have "allocmem_main heap stack = Some (0, [''10 MB allocated from the heap'', ''1 MB allocated from the stack'',
     ''Sum of stack_memory values: '' @ ''-524288'',
     ''Memory allocated and initialized: 10 MB (heap), 5 MB (static), 1 MB (stack)'',
     ''10 MB heap memory freed'', ''Program exiting...''])"
    unfolding allocmem_main_def assms(2) option.case by (simp only: bind.bind_lunit)
  then show ?thesis by (simp only: append.simps)
qed

theorem allocmem_output_witness:
  "allocmem_main (Some (replicate (10 * MB) 7)) (replicate MB 9) = Some (0,
    [''10 MB allocated from the heap'', ''1 MB allocated from the stack'',
     ''Sum of stack_memory values: -524288'',
     ''Memory allocated and initialized: 10 MB (heap), 5 MB (static), 1 MB (stack)'',
     ''10 MB heap memory freed'', ''Program exiting...''])"
  by (rule allocmem_output [OF _ refl]) (simp_all only: length_replicate)

end
