(* ===== verification/Fuel_Units.thy ===== *)
theory Fuel_Units
  imports C_Double_Facts
begin

text \<open>
  \<open>01-28/mpg2km.c\<close>, conversions between units of fuel consumption, and its test \<open>learnc.c\<close>. They compute
  with doubles; the theorems say how near the results are to the real numbers meant, that converting
  forth and back is the identity up to rounding, and exactly what the test prints.
\<close>

definition mpg2kml :: "double \<Rightarrow> double" where
  "mpg2kml mpg = mpg * d_lit 425144 1000000"

definition mpg2lphm :: "double \<Rightarrow> double" where
  "mpg2lphm mpg =
     (if is_zero mpg then d_of_int 0 else d_lit 235214583 1000000 / mpg)"

definition lph2mpg :: "double \<Rightarrow> double" where
  "lph2mpg lphm =
     (if is_zero lphm then d_of_int 0 else d_lit 235214583 1000000 / lphm)"

definition learnc_line :: "string \<Rightarrow> double \<Rightarrow> string c" where
  "learnc_line label x = do { t \<leftarrow> fixed 6 x; Some (label @ t @ [NEWLINE]) }"

definition learnc_main :: "(int \<times> string) c" where
  "learnc_main = do {
     a \<leftarrow> learnc_line ''30 MPG to KML: '' (mpg2kml (d_of_int 30));
     b \<leftarrow> learnc_line ''30 MPG to LPHM: '' (mpg2lphm (d_of_int 30));
     c \<leftarrow> learnc_line ''8 LPHM to MPG: '' (lph2mpg (d_of_int 8));
     d \<leftarrow> learnc_line ''0 MPG to LPHM (edge case): '' (mpg2lphm (d_of_int 0));
     e \<leftarrow> learnc_line ''0 LPHM to MPG (edge case): '' (lph2mpg (d_of_int 0));
     Some (0, a @ b @ c @ d @ e)
   }"

section \<open>The constants\<close>

lemmas conversion_defs = mpg2kml_def mpg2lphm_def lph2mpg_def times_double_def divide_double_def

lemmas eval_double = d_lit_def d_of_int_def rnd_def scaled_def unit_exponent_def exponent_def
  bit_length.simps round_div_def

lemma kml_literal: "d_lit 425144 1000000 = Fin False 7658713439915209 (- 54)"
  by (simp add: eval_double)

lemma lphm_literal: "d_lit 235214583 1000000 = Fin False 8275877408991458 (- 45)"
  by (simp add: eval_double)

abbreviation kml_factor :: real where "kml_factor \<equiv> val (d_lit 425144 1000000)"
abbreviation lphm_factor :: real where "lphm_factor \<equiv> val (d_lit 235214583 1000000)"

lemma constants_double [simp]:
  "is_double (d_lit 425144 1000000)" "is_double (d_lit 235214583 1000000)"
  "finite_double (d_lit 425144 1000000)" "finite_double (d_lit 235214583 1000000)"
  "d_of_int 0 = Fin False 0 (- 1074)"
  by (simp_all add: kml_literal lphm_literal d_of_int_def rnd_def)

lemma kml_factor_bounds: "2 powi - 2 \<le> kml_factor" "kml_factor < 2 powi - 1"
  "\<bar>kml_factor - 0.425144\<bar> \<le> 0.425144 * unit_roundoff"
  by (simp_all add: kml_literal unit_roundoff_def)

lemma lphm_factor_bounds: "2 powi 7 \<le> lphm_factor" "lphm_factor < 2 powi 8" "0 < lphm_factor"
  "\<bar>lphm_factor - 235.214583\<bar> \<le> 235.214583 * unit_roundoff"
  by (simp_all add: lphm_literal unit_roundoff_def)

text \<open>Both constant literals fit all finite doubles that are not too small.\<close>

lemma kml_in_range:
  assumes "is_double x" and "2 powi - 1020 \<le> \<bar>val x\<bar>"
  shows "in_range \<bar>val x * kml_factor\<bar>"
proof -
  have "2 powi (- 1020 + - 2) \<le> \<bar>val x\<bar> * kml_factor"
    using assms(2) kml_factor_bounds(1) by (rule powi_mult_ge)
  moreover have "\<bar>val x\<bar> * kml_factor < 2 powi (1024 + - 1)"
    using val_le_max [OF assms(1)] kml_factor_bounds(2) by (intro powi_mult_less) (simp_all add: kml_literal)
  ultimately show ?thesis unfolding in_range_def abs_mult by (simp add: kml_literal)
qed

lemma lphm_in_range:
  assumes "is_double x" and "2 powi - 1015 \<le> \<bar>val x\<bar>"
  shows "in_range \<bar>lphm_factor / val x\<bar>"
proof -
  have "(0 :: real) < 2 powi - 1015" by (rule zero_less_power_int) simp
  with assms(2) have "0 < \<bar>val x\<bar>" by linarith
  then have "2 powi (7 - 1024) \<le> lphm_factor / \<bar>val x\<bar>"
    using val_le_max [OF assms(1)] by (intro powi_div_ge lphm_factor_bounds)
  moreover have "lphm_factor / \<bar>val x\<bar> < 2 powi (8 - - 1015)"
    using assms(2) by (intro powi_div_less lphm_factor_bounds)
  ultimately show ?thesis unfolding in_range_def abs_divide by (simp add: lphm_literal)
qed

lemma not_tiny:
  assumes "2 powi k \<le> \<bar>v :: real\<bar>" shows "v \<noteq> 0"
  using assms zero_less_power_int [of "2 :: real" k] by (auto simp del: zero_less_power_int simp: not_le [symmetric])

lemma lph2mpg_same: "lph2mpg = mpg2lphm"
  by (simp add: fun_eq_iff conversion_defs)

lemma mpg2lphm_near:
  assumes "is_double x" and "finite_double x" and "2 powi - 1015 \<le> \<bar>val x\<bar>"
  shows "near (mpg2lphm x) (lphm_factor / val x)" and "is_double (mpg2lphm x)"
proof -
  have v: "val x \<noteq> 0" using assms(3) by (rule not_tiny)
  with assms show "near (mpg2lphm x) (lphm_factor / val x)"
    using d_div_near [of "d_lit 235214583 1000000" x] lphm_in_range [OF assms(1,3)]
    by (simp add: conversion_defs val_zero_iff)
  show "is_double (mpg2lphm x)" using assms(1) by (simp add: conversion_defs d_div_is_double)
qed

lemma mpg2lphm_large:
  assumes "is_double x" and "finite_double x" and "2 powi - 1015 \<le> \<bar>val x\<bar>" and "\<bar>val x\<bar> \<le> 2 powi 1020"
  shows "2 powi - 1015 \<le> \<bar>val (mpg2lphm x)\<bar>"
proof -
  let ?q = "lphm_factor / val x"
  have "2 powi (7 - 1020) \<le> lphm_factor / \<bar>val x\<bar>"
    using assms(4) not_tiny [OF assms(3)] by (intro powi_div_ge lphm_factor_bounds) simp_all
  then have q: "2 powi - 1013 \<le> \<bar>?q\<bar>" using lphm_factor_bounds(3) by (simp add: abs_divide)
  have "\<bar>val (mpg2lphm x) - ?q\<bar> \<le> \<bar>?q\<bar> * unit_roundoff"
    by (rule nearD(2)) (rule mpg2lphm_near(1) [OF assms(1-3)])
  also have "\<dots> \<le> \<bar>?q\<bar> * (1 / 2)" by (intro mult_left_mono) (simp_all add: unit_roundoff_def)
  finally have "\<bar>?q\<bar> * (1 / 2) \<le> \<bar>val (mpg2lphm x)\<bar>" by (rule half_away)
  moreover have "2 powi - 1013 * (1 / 2) \<le> \<bar>?q\<bar> * (1 / 2)" using q by (intro mult_right_mono) simp_all
  moreover have "(2 :: real) powi - 1015 \<le> 2 powi - 1013 * (1 / 2)" by simp
  ultimately show ?thesis by linarith
qed

section \<open>Theorems\<close>

lemma mpg2lphm_zero:
  assumes "is_double x"
  shows "is_zero (mpg2lphm x) \<longleftrightarrow> is_zero x \<or> (\<exists>s. x = Inf s)"
proof (cases "finite_double x \<and> \<not> is_zero x")
  case True
  then have v: "val x \<noteq> 0" "finite_double x" "\<not> is_zero x" by (simp_all add: val_zero_iff)
  obtain s n d where r: "d_div (d_lit 235214583 1000000) x = rnd s n d" "0 \<le> n" "0 < d"
    "of_int n / of_int d = \<bar>lphm_factor / val x\<bar>"
    by (rule d_div_rnd [OF constants_double(2) assms constants_double(4) v(2,1)])
  have "2 powi (7 - 1024) \<le> lphm_factor / \<bar>val x\<bar>"
    using val_le_max [OF assms] v(1) by (intro powi_div_ge lphm_factor_bounds) simp
  then have "2 powi (7 - 1024) \<le> (of_int n / of_int d :: real)"
    unfolding r(4) using lphm_factor_bounds(3) by (simp add: abs_divide)
  moreover have "(2 :: real) powi - 1021 \<le> 2 powi (7 - 1024)" by (rule powi_mono2) simp
  moreover have "0 < n" using r(2,4) v(1) lphm_factor_bounds(3) by (cases "n = 0") simp_all
  ultimately have "\<not> is_zero (rnd s n d)" using r(3) by (intro rnd_not_zero) linarith+
  with v r(1) show ?thesis by (cases x) (simp_all add: conversion_defs)
next
  case False
  then show ?thesis by (cases x) (auto simp: conversion_defs lphm_literal)
qed

text \<open>C40: The three conversions of fuel units are closed on the doubles: each result is a well-formed
  binary64 value (a mantissa of at most 53 bits, normalised unless subnormal, an exponent in
  range), and it is never a NaN unless the argument is one; the guards for 0 exclude the
  divisions by zero, and a result of 0 means that the argument was zero or infinite, never that
  the quotient was rounded to 0.\<close>

theorem conversions_typed:
  assumes "is_double x" and "x \<noteq> NaN"
  shows "is_double (mpg2kml x) \<and> mpg2kml x \<noteq> NaN \<and> is_double (mpg2lphm x) \<and> mpg2lphm x \<noteq> NaN
    \<and> is_double (lph2mpg x) \<and> lph2mpg x \<noteq> NaN
    \<and> (is_zero (mpg2lphm x) \<longleftrightarrow> is_zero x \<or> (\<exists>s. x = Inf s)) \<and> (is_zero (lph2mpg x) \<longleftrightarrow> is_zero x \<or> (\<exists>s. x = Inf s))"
proof -
  have "mpg2kml x \<noteq> NaN" using assms by (cases x) (simp_all add: conversion_defs kml_literal)
  moreover have "mpg2lphm x \<noteq> NaN" using assms by (cases x) (simp_all add: conversion_defs lphm_literal)
  moreover have "is_double (mpg2kml x)" "is_double (mpg2lphm x)"
    using assms(1) by (simp_all add: conversion_defs d_mul_is_double d_div_is_double)
  ultimately show ?thesis using mpg2lphm_zero [OF assms(1)] by (simp add: lph2mpg_same)
qed

theorem conversions_typed_witness:
  "is_double (mpg2kml (d_of_int 30)) \<and> mpg2kml (d_of_int 30) \<noteq> NaN
    \<and> is_double (mpg2lphm (d_of_int 30)) \<and> mpg2lphm (d_of_int 30) \<noteq> NaN \<and> \<not> is_zero (mpg2lphm (d_of_int 30))"
proof -
  have "d_of_int 30 = Fin False 8444249301319680 (- 48)" by (simp add: eval_double)
  then show ?thesis using conversions_typed [of "d_of_int 30"] by auto
qed

text \<open>C39: The three conversions of fuel units are accurate: on every finite double of absolute value
  at least 2^-1015 their results are finite and differ from the real numbers mpg * 0.425144 and
  235.214583 / x by a relative error of at most 3 * 2^-53, the rounding of the literal and of
  the operation together.\<close>

theorem conversions_accurate:
  assumes "is_double x" and "finite_double x" and "2 powi - 1015 \<le> \<bar>val x\<bar>"
  shows "finite_double (mpg2kml x) \<and> finite_double (mpg2lphm x) \<and> finite_double (lph2mpg x)
    \<and> \<bar>val (mpg2kml x) - val x * 0.425144\<bar> \<le> \<bar>val x * 0.425144\<bar> * (3 * unit_roundoff)
    \<and> \<bar>val (mpg2lphm x) - 235.214583 / val x\<bar> \<le> \<bar>235.214583 / val x\<bar> * (3 * unit_roundoff)
    \<and> \<bar>val (lph2mpg x) - 235.214583 / val x\<bar> \<le> \<bar>235.214583 / val x\<bar> * (3 * unit_roundoff)"
proof -
  have v: "0 < \<bar>val x\<bar>" using not_tiny [OF assms(3)] by simp
  have "(2 :: real) powi - 1020 \<le> 2 powi - 1015" by (rule powi_mono2) simp
  then have "2 powi - 1020 \<le> \<bar>val x\<bar>" using assms(3) by linarith
  then have k: "near (mpg2kml x) (val x * kml_factor)"
    unfolding conversion_defs using assms by (intro d_mul_near kml_in_range) simp_all
  moreover have "\<bar>val x * kml_factor - val x * 0.425144\<bar> \<le> \<bar>val x * 0.425144\<bar> * unit_roundoff"
    using kml_factor_bounds(3) by (intro error_mult) simp
  moreover have "\<bar>lphm_factor / val x - 235.214583 / val x\<bar> \<le> \<bar>235.214583 / val x\<bar> * unit_roundoff"
    using error_mult [of lphm_factor "235.214583" unit_roundoff "1 / val x"] lphm_factor_bounds(4) by simp
  moreover note mpg2lphm_near(1) [OF assms]
  ultimately show ?thesis unfolding lph2mpg_same by (intro conjI near_constant) (simp_all add: nearD)
qed

theorem conversions_accurate_witness:
  "finite_double (mpg2kml (d_of_int 30)) \<and> finite_double (mpg2lphm (d_of_int 30)) \<and> finite_double (lph2mpg (d_of_int 30))
    \<and> \<bar>val (mpg2kml (d_of_int 30)) - 30 * 0.425144\<bar> \<le> \<bar>30 * 0.425144\<bar> * (3 * unit_roundoff)
    \<and> \<bar>val (mpg2lphm (d_of_int 30)) - 235.214583 / 30\<bar> \<le> \<bar>235.214583 / 30\<bar> * (3 * unit_roundoff)
    \<and> \<bar>val (lph2mpg (d_of_int 30)) - 235.214583 / 30\<bar> \<le> \<bar>235.214583 / 30\<bar> * (3 * unit_roundoff)"
proof -
  have v: "val (d_of_int 30) = 30" by (simp add: d_of_int_val)
  show ?thesis by (rule conversions_accurate [of "d_of_int 30", unfolded v]) (simp_all add: d_of_int_val)
qed

text \<open>C38: Converting miles per gallon to litres per hundred kilometres and back gives the starting
  value up to a relative error of three roundings (3 * 2^-53), for every finite double between
  2^-1015 and 2^1020 in absolute value.\<close>

theorem lph2mpg_mpg2lphm:
  assumes "is_double x" and "finite_double x" and "2 powi - 1015 \<le> \<bar>val x\<bar>" and "\<bar>val x\<bar> \<le> 2 powi 1020"
  shows "finite_double (lph2mpg (mpg2lphm x))
    \<and> \<bar>val (lph2mpg (mpg2lphm x)) - val x\<bar> \<le> \<bar>val x\<bar> * (3 * unit_roundoff)"
proof -
  let ?y = "mpg2lphm x"
  note y = mpg2lphm_near [OF assms(1-3)] and l = mpg2lphm_large [OF assms]
  have z: "near (lph2mpg ?y) (lphm_factor / val ?y)"
    unfolding lph2mpg_same using y l by (intro mpg2lphm_near(1)) (simp_all only: nearD)
  have "\<bar>val (lph2mpg ?y) - val x\<bar> \<le> \<bar>val x\<bar> * (3 * unit_roundoff)"
    using nearD(2) [OF y(1)] z lphm_factor_bounds(3) not_tiny [OF assms(3)] not_tiny [OF l]
    by (intro near_quotient_back [of "val ?y" lphm_factor]) simp_all
  with z show ?thesis by (simp add: nearD)
qed

theorem lph2mpg_mpg2lphm_witness:
  "finite_double (lph2mpg (mpg2lphm (d_of_int 30)))
    \<and> \<bar>val (lph2mpg (mpg2lphm (d_of_int 30))) - 30\<bar> \<le> \<bar>30\<bar> * (3 * unit_roundoff)"
proof -
  have v: "val (d_of_int 30) = 30" by (simp add: d_of_int_val)
  show ?thesis by (rule lph2mpg_mpg2lphm [of "d_of_int 30", unfolded v]) (simp_all add: d_of_int_val)
qed

section \<open>The test program\<close>

lemmas eval_fixed = decimal_def padded_def dec_int_def dec_nat.simps digit_def

lemma learnc_values:
  "fixed 6 (mpg2kml (d_of_int 30)) = Some ''12.754320''"
  "fixed 6 (mpg2lphm (d_of_int 30)) = Some ''7.840486''"
  "fixed 6 (lph2mpg (d_of_int 8)) = Some ''29.401823''"
  "fixed 6 (mpg2lphm (d_of_int 0)) = Some ''0.000000''"
  "fixed 6 (lph2mpg (d_of_int 0)) = Some ''0.000000''"
  unfolding conversion_defs by (simp_all add: eval_double eval_fixed, code_simp+)

text \<open>Exactly what the test program prints.\<close>

theorem learnc_output:
  "learnc_main = Some (0,
     ''30 MPG to KML: 12.754320'' @ [NEWLINE] @
     ''30 MPG to LPHM: 7.840486'' @ [NEWLINE] @
     ''8 LPHM to MPG: 29.401823'' @ [NEWLINE] @
     ''0 MPG to LPHM (edge case): 0.000000'' @ [NEWLINE] @
     ''0 LPHM to MPG (edge case): 0.000000'' @ [NEWLINE])"
  unfolding learnc_main_def learnc_line_def learnc_values by simp

end
