(* ===== verification/Spec2Isabelle.thy ===== *)
theory Spec2Isabelle
  imports Message_Main Lru_Collisions Rfs_Theorems Week5_Theorems Week7_Theorems
    Week7_Demos Week7_Shared Rfs_Exclusion
    Multi_process Polybius Genrand Arger Loadmem Allocmem Fuel_Units
begin

text \<open>
  Verification of the programs of a course on computer systems (C, under \<open>src/\<close>): a message store behind an
  LRU cache (\<open>practicum1\<close>), a remote file system with its server and client (\<open>practicum2\<close>), and the exercises of
  the weeks (queues, a bounded buffer with producers and consumers, threads, ciphers, random numbers,
  memory). The programs share no code; each is modelled from its own files, and the theories below share
  a model of the C they use.

  \<^bold>\<open>How C is modelled.\<close> A function is a HOL function into \<open>'a option\<close> (\<open>'a c\<close> in \<open>C_Prelude\<close>). \<open>None\<close> is undefined behaviour: a
  signed overflow, an access outside of an array or through \<open>NULL\<close> or a freed pointer, a loop without end. So
  a theorem that a function gives \<open>Some\<close> says that it is free of undefined behaviour and returns. Errors
  the code reports are values; \<open>exit\<close> is \<open>Exit\<close> of the type \<open>outcome\<close>. \<open>int\<close> is the mathematical integer with checked
  operations (\<open>c_int\<close>, \<open>c_incr\<close>, \<open>c_rem\<close>); unsigned types that wrap around are words (\<open>C_Words\<close>, used by \<open>Genrand\<close> and
  \<open>Multi_process\<close>). A \<open>double\<close> is an IEEE binary64 number, every operation rounded to the nearest (\<open>C_Double\<close>, with
  the facts on rounding errors in \<open>C_Double_Facts\<close>). Objects of a struct type live in a \<open>store\<close> (\<open>C_Store\<close>), a map from addresses with the address of
  the next allocation and a function \<open>alloc\<close> that says for each allocation whether it fails and what the
  memory contains; addresses are never used again, so that a use after free is seen. Strings are character
  lists without the final NUL, buffers are lists of fixed length (\<open>C_Strings\<close>, \<open>C_Buffers\<close>, \<open>C_Arrays\<close>); \<open>fgets\<close> and the
  part of \<open>sscanf\<close> in use are in \<open>C_Files\<close> and \<open>C_Scan\<close>. The functions of \<open>ctype.h\<close> are those of the C locale. Threads
  are step relations in which every access to shared state is a step of its own and every interleaving
  is a run. Writing into an array is checked against its length, also inside of a struct (\<open>put\<close>, \<open>strncpy_to\<close>,
  \<open>modify\<close>). Copying an object onto itself, as \<open>memcpy\<close> does in \<open>update_existing\<close> when a cached message is stored
  again, is taken for an assignment without effect.

  \<^bold>\<open>practicum1.\<close> \<open>Message_Store\<close> is \<open>message.h\<close> and \<open>message.c\<close>: the struct, its bytes in a file, the directory as a map
  from names to bytes, and the failures of \<open>malloc\<close>, \<open>fopen\<close>, \<open>fwrite\<close> and \<open>fread\<close>. \<open>Lru_Cache\<close> is \<open>cache.h\<close> and \<open>cache.c\<close>: the
  doubly linked list between two sentinels, the open-addressing hash table with linear probing, the
  counters, and all operations; the state of the program is the record \<open>cache\<close>. \<open>Cache_Stats\<close> is \<open>print_cache_stats\<close>
  with the hit ratio in floating point, \<open>Message_Main\<close> is \<open>main.c\<close> with what it prints. The
  proof goes from pointers to lists (\<open>Linked_Shape\<close>, \<open>Lru_Links\<close>), from there to the representation invariant
  (\<open>Lru_Invariant\<close>), and to the refinement (\<open>Lru_Refine\<close>): \<open>Lru_Spec\<close> is the abstract cache, a list of at most sixteen
  pairs in the order of use, and the locale \<open>backing_store\<close> of \<open>Backing_Store\<close> says what the cache needs of the disk. \<open>Lru_Theorems\<close>
  holds the results: both operations refine the abstract cache, lookups answer what the disk holds, hits
  are a matter of the stack distance, the evaluation run counts the hits of an ideal LRU cache. All of them
  assume that cached keys do not share a home slot of the table (\<open>no_clash\<close>), which holds for the twenty
  identifiers of \<open>main\<close>; \<open>Lru_Collisions\<close> shows that the code is wrong otherwise, by a run of nineteen accesses
  that ends in a use after free.

  \<^bold>\<open>practicum2.\<close> \<open>Rfs_Model\<close> is \<open>common.h\<close> with what both sides use: tokens, paths as the kernel resolves them, and
  programs on a connection (\<open>Send\<close>, \<open>Recv\<close>, \<open>Act\<close> on the state of the own process, \<open>Close\<close>). \<open>Rfs_Server\<close> is \<open>server.c\<close>: the
  permission table, the files with their locks, the three handlers and \<open>client_thread\<close>. \<open>Rfs_Client\<close> is \<open>client.c\<close>.
  \<open>Rfs_Network\<close> connects any number of clients, each with a thread of the server, by two byte streams without
  message boundaries, for any state of the process; \<open>Rfs_Locks\<close> has the discipline that every handler keeps with the locks, and \<open>Rfs_Session\<close>
  the argument for one connection that nobody disturbs: its states are a few views, and a set of views
  that is closed under the steps of both sides decides every interleaving (locale \<open>session\<close>). \<open>Rfs_Write\<close>,
  \<open>Rfs_Refuse\<close>, \<open>Rfs_Get\<close> and \<open>Rfs_Remove\<close> do this for the commands; \<open>Rfs_Table\<close> and \<open>Rfs_Theorems\<close> have the permission table as
  a map, the steps by which any number of clients may change a file, and the round trip of an upload and a download.
  \<open>Rfs_Parallel\<close> is about many connections at the same time: views of one that the steps of the others do not
  disturb (locale \<open>parallel_sessions\<close>), in particular when all look at projections of the server (locale \<open>local_views\<close>,
  interpreted for downloads, where it hides the shared locks of the others). \<open>Rfs_Isolation\<close> interprets
  \<open>parallel_sessions\<close> for uploads, downloads and removals together: as long as no file is used by two of them, other than
  by downloads, each runs as alone, and at the end the files are those of a serial run. An upload that
  makes its file gets another inode than in a run of its own, hence the simulation there. It is about
  uploads with the permission \<open>READ_WRITE\<close>, which the table does not distinguish from no entry; with \<open>RO\<close> the
  result depends on the order once the table is full.
  \<open>Rfs_Mix\<close> has a run of two uploads to the same path that leaves a mixture of both files.
  \<open>Rfs_Strtok\<close> models the four calls of \<open>strtok\<close> with their shared static variable: undisturbed they give what the
  handlers of \<open>Rfs_Server\<close> are given there, interleaved with another thread they mix up two requests. In
  \<open>Rfs_Server\<close> a thread reads its request in one step; \<open>Rfs_Requests\<close> has the threads as they are, on a state of the
  process that contains the static variable. It shows by a simulation in both directions that the runs of
  these threads in which no call of \<open>strtok\<close> falls between those of another thread are exactly the runs of
  \<open>Rfs_Server\<close>, and carries the result of \<open>Rfs_Isolation\<close> over to them. \<open>Rfs_Exclusion\<close> has the exclusion
  of the locks in all runs of these threads, calm or not (with the points of the program at which a thread must
  hold one). The theorems about one session do not
  need this: there only one thread has a request.

  \<^bold>\<open>Queues.\<close> \<open>Week5_Queue\<close> and \<open>Week5_Theorems\<close> (\<open>week5/queue.c\<close>, \<open>queuetest.c\<close>), \<open>Week6_Queue\<close> (\<open>week6/queue.c\<close>) and \<open>Week7_Ring\<close> (\<open>week7/queuep.c\<close>)
  interpret the locales of \<open>Fifo_Interface\<close>: \<open>fifo\<close>, in which the first-in first-out property of every run of operations
  is proved once, and its extensions \<open>bounded_fifo\<close> and \<open>unbounded_fifo\<close>, in which a run gives exactly the answers of
  an abstract queue. \<open>Week5_Theorems\<close> also has the removal of the first process of maximal priority, and the output of
  the test program.

  \<^bold>\<open>Threads.\<close> \<open>Week7_Prodcons\<close> is \<open>pqueuep.c\<close> with \<open>pqueuepmain.c\<close>: two producers, two consumers, two mutexes and a condition
  variable with spurious wakeups. \<open>Week7_Invariant\<close> and \<open>Week7_Theorems\<close> show that no item is lost, doubled or out of
  order, that the program can only block at its end, and that it can block there. \<open>Week7_Threads\<close> models creating,
  joining and cancelling threads, with the loops of constant length written out, for \<open>Week7_Demos\<close> (\<open>multithread.c\<close>, \<open>thread_cancel.c\<close>: exactly the outputs that are possible)
  and \<open>Week7_Shared\<close> (\<open>thread_shared.c\<close>: exactly what the unsynchronized reader can print).

  \<^bold>\<open>Single programs.\<close> \<open>Cipher\<close>, \<open>Polybius\<close> and \<open>Genrand\<close> (\<open>week3\<close>; the first two also for their copies in \<open>week6\<close>), \<open>Loadmem\<close> and \<open>Allocmem\<close>
  (\<open>week4\<close>), \<open>Multi_process\<close> (\<open>week6/multi_process.c\<close>, which uses \<open>Week6_Queue\<close> and runs \<open>Cipher\<close> in its children), \<open>Arger\<close> (\<open>01-28/arger.c\<close>),
  \<open>Fuel_Units\<close> (\<open>01-28/mpg2km.c\<close> with its test \<open>learnc.c\<close>): how accurate the conversions are, that there and back is the
  identity up to rounding, and what the test prints.

  \<^bold>\<open>Bounds.\<close> No function has a fuel argument: loops that may not end are partial functions into \<open>option\<close>, and
  the theorems say that they return. The capacities are those of the code (sixteen cached messages, 103
  slots, a hundred permissions, fifteen buffered items, buffers of 1024 characters). The queues assume at
  most \<open>INT_MAX\<close> elements where the code counts them in an \<open>int\<close>.

  \<^bold>\<open>Assumptions.\<close> The usual 64-bit ABI: \<open>sizeof(Message)\<close> is 1032, \<open>char\<close> is signed where it is used as a number
  (\<open>Allocmem\<close>), and \<open>toupper\<close> of a negative \<open>char\<close> is undefined (\<open>Polybius\<close>). A \<open>send\<close> arrives as a whole; \<open>recv\<close> takes what
  has arrived up to its limit. \<open>flock\<close> blocks until the lock is free. Writes to a file opened successfully are
  complete except where a result is modelled as short. An \<open>int\<close> is read and written in one step (\<open>Week7_Shared\<close>).
  Doubles round to nearest, intermediate results are not kept in a wider format, and \<open>printf\<close> rounds the exact value.
  The file system has no symbolic links, and one program at a time changes it apart from \<open>practicum2\<close>.

  \<^bold>\<open>Not modelled.\<close> Messages on \<open>stderr\<close>, the log lines of the server and progress messages are left out, and of the
  set-up of the sockets all but whether the calls work. The free of a thread's argument struct in the
  server does not interact with the rest. \<open>week6/cipher.c\<close> and \<open>week6/polybius.c\<close> are the files of \<open>week3\<close> once more.
\<close>

end
